(* ===== verification/Prelude.thy ===== *)
theory Prelude
  imports Main "HOL-Library.List_Lexorder" "HOL-Library.Char_ord"
begin

text \<open>
  Shared vocabulary of the development: the \<open>?\<close> operator of Rust over operations that
  return a \<open>Result\<close> and mutate a state, the ordered map \<open>BTreeMap\<close> as a sorted
  association list, the unordered \<open>HashMap\<close> as an association list in an arbitrary
  iteration order, wrap-around of \<open>usize\<close>, and the counting lemma behind every quorum
  argument. A Rust \<open>String\<close> is its UTF-8 byte sequence: a \<open>string\<close> of Isabelle, whose
  lexicographic order (from \<open>List_Lexorder\<close> and \<open>Char_ord\<close>) is the byte order of \<open>str\<close>.
\<close>

named_theorems res_simps "unfolding the error-propagation operator"
named_theorems view_simps "how an operation changes the abstract view of a component"
named_theorems inv_intros "operations preserve the invariant of their component"
named_theorems frame_simps "fields an operation leaves alone"

section \<open>Results with state\<close>

text \<open>The kinds of \<open>std::io::Error\<close> the code constructs or forwards.\<close>

datatype io_error = IoOther | InvalidData | InvalidInput | UnexpectedEof | NotFound

text \<open>
  A method of type \<open>fn(&mut self) -> io::Result<T>\<close> returns its result together with the
  state it left behind: on an early return the mutations made so far remain.
\<close>

type_synonym ('a, 's) io_res = "(io_error + 'a) \<times> 's"

definition try_then :: "('a, 's) io_res \<Rightarrow> ('a \<Rightarrow> 's \<Rightarrow> ('c, 's) io_res) \<Rightarrow> ('c, 's) io_res" where
  "try_then r f = (case r of (Inl e, s) \<Rightarrow> (Inl e, s) | (Inr a, s) \<Rightarrow> f a s)"

lemma try_then_Inl [simp, res_simps]: "try_then (Inl e, s) f = (Inl e, s)"
  by (simp add: try_then_def)

lemma try_then_Inr [simp, res_simps]: "try_then (Inr a, s) f = f a s"
  by (simp add: try_then_def)

lemma try_then_split:
  "P (try_then r f) \<longleftrightarrow>
     (\<forall>e s. r = (Inl e, s) \<longrightarrow> P (Inl e, s)) \<and> (\<forall>a s. r = (Inr a, s) \<longrightarrow> P (f a s))"
  by (cases r; cases "fst r") (auto simp: try_then_def)

section \<open>Ordered maps\<close>

text \<open>
  \<open>std::collections::BTreeMap\<close>: its entries in ascending key order. Lookup is \<open>map_of\<close>.
\<close>

fun bt_insert :: "'k::linorder \<Rightarrow> 'v \<Rightarrow> ('k \<times> 'v) list \<Rightarrow> ('k \<times> 'v) list" where
  "bt_insert k v [] = [(k, v)]"
| "bt_insert k v (e # m) =
     (if fst e < k then e # bt_insert k v m
      else if k < fst e then (k, v) # e # m
      else (k, v) # m)"

definition bt_remove :: "'k \<Rightarrow> ('k \<times> 'v) list \<Rightarrow> ('k \<times> 'v) list" where
  "bt_remove k m = filter (\<lambda>e. fst e \<noteq> k) m"

definition bt_wf :: "('k::linorder \<times> 'v) list \<Rightarrow> bool" where
  "bt_wf m \<longleftrightarrow> sorted_wrt (<) (map fst m)"

lemma bt_wf_Nil [simp]: "bt_wf []"
  by (simp add: bt_wf_def)

lemma bt_wf_Cons [simp]: "bt_wf (e # m) \<longleftrightarrow> (\<forall>x \<in> set m. fst e < fst x) \<and> bt_wf m"
  by (auto simp: bt_wf_def)

lemma bt_wf_distinct: "bt_wf m \<Longrightarrow> distinct (map fst m)"
  by (induction m) (auto simp: image_iff)

lemma keys_bt_insert [simp]: "fst ` set (bt_insert k v m) = insert k (fst ` set m)"
  by (induction m) auto

lemma ball_keys_bt_insert:
  "(\<forall>x \<in> set (bt_insert k v m). P (fst x)) \<longleftrightarrow> P k \<and> (\<forall>x \<in> set m. P (fst x))"
proof -
  have "(\<forall>x \<in> set (bt_insert k v m). P (fst x)) \<longleftrightarrow> (\<forall>y \<in> fst ` set (bt_insert k v m). P y)"
    by blast
  also have "\<dots> \<longleftrightarrow> P k \<and> (\<forall>x \<in> set m. P (fst x))" by simp
  finally show ?thesis .
qed

lemma bt_wf_insert [simp, intro]: "bt_wf m \<Longrightarrow> bt_wf (bt_insert k v m)"
  by (induction m) (auto simp: ball_keys_bt_insert intro: less_trans)

lemma map_of_bt_insert [simp]: "bt_wf m \<Longrightarrow> map_of (bt_insert k v m) = (map_of m)(k \<mapsto> v)"
  by (induction m) (auto simp: fun_eq_iff)

lemma bt_insert_not_Nil [simp]: "bt_insert k v m \<noteq> []"
  by (cases m) auto

lemma bt_wf_remove [simp, intro]: "bt_wf m \<Longrightarrow> bt_wf (bt_remove k m)"
  by (induction m) (auto simp: bt_remove_def)

lemma map_of_bt_remove [simp]: "map_of (bt_remove k m) = (map_of m)(k := None)"
  by (induction m) (auto simp: bt_remove_def fun_eq_iff)

lemma bt_remove_absent: "map_of m k = None \<Longrightarrow> bt_remove k m = m"
  by (induction m) (auto simp: bt_remove_def split: if_splits)

lemma bt_remove_idem [simp]: "bt_remove k (bt_remove k m) = bt_remove k m"
  by (simp add: bt_remove_def)

lemma bt_wf_filter: "bt_wf m \<Longrightarrow> bt_wf (filter P m)"
  by (induction m) auto

lemma map_of_filter_value:
  "bt_wf m \<Longrightarrow> map_of (filter (\<lambda>e. P (snd e)) m) k
     = (case map_of m k of None \<Rightarrow> None | Some v \<Rightarrow> if P v then Some v else None)"
proof (induction m)
  case Nil
  then show ?case by simp
next
  case (Cons e m)
  have fresh: "map_of m (fst e) = None"
    using Cons.prems by (force simp: map_of_eq_None_iff)
  show ?case
    using Cons fresh by (cases "k = fst e") (auto split: option.splits)
qed

lemma map_of_map_value: "map_of (map (\<lambda>e. (fst e, f (fst e) (snd e))) m) k = map_option (f k) (map_of m k)"
  by (induction m) auto

section \<open>Unordered maps\<close>

text \<open>
  \<open>std::collections::HashMap\<close> when the code iterates over it: an association list with
  distinct keys, in whatever order the iterator yields them. Where the code only looks keys
  up and inserts, a HashMap is a partial function.
\<close>

definition hm_insert :: "'k \<Rightarrow> 'v \<Rightarrow> ('k \<times> 'v) list \<Rightarrow> ('k \<times> 'v) list" where
  "hm_insert k v m = (k, v) # filter (\<lambda>e. fst e \<noteq> k) m"

definition hm_remove :: "'k \<Rightarrow> ('k \<times> 'v) list \<Rightarrow> ('k \<times> 'v) list" where
  "hm_remove k m = filter (\<lambda>e. fst e \<noteq> k) m"

lemma map_of_filter_key: "map_of (filter (\<lambda>e. fst e \<noteq> k) m) = (map_of m)(k := None)"
  by (induction m) (auto simp: fun_eq_iff)

lemma map_of_hm_insert [simp]: "map_of (hm_insert k v m) = (map_of m)(k \<mapsto> v)"
  by (auto simp: hm_insert_def map_of_filter_key)

lemma map_of_hm_remove [simp]: "map_of (hm_remove k m) = (map_of m)(k := None)"
  by (simp add: hm_remove_def map_of_filter_key)

lemma distinct_filter_keys: "distinct (map fst m) \<Longrightarrow> distinct (map fst (filter P m))"
  by (induction m) auto

lemma distinct_hm_insert [simp]: "distinct (map fst m) \<Longrightarrow> distinct (map fst (hm_insert k v m))"
  by (auto simp: hm_insert_def distinct_filter_keys)

lemma distinct_hm_remove [simp]: "distinct (map fst m) \<Longrightarrow> distinct (map fst (hm_remove k m))"
  by (simp add: hm_remove_def distinct_filter_keys)

section \<open>Machine integers\<close>

text \<open>
  \<open>u64\<close> and \<open>usize\<close> counters are natural numbers; \<open>saturating_sub\<close> is the subtraction of
  \<open>nat\<close>. The one place where a subtraction may leave the range on data from the network is
  written with the wrap-around of a 64-bit target.
\<close>

definition wrapping_pred :: "nat \<Rightarrow> nat" where
  "wrapping_pred n = (if n = 0 then 2 ^ 64 - 1 else n - 1)"

lemma wrapping_pred_Suc [simp]: "wrapping_pred (Suc n) = n"
  by (simp add: wrapping_pred_def)

lemma wrapping_pred_pos: "0 < n \<Longrightarrow> wrapping_pred n = n - 1"
  by (simp add: wrapping_pred_def)

section \<open>Majorities\<close>

definition is_majority :: "'a list \<Rightarrow> 'a set \<Rightarrow> bool" where
  "is_majority members S \<longleftrightarrow> card (set members) div 2 < card (S \<inter> set members)"

lemma majorities_meet:
  assumes "is_majority m A" and "is_majority m B"
  shows "\<exists>x. x \<in> set m \<and> x \<in> A \<and> x \<in> B"
proof (rule ccontr)
  assume none: "\<not> ?thesis"
  let ?A = "A \<inter> set m" and ?B = "B \<inter> set m"
  have "card ?A + card ?B = card (?A \<union> ?B)"
    using none by (subst card_Un_disjoint) auto
  also have "\<dots> \<le> card (set m)" by (rule card_mono) auto
  finally show False using assms by (simp add: is_majority_def)
qed

lemma is_majority_mono:
  assumes "is_majority m A" and "A \<inter> set m \<subseteq> B"
  shows "is_majority m B"
proof -
  have "card (A \<inter> set m) \<le> card (B \<inter> set m)"
    using assms(2) by (intro card_mono) auto
  then show ?thesis using assms(1) by (simp add: is_majority_def)
qed

text \<open>
  The contract between two families of quorums that a vote or a commit may be counted with:
  a set of the one always meets a set of the other. What the clients of a quorum rule rely on
  follows once and for all.
\<close>

locale quorum_overlap =
  fixes P :: "'a set \<Rightarrow> bool" and Q :: "'a set \<Rightarrow> bool"
  assumes overlap: "P A \<Longrightarrow> Q B \<Longrightarrow> \<exists>x. x \<in> A \<and> x \<in> B"
begin

lemma single_winner:
  assumes "P {x. v x = Some a}" and "Q {x. v x = Some b}"
  shows "a = b"
proof -
  from overlap [OF assms] obtain x where "v x = Some a" and "v x = Some b" by auto
  then show ?thesis by simp
qed

lemma no_disjoint_decisions: "P A \<Longrightarrow> Q B \<Longrightarrow> A \<inter> B \<noteq> {}"
  using overlap by fastforce

end

interpretation majority: quorum_overlap "is_majority m" "is_majority m" for m
  by unfold_locales (use majorities_meet in blast)

end
