(* ===== verification/Protocol.thy ===== *)
theory Protocol
  imports Prelude
begin

text \<open>
  The data of \<open>src/protocol.rs\<close>: commands, log entries, snapshots, cluster configurations
  and the errors of the leader's administrative operations, together with the quorum rule
  (\<open>config_quorum_reached\<close>) and the search for the highest index that satisfies it
  (\<open>config_quorum_reached_index\<close>). The lemmas show that the search returns exactly the
  greatest index with a quorum, and that quorums counted by the rule always meet, also
  across the two steps of a joint-consensus membership change.
\<close>

section \<open>Data\<close>

record server_id =
  node_id_of :: string
  addr_of_server :: string

datatype configuration =
    Simple "server_id list"
  | Joint (joint_old: "server_id list") (joint_new: "server_id list")

datatype tx_op = TxPut string string | TxDelete string

datatype vote = Yes | No string

datatype tx_decision = Commit | Abort

datatype command =
    CmdSet string string
  | CmdGet string
  | CmdDelete string
  | CmdCompact
  | CmdAbortTx string
  | CmdBeginTx string "tx_op list"
  | CmdDecideTx string tx_decision
  | CmdAddNode server_id
  | CmdRemoveNode string
  | CmdInstallConfiguration configuration

record log_entry =
  le_term :: nat
  le_index :: nat
  le_command :: command

record snapshot =
  last_included_index :: nat
  last_included_term :: nat
  snap_data :: "(string \<times> string) list"

record read_index =
  ri_index :: nat
  ri_issued_at :: nat

datatype membership_error =
    MembershipNotLeader
  | AlreadyMember string
  | NotMember string
  | CannotRemoveSelf
  | CannotRemoveLastServer
  | MembershipStorageError io_error

datatype abort_tx_error =
    AbortNotLeader
  | AbortNotFound string
  | AbortStorageError io_error

section \<open>Operations of a configuration\<close>

text \<open>The loop of \<open>all_servers\<close> over \<open>new\<close>, pushing the servers whose id is not there yet.\<close>

fun push_missing :: "server_id list \<Rightarrow> server_id list \<Rightarrow> server_id list" where
  "push_missing combined [] = combined"
| "push_missing combined (s # ss) =
     (if list_ex (\<lambda>x. node_id_of x = node_id_of s) combined then push_missing combined ss
      else push_missing (combined @ [s]) ss)"

fun all_servers :: "configuration \<Rightarrow> server_id list" where
  "all_servers (Simple s) = s"
| "all_servers (Joint old new) = push_missing old new"

definition effective_servers :: "configuration \<Rightarrow> server_id list" where
  "effective_servers c = all_servers c"

fun config_size :: "configuration \<Rightarrow> nat" where
  "config_size (Simple s) = length s"
| "config_size (Joint old new) = max (length old) (length new)"

definition addr_of :: "configuration \<Rightarrow> string \<Rightarrow> string option" where
  "addr_of c nid = map_option addr_of_server (find (\<lambda>s. node_id_of s = nid) (all_servers c))"

definition config_contains :: "configuration \<Rightarrow> string \<Rightarrow> bool" where
  "config_contains c nid \<longleftrightarrow> list_ex (\<lambda>s. node_id_of s = nid) (all_servers c)"

section \<open>The quorum rule\<close>

text \<open>The index a server is known to have: the leader's own for itself, \<open>match_index\<close> else.\<close>

definition server_idx :: "(string \<rightharpoonup> nat) \<Rightarrow> string \<Rightarrow> nat \<Rightarrow> server_id \<Rightarrow> nat" where
  "server_idx match_index self_node_id self_index s =
     (if node_id_of s = self_node_id then self_index
      else case match_index (node_id_of s) of None \<Rightarrow> 0 | Some i \<Rightarrow> i)"

fun count_reached :: "(string \<rightharpoonup> nat) \<Rightarrow> string \<Rightarrow> nat \<Rightarrow> nat \<Rightarrow> server_id list \<Rightarrow> nat" where
  "count_reached mi self si index [] = 0"
| "count_reached mi self si index (s # ss) =
     (if index \<le> server_idx mi self si s then 1 else 0) + count_reached mi self si index ss"

fun config_quorum_reached ::
  "configuration \<Rightarrow> (string \<rightharpoonup> nat) \<Rightarrow> string \<Rightarrow> nat \<Rightarrow> nat \<Rightarrow> bool" where
  "config_quorum_reached (Simple servers) mi self si index =
     (length servers div 2 < count_reached mi self si index servers)"
| "config_quorum_reached (Joint old new) mi self si index =
     (length old div 2 < count_reached mi self si index old \<and>
      length new div 2 < count_reached mi self si index new)"

text \<open>The \<open>while lo <= hi\<close> loop of \<open>config_quorum_reached_index\<close>, with its two breaks.\<close>

function quorum_search :: "(nat \<Rightarrow> bool) \<Rightarrow> nat \<Rightarrow> nat \<Rightarrow> nat \<Rightarrow> nat" where
  "quorum_search reached lo hi best =
     (if lo \<le> hi then
        let mid = (lo + hi) div 2 in
        if reached mid then
          (if mid = hi then mid else quorum_search reached (mid + 1) hi mid)
        else
          (if mid = 0 then best else quorum_search reached lo (mid - 1) best)
      else best)"
  by pat_completeness auto
termination
  by (relation "measure (\<lambda>(reached, lo, hi, best). hi + 1 - lo)") auto

declare quorum_search.simps [simp del]

definition config_quorum_reached_index ::
  "configuration \<Rightarrow> (string \<rightharpoonup> nat) \<Rightarrow> string \<Rightarrow> nat \<Rightarrow> nat" where
  "config_quorum_reached_index config mi self si =
     quorum_search (config_quorum_reached config mi self si) 1 si 0"

section \<open>The search finds the greatest index with a quorum\<close>

lemma count_reached_antimono:
  "i \<le> j \<Longrightarrow> count_reached mi self si j ss \<le> count_reached mi self si i ss"
  by (induction ss) auto

lemma quorum_reached_antimono:
  assumes "config_quorum_reached c mi self si j" and "i \<le> j"
  shows "config_quorum_reached c mi self si i"
  using assms by (cases c) (auto dest: count_reached_antimono intro: less_le_trans)

text \<open>The loop invariant: everything up to \<open>best\<close> is reached, nothing above \<open>hi\<close> is.\<close>

lemma search_above:
  fixes m n :: nat
  assumes "\<forall>i j. reached j \<longrightarrow> i \<le> j \<longrightarrow> reached i" and "\<not> reached m" and "m \<noteq> 0"
  shows "\<forall>j. m - 1 < j \<longrightarrow> j \<le> n \<longrightarrow> \<not> reached j"
proof (intro allI impI notI)
  fix j assume "m - 1 < j" and "reached j"
  then have "m \<le> j" using assms(3) by linarith
  with \<open>reached j\<close> assms(1) have "reached m" by blast
  with assms(2) show False ..
qed

lemma search_exhausted:
  fixes lo hi best n :: nat
  assumes "\<forall>j. hi < j \<longrightarrow> j \<le> n \<longrightarrow> \<not> reached j" and "\<forall>j. best < j \<longrightarrow> j < lo \<longrightarrow> \<not> reached j" and "\<not> lo \<le> hi"
  shows "\<forall>j. best < j \<longrightarrow> j \<le> n \<longrightarrow> \<not> reached j"
  using assms by (meson le_less_trans not_le)

lemma quorum_search_spec:
  assumes "\<forall>i j. reached j \<longrightarrow> i \<le> j \<longrightarrow> reached i"
    and "0 < lo" and "best < lo" and "best = 0 \<or> reached best"
    and "\<forall>j. hi < j \<longrightarrow> j \<le> n \<longrightarrow> \<not> reached j"
    and "\<forall>j. best < j \<longrightarrow> j < lo \<longrightarrow> \<not> reached j"
    and "hi \<le> n" and "best \<le> n" and "r = quorum_search reached lo hi best"
  shows "r \<le> n \<and> (r = 0 \<or> reached r) \<and> (\<forall>j. r < j \<longrightarrow> j \<le> n \<longrightarrow> \<not> reached j)"
  using assms
proof (induction reached lo hi best rule: quorum_search.induct)
  case (1 reached lo hi best)
  note step = quorum_search.simps [of reached lo hi best]
  let ?mid = "(lo + hi) div 2"
  show ?case
  proof (cases "lo \<le> hi")
    case False
    then show ?thesis using search_exhausted [OF "1.prems"(5,6)] "1.prems"(4,8,9) step by simp
  next
    case True
    then have mid: "lo \<le> ?mid" "?mid \<le> hi" by auto
    show ?thesis
    proof (cases "reached ?mid")
      case hit: True
      show ?thesis
      proof (cases "?mid = hi")
        case at: True
        then have "r = hi" using True hit step "1.prems"(9) by simp
        then show ?thesis using "1.prems"(5,7) hit at by simp
      next
        case False
        have r: "r = quorum_search reached (?mid + 1) hi ?mid"
          using True hit False step "1.prems"(9) by (simp add: Let_def)
        show ?thesis
          by (rule "1.IH"(1) [OF True refl hit False "1.prems"(1) _ _ _ "1.prems"(5) _ "1.prems"(7) _ r])
            (use hit mid "1.prems"(7) in auto)
      qed
    next
      case miss: False
      have pos: "?mid \<noteq> 0" using mid "1.prems"(2) by simp
      have r: "r = quorum_search reached lo (?mid - 1) best"
        using True miss pos step "1.prems"(9) by (simp add: Let_def)
      show ?thesis
        by (rule "1.IH"(2) [OF True refl miss pos "1.prems"(1,2,3,4) search_above [OF "1.prems"(1) miss pos] "1.prems"(6) _ "1.prems"(8) r])
          (use mid "1.prems"(7) in simp)
    qed
  qed
qed

text \<open>\<open>config_quorum_reached_index\<close> returns the greatest log index, up to the leader's own
  last index, that satisfies the quorum rule of the configuration, and 0 when none does.\<close>

theorem quorum_index_greatest:
  "let r = config_quorum_reached_index config mi self si in
     r \<le> si \<and> (r = 0 \<or> config_quorum_reached config mi self si r) \<and>
     \<not> (\<exists>j. r < j \<and> j \<le> si \<and> config_quorum_reached config mi self si j)"
proof -
  let ?q = "config_quorum_reached config mi self si"
  have "\<forall>i j. ?q j \<longrightarrow> i \<le> j \<longrightarrow> ?q i" using quorum_reached_antimono by blast
  from quorum_search_spec [OF this, of 1 0 si si "config_quorum_reached_index config mi self si"]
  show ?thesis by (auto simp: Let_def config_quorum_reached_index_def)
qed

lemmas quorum_index_facts =
  quorum_search_spec [where reached = "config_quorum_reached config mi self si" and lo = 1 and best = 0
    and hi = si and n = si, folded config_quorum_reached_index_def]
  for config mi self si

section \<open>Quorums of a configuration meet\<close>

text \<open>The servers (by id) that count for a quorum of the configuration.\<close>

abbreviation ids :: "server_id list \<Rightarrow> string list" where
  "ids ss \<equiv> map node_id_of ss"

fun config_quorum :: "configuration \<Rightarrow> string set \<Rightarrow> bool" where
  "config_quorum (Simple s) S = is_majority (ids s) S"
| "config_quorum (Joint old new) S = (is_majority (ids old) S \<and> is_majority (ids new) S)"

fun config_wf :: "configuration \<Rightarrow> bool" where
  "config_wf (Simple s) = distinct (ids s)"
| "config_wf (Joint old new) = (distinct (ids old) \<and> distinct (ids new))"

definition id_idx :: "(string \<rightharpoonup> nat) \<Rightarrow> string \<Rightarrow> nat \<Rightarrow> string \<Rightarrow> nat" where
  "id_idx mi self si nid = (if nid = self then si else case mi nid of None \<Rightarrow> 0 | Some i \<Rightarrow> i)"

lemma server_idx_id: "server_idx mi self si s = id_idx mi self si (node_id_of s)"
  by (simp add: server_idx_def id_idx_def)

lemma count_reached_card:
  "distinct (ids ss) \<Longrightarrow>
   count_reached mi self si i ss = card ({nid. i \<le> id_idx mi self si nid} \<inter> set (ids ss))"
proof (induction ss)
  case Nil
  then show ?case by simp
next
  case (Cons s ss)
  let ?S = "{nid. i \<le> id_idx mi self si nid}"
  show ?case
  proof (cases "i \<le> server_idx mi self si s")
    case True
    then have "?S \<inter> set (ids (s # ss)) = insert (node_id_of s) (?S \<inter> set (ids ss))"
      by (auto simp: server_idx_id)
    then show ?thesis using Cons True by (simp add: card_insert_if image_iff)
  next
    case False
    then have "?S \<inter> set (ids (s # ss)) = ?S \<inter> set (ids ss)"
      by (auto simp: server_idx_id)
    then show ?thesis using Cons False by simp
  qed
qed

lemma card_ids: "distinct (ids ss) \<Longrightarrow> card (node_id_of ` set ss) = length ss"
  using distinct_card [of "ids ss"] by simp

lemma quorum_reached_sets:
  "config_wf c \<Longrightarrow>
   config_quorum_reached c mi self si i = config_quorum c {nid. i \<le> id_idx mi self si nid}"
  by (cases c) (simp_all add: is_majority_def count_reached_card card_ids)

interpretation same_config: quorum_overlap "config_quorum c" "config_quorum c" for c
  by unfold_locales (cases c; use majorities_meet in fastforce)

interpretation enter_joint: quorum_overlap "config_quorum (Simple old)" "config_quorum (Joint old new)"
  for old new
  by unfold_locales (use majorities_meet in fastforce)

interpretation leave_joint: quorum_overlap "config_quorum (Joint old new)" "config_quorum (Simple new)"
  for old new
  by unfold_locales (use majorities_meet in fastforce)

text \<open>The configurations that can be in force at the same time during one membership change.\<close>

definition adjacent :: "configuration \<Rightarrow> configuration \<Rightarrow> bool" where
  "adjacent c c' \<longleftrightarrow> c = c' \<or> (\<exists>old new. (c = Simple old \<and> c' = Joint old new) \<or>
      (c = Joint old new \<and> c' = Simple new))"

lemma adjacent_quorums_meet:
  assumes "adjacent c c'" and "config_quorum c A" and "config_quorum c' B"
  shows "\<exists>x. x \<in> A \<and> x \<in> B"
proof -
  consider "c = c'" | old new where "c = Simple old" "c' = Joint old new"
    | old new where "c = Joint old new" "c' = Simple new"
    using assms(1) unfolding adjacent_def by blast
  then show ?thesis
    using assms(2,3) same_config.overlap enter_joint.overlap leave_joint.overlap
    by cases blast+
qed

text \<open>C32: Two decisions taken with the code's quorum rule under configurations that can be in
  force together during a membership change (the same one, or the old one and the joint one,
  or the joint one and the new one) share a server: whatever the two leaders know about
  replication, some server has both indices.\<close>

theorem membership_quorums_overlap:
  assumes "adjacent c c'" and "config_wf c" and "config_wf c'"
    and "config_quorum_reached c mi self si i"
    and "config_quorum_reached c' mi' self' si' i'"
  shows "\<exists>nid. i \<le> id_idx mi self si nid \<and> i' \<le> id_idx mi' self' si' nid"
  using adjacent_quorums_meet [OF assms(1)] assms(2-5) by (auto simp: quorum_reached_sets)

definition sid :: "string \<Rightarrow> server_id" where
  "sid a = \<lparr>node_id_of = a, addr_of_server = a\<rparr>"

theorem membership_quorums_overlap_witness:
  "\<exists>nid. (3::nat) \<le> id_idx [''b'' \<mapsto> 3] ''a'' 3 nid \<and> (2::nat) \<le> id_idx [''a'' \<mapsto> 2, ''b'' \<mapsto> 2] ''d'' 2 nid"
proof (rule membership_quorums_overlap
    [where c = "Simple [sid ''a'', sid ''b'', sid ''c'']"
       and c' = "Joint [sid ''a'', sid ''b'', sid ''c''] [sid ''b'', sid ''d'']"])
qed (auto simp: adjacent_def sid_def server_idx_def)

section \<open>Servers of a configuration\<close>

lemma list_ex_ids: "list_ex (\<lambda>x. node_id_of x = a) c \<longleftrightarrow> a \<in> node_id_of ` set c"
  by (auto simp: list_ex_iff)

lemma ids_push_missing: "set (ids (push_missing c ss)) = set (ids c) \<union> set (ids ss)"
  by (induction c ss rule: push_missing.induct) (auto simp: list_ex_ids)

lemma distinct_push_missing: "distinct (ids c) \<Longrightarrow> distinct (ids (push_missing c ss))"
  by (induction c ss rule: push_missing.induct) (simp_all add: list_ex_ids)

lemma all_servers_distinct: "config_wf c \<Longrightarrow> distinct (ids (all_servers c))"
  by (cases c) (auto intro: distinct_push_missing)

lemma config_contains_iff: "config_contains c nid \<longleftrightarrow> nid \<in> set (ids (all_servers c))"
  by (auto simp: config_contains_def list_ex_iff)

lemma addr_of_contains: "addr_of c nid \<noteq> None \<longleftrightarrow> config_contains c nid"
  by (auto simp: addr_of_def config_contains_def list_ex_iff find_None_iff)

end
