(* ===== verification/StateMachine.thy ===== *)
theory StateMachine
  imports Protocol
begin

text \<open>
  The log-structured merge tree of \<open>src/state_machine.rs\<close>: memtable, write-ahead log,
  SSTables on disk and the table of pending two-phase-commit transactions. This theory holds
  the definitions, one per method, in the order of the source; its properties are in
  \<open>StateMachine_Props\<close>.

  The disk is explicit: the lines of \<open>memtable.wal\<close>, the files of the directory \<open>sst/\<close>
  and a plan of I/O faults, one Boolean per fallible system call still to come (an exhausted
  plan means that every further call succeeds; a call that fails has no effect). The JSON
  encodings belong to the \<open>serde_json\<close> crate and are parameters: a file or a line holds a
  value of an arbitrary type \<open>'b\<close>, and the record \<open>'b sm_env\<close> carries the encoder and
  decoder of each type that is stored, along with the reading of the wall clock. The
  temporary file of \<open>write_json\<close> is never read and is left out: the content appears under
  the final name when both the write and the rename succeed.
\<close>

section \<open>Data\<close>

record sm_config =
  data_dir :: string
  memtable_size_threshold :: nat

record mem_entry =
  me_value :: "string option"

record pending_tx =
  ptx_ops :: "tx_op list"
  ptx_votes :: "(string \<times> vote) list"
  ptx_decision :: "tx_decision option"
  ptx_begin_unix_ms :: nat

datatype wal_op = WalPut string string | WalDelete string

record sst_entry =
  se_key :: string
  se_value :: "string option"
  se_tombstone :: bool

record sst_meta =
  meta_id :: nat
  first_key :: string
  last_key :: string
  entry_count :: nat
  created_at :: nat

text \<open>A file name of the directory \<open>sst/\<close>: what \<open>file_stem\<close> and \<open>extension\<close> return.\<close>

datatype path = Path (stem: string) (ext: string)

record sst_handle =
  h_path :: path
  h_meta :: sst_meta

record pending_tx_view =
  view_op_count :: nat
  view_yes_votes :: nat
  view_no_votes :: nat

record 'b sm_env =
  enc_wal :: "wal_op \<Rightarrow> 'b"
  dec_wal :: "'b \<Rightarrow> wal_op option"
  blank_line :: "'b \<Rightarrow> bool"
  enc_sst :: "sst_entry list \<Rightarrow> 'b"
  dec_sst :: "'b \<Rightarrow> sst_entry list option"
  enc_meta :: "sst_meta \<Rightarrow> 'b"
  dec_meta :: "'b \<Rightarrow> sst_meta option"
  wall_clock_ms :: nat

record 'b lsm_disk =
  wal_lines :: "'b list"
  files :: "(path \<times> 'b) list"
  faults :: "bool list"

record 'b state_machine =
  config :: sm_config
  memtable :: "(string \<times> mem_entry) list"
  memtable_bytes :: nat
  disk :: "'b lsm_disk"
  sstables :: "sst_handle list"
  next_sst_id :: nat
  pending_txs :: "(string \<times> pending_tx) list"

section \<open>Clock, system calls and file names\<close>

definition now_unix_ms :: "'b sm_env \<Rightarrow> nat" where
  "now_unix_ms E = wall_clock_ms E"

definition now_unix :: "'b sm_env \<Rightarrow> nat" where
  "now_unix E = wall_clock_ms E div 1000"

definition io_op :: "'b lsm_disk \<Rightarrow> (unit, 'b lsm_disk) io_res" where
  "io_op d = (case faults d of
      [] \<Rightarrow> (Inr (), d)
    | b # bs \<Rightarrow> (if b then Inl IoOther else Inr (), d\<lparr>faults := bs\<rparr>))"

definition on_disk :: "('b lsm_disk \<Rightarrow> ('a, 'b lsm_disk) io_res) \<Rightarrow> 'b state_machine
    \<Rightarrow> ('a, 'b state_machine) io_res" where
  "on_disk f s = (case f (disk s) of (r, d) \<Rightarrow> (r, s\<lparr>disk := d\<rparr>))"

text \<open>\<open>fs::write\<close> of the temporary file, then \<open>fs::rename\<close>.\<close>

definition write_json :: "path \<Rightarrow> 'b \<Rightarrow> 'b lsm_disk \<Rightarrow> (unit, 'b lsm_disk) io_res" where
  "write_json p content d =
     try_then (io_op d) (\<lambda>_ d.
     try_then (io_op d) (\<lambda>_ d.
       (Inr (), d\<lparr>files := hm_insert p content (files d)\<rparr>)))"

text \<open>\<open>let _ = fs::remove_file(p)\<close>: a failure is ignored and leaves the file.\<close>

definition remove_file :: "path \<Rightarrow> 'b lsm_disk \<Rightarrow> 'b lsm_disk" where
  "remove_file p d = (case io_op d of
      (Inl _, d') \<Rightarrow> d'
    | (Inr _, d') \<Rightarrow> d'\<lparr>files := hm_remove p (files d')\<rparr>)"

definition meta_path :: "path \<Rightarrow> path" where
  "meta_path p = Path (stem p) ''meta''"

definition digit :: "nat \<Rightarrow> char" where
  "digit d = char_of (48 + d)"

fun show_nat :: "nat \<Rightarrow> string" where
  "show_nat n = (if n < 10 then [digit n] else show_nat (n div 10) @ [digit (n mod 10)])"

declare show_nat.simps [simp del]

text \<open>\<open>format!("{id:06}")\<close>.\<close>

definition fmt06 :: "nat \<Rightarrow> string" where
  "fmt06 n = replicate (6 - length (show_nat n)) (CHR ''0'') @ show_nat n"

definition sst_path :: "nat \<Rightarrow> path" where
  "sst_path i = Path (fmt06 i) ''sst''"

definition is_digit :: "char \<Rightarrow> bool" where
  "is_digit c \<longleftrightarrow> 48 \<le> (of_char c :: nat) \<and> (of_char c :: nat) \<le> 57"

definition digits_value :: "string \<Rightarrow> nat" where
  "digits_value s = foldl (\<lambda>a c. 10 * a + (of_char c - 48)) 0 s"

text \<open>\<open>str::parse::<u64>\<close>: an optional plus sign, then decimal digits that fit in 64 bits.\<close>

definition parse_u64 :: "string \<Rightarrow> nat option" where
  "parse_u64 s =
     (let t = (case s of c # cs \<Rightarrow> if c = CHR ''+'' then cs else s | [] \<Rightarrow> []) in
      if t \<noteq> [] \<and> list_all is_digit t \<and> digits_value t < 2 ^ 64 then Some (digits_value t) else None)"

definition parse_sst_id :: "path \<Rightarrow> nat option" where
  "parse_sst_id p = parse_u64 (stem p)"

definition load_sst_meta :: "'b sm_env \<Rightarrow> path \<Rightarrow> 'b lsm_disk \<Rightarrow> io_error + sst_meta" where
  "load_sst_meta E p d = (case map_of (files d) (meta_path p) of
      None \<Rightarrow> Inl NotFound
    | Some raw \<Rightarrow> (case dec_meta E raw of None \<Rightarrow> Inl IoOther | Some m \<Rightarrow> Inr m))"

definition load_sst_entries :: "'b sm_env \<Rightarrow> path \<Rightarrow> 'b lsm_disk \<Rightarrow> io_error + sst_entry list" where
  "load_sst_entries E p d = (case map_of (files d) p of
      None \<Rightarrow> Inl NotFound
    | Some raw \<Rightarrow> (case dec_sst E raw of None \<Rightarrow> Inl IoOther | Some es \<Rightarrow> Inr es))"

definition estimate_entry :: "string \<Rightarrow> nat" where
  "estimate_entry key = length key + 40"

section \<open>Opening\<close>

text \<open>The loop over \<open>read_dir\<close>: tables found so far and the next id.\<close>

fun discover :: "'b sm_env \<Rightarrow> 'b lsm_disk \<Rightarrow> (path \<times> 'b) list \<Rightarrow> sst_handle list \<Rightarrow> nat
    \<Rightarrow> io_error + (sst_handle list \<times> nat)" where
  "discover E d [] hs next = Inr (hs, next)"
| "discover E d ((p, _) # fs) hs next =
     (if ext p \<noteq> ''sst'' then discover E d fs hs next
      else case parse_sst_id p of
        None \<Rightarrow> discover E d fs hs next
      | Some i \<Rightarrow> (case load_sst_meta E p d of
          Inl e \<Rightarrow> Inl e
        | Inr m \<Rightarrow> discover E d fs (hs @ [\<lparr>h_path = p, h_meta = m\<rparr>]) (max next (i + 1))))"

text \<open>The replay loop over the lines of the write-ahead log.\<close>

fun replay_wal :: "'b sm_env \<Rightarrow> 'b list \<Rightarrow> (string \<times> mem_entry) list \<Rightarrow> nat
    \<Rightarrow> io_error + ((string \<times> mem_entry) list \<times> nat)" where
  "replay_wal E [] mem bytes = Inr (mem, bytes)"
| "replay_wal E (line # ls) mem bytes =
     (if blank_line E line then replay_wal E ls mem bytes
      else case dec_wal E line of
        Some (WalPut k v) \<Rightarrow>
          replay_wal E ls (bt_insert k \<lparr>me_value = Some v\<rparr> mem)
            (bytes - estimate_entry k + (estimate_entry k + length v))
      | Some (WalDelete k) \<Rightarrow>
          replay_wal E ls (bt_insert k \<lparr>me_value = None\<rparr> mem)
            (bytes - estimate_entry k + estimate_entry k)
      | None \<Rightarrow> Inl InvalidData)"

definition sm_open :: "'b sm_env \<Rightarrow> sm_config \<Rightarrow> 'b lsm_disk \<Rightarrow> ('b state_machine, 'b lsm_disk) io_res" where
  "sm_open E cfg d =
     try_then (io_op d) (\<lambda>_ d.
     try_then (io_op d) (\<lambda>_ d.
     try_then (io_op d) (\<lambda>_ d.
     case discover E d (files d) [] 0 of
       Inl e \<Rightarrow> (Inl e, d)
     | Inr (hs, next) \<Rightarrow>
         try_then (io_op d) (\<lambda>_ d.
         case replay_wal E (wal_lines d) [] 0 of
           Inl e \<Rightarrow> (Inl e, d)
         | Inr (mem, bytes) \<Rightarrow>
             (Inr \<lparr>config = cfg, memtable = mem, memtable_bytes = bytes, disk = d,
                   sstables = sort_key (\<lambda>h. meta_id (h_meta h)) hs,
                   next_sst_id = next, pending_txs = []\<rparr>, d)))))"

section \<open>Writing\<close>

definition memtable_len :: "'b state_machine \<Rightarrow> nat" where
  "memtable_len s = length (filter (\<lambda>e. me_value (snd e) \<noteq> None) (memtable s))"

definition sstable_count :: "'b state_machine \<Rightarrow> nat" where
  "sstable_count s = length (sstables s)"

text \<open>\<open>writeln!\<close> of the encoded operation, then \<open>sync_all\<close>.\<close>

definition append_wal :: "'b sm_env \<Rightarrow> wal_op \<Rightarrow> 'b state_machine \<Rightarrow> (unit, 'b state_machine) io_res" where
  "append_wal E op s =
     try_then (on_disk io_op s) (\<lambda>_ s.
       on_disk io_op (s\<lparr>disk := (disk s)\<lparr>wal_lines := wal_lines (disk s) @ [enc_wal E op]\<rparr>\<rparr>))"

text \<open>\<open>set_len(0)\<close>, \<open>seek\<close>, \<open>sync_all\<close>.\<close>

definition truncate_wal :: "'b state_machine \<Rightarrow> (unit, 'b state_machine) io_res" where
  "truncate_wal s =
     try_then (on_disk io_op s) (\<lambda>_ s.
     try_then (on_disk io_op (s\<lparr>disk := (disk s)\<lparr>wal_lines := []\<rparr>\<rparr>)) (\<lambda>_ s.
       on_disk io_op s))"

definition entries_of_memtable :: "(string \<times> mem_entry) list \<Rightarrow> sst_entry list" where
  "entries_of_memtable mem =
     map (\<lambda>(k, v). \<lparr>se_key = k, se_value = me_value v, se_tombstone = (me_value v = None)\<rparr>) mem"

definition sm_flush :: "'b sm_env \<Rightarrow> 'b state_machine \<Rightarrow> (unit, 'b state_machine) io_res" where
  "sm_flush E s =
     (if memtable s = [] then (Inr (), s)
      else
        let entries = entries_of_memtable (memtable s);
            i = next_sst_id s;
            s = s\<lparr>next_sst_id := i + 1\<rparr>;
            p = sst_path i;
            meta = \<lparr>meta_id = i, first_key = se_key (hd entries), last_key = se_key (last entries),
                    entry_count = length entries, created_at = now_unix E\<rparr>
        in try_then (on_disk (write_json p (enc_sst E entries)) s) (\<lambda>_ s.
           try_then (on_disk (write_json (meta_path p) (enc_meta E meta)) s) (\<lambda>_ s.
             truncate_wal (s\<lparr>sstables := sstables s @ [\<lparr>h_path = p, h_meta = meta\<rparr>],
                             memtable := [], memtable_bytes := 0\<rparr>))))"

definition sm_set :: "'b sm_env \<Rightarrow> string \<Rightarrow> string \<Rightarrow> 'b state_machine \<Rightarrow> (unit, 'b state_machine) io_res" where
  "sm_set E key value s =
     try_then (append_wal E (WalPut key value) s) (\<lambda>_ s.
       let bytes = (case map_of (memtable s) key of
              Some prev \<Rightarrow> memtable_bytes s - (case me_value prev of Some v \<Rightarrow> length v | None \<Rightarrow> 0)
            | None \<Rightarrow> memtable_bytes s + estimate_entry key) + length value;
           s = s\<lparr>memtable := bt_insert key \<lparr>me_value = Some value\<rparr> (memtable s),
                 memtable_bytes := bytes\<rparr>
       in if memtable_size_threshold (config s) \<le> memtable_bytes s then sm_flush E s
          else (Inr (), s))"

definition sm_delete :: "'b sm_env \<Rightarrow> string \<Rightarrow> 'b state_machine \<Rightarrow> (unit, 'b state_machine) io_res" where
  "sm_delete E key s =
     try_then (append_wal E (WalDelete key) s) (\<lambda>_ s.
       let bytes = (case map_of (memtable s) key of
              Some prev \<Rightarrow> memtable_bytes s - (case me_value prev of Some v \<Rightarrow> length v | None \<Rightarrow> 0)
            | None \<Rightarrow> memtable_bytes s + estimate_entry key);
           s = s\<lparr>memtable := bt_insert key \<lparr>me_value = None\<rparr> (memtable s),
                 memtable_bytes := bytes\<rparr>
       in if memtable_size_threshold (config s) \<le> memtable_bytes s then sm_flush E s
          else (Inr (), s))"

section \<open>Reading\<close>

text \<open>
  The loop over the entries of one table: \<open>Some r\<close> when the source returns \<open>r\<close>, \<open>None\<close>
  when the loop runs to its end.
\<close>

fun scan_sst :: "sst_entry list \<Rightarrow> string \<Rightarrow> string option option" where
  "scan_sst [] key = None"
| "scan_sst (e # es) key =
     (if se_key e = key then Some (if se_tombstone e then None else se_value e)
      else if key < se_key e then Some None
      else scan_sst es key)"

fun get_tables :: "'b sm_env \<Rightarrow> 'b lsm_disk \<Rightarrow> sst_handle list \<Rightarrow> string \<Rightarrow> string option" where
  "get_tables E d [] key = None"
| "get_tables E d (h # hs) key =
     (if key < first_key (h_meta h) \<or> last_key (h_meta h) < key then get_tables E d hs key
      else case load_sst_entries E (h_path h) d of
        Inl _ \<Rightarrow> get_tables E d hs key
      | Inr entries \<Rightarrow> (case scan_sst entries key of
          Some r \<Rightarrow> r
        | None \<Rightarrow> get_tables E d hs key))"

definition sm_get :: "'b sm_env \<Rightarrow> 'b state_machine \<Rightarrow> string \<Rightarrow> string option" where
  "sm_get E s key = (case map_of (memtable s) key of
      Some entry \<Rightarrow> me_value entry
    | None \<Rightarrow> get_tables E (disk s) (rev (sstables s)) key)"

fun overlay_entries :: "sst_entry list \<Rightarrow> (string \<times> string) list \<Rightarrow> (string \<times> string) list" where
  "overlay_entries [] result = result"
| "overlay_entries (e # es) result =
     overlay_entries es
       (if se_tombstone e then hm_remove (se_key e) result
        else case se_value e of Some v \<Rightarrow> hm_insert (se_key e) v result | None \<Rightarrow> result)"

fun overlay_tables :: "'b sm_env \<Rightarrow> 'b lsm_disk \<Rightarrow> sst_handle list \<Rightarrow> (string \<times> string) list
    \<Rightarrow> io_error + (string \<times> string) list" where
  "overlay_tables E d [] result = Inr result"
| "overlay_tables E d (h # hs) result = (case load_sst_entries E (h_path h) d of
      Inl e \<Rightarrow> Inl e
    | Inr entries \<Rightarrow> overlay_tables E d hs (overlay_entries entries result))"

fun overlay_memtable :: "(string \<times> mem_entry) list \<Rightarrow> (string \<times> string) list \<Rightarrow> (string \<times> string) list" where
  "overlay_memtable [] result = result"
| "overlay_memtable ((k, e) # mem) result =
     overlay_memtable mem (case me_value e of Some v \<Rightarrow> hm_insert k v result | None \<Rightarrow> hm_remove k result)"

definition snapshot_data :: "'b sm_env \<Rightarrow> 'b state_machine \<Rightarrow> io_error + (string \<times> string) list" where
  "snapshot_data E s = (case overlay_tables E (disk s) (sstables s) [] of
      Inl e \<Rightarrow> Inl e
    | Inr result \<Rightarrow> Inr (overlay_memtable (memtable s) result))"

section \<open>Snapshots\<close>

definition remove_table :: "sst_handle \<Rightarrow> 'b lsm_disk \<Rightarrow> 'b lsm_disk" where
  "remove_table h d = remove_file (meta_path (h_path h)) (remove_file (h_path h) d)"

definition clear_for_snapshot :: "'b state_machine \<Rightarrow> (unit, 'b state_machine) io_res" where
  "clear_for_snapshot s =
     try_then (truncate_wal (s\<lparr>memtable := [], memtable_bytes := 0\<rparr>)) (\<lambda>_ s.
       (Inr (), s\<lparr>disk := fold remove_table (sstables s) (disk s), sstables := [],
                 next_sst_id := 0, pending_txs := []\<rparr>))"

fun load_memtable :: "(string \<times> string) list \<Rightarrow> 'b state_machine \<Rightarrow> 'b state_machine" where
  "load_memtable [] s = s"
| "load_memtable ((k, v) # kvs) s =
     load_memtable kvs
       (s\<lparr>memtable_bytes := memtable_bytes s + estimate_entry k + length v,
          memtable := bt_insert k \<lparr>me_value = Some v\<rparr> (memtable s)\<rparr>)"

definition install_snapshot :: "(string \<times> string) list \<Rightarrow> 'b state_machine \<Rightarrow> (unit, 'b state_machine) io_res" where
  "install_snapshot data s =
     try_then (clear_for_snapshot s) (\<lambda>_ s.
       (Inr (), load_memtable data (s\<lparr>memtable_bytes := 0\<rparr>)))"

section \<open>Two-phase commit\<close>

definition begin_tx_at :: "string \<Rightarrow> tx_op list \<Rightarrow> nat \<Rightarrow> 'b state_machine \<Rightarrow> (unit, 'b state_machine) io_res" where
  "begin_tx_at tx_id ops begin_unix_ms s =
     (Inr (), s\<lparr>pending_txs := bt_insert tx_id
        \<lparr>ptx_ops = ops, ptx_votes = [], ptx_decision = None, ptx_begin_unix_ms = begin_unix_ms\<rparr>
        (pending_txs s)\<rparr>)"

definition begin_tx :: "'b sm_env \<Rightarrow> string \<Rightarrow> tx_op list \<Rightarrow> 'b state_machine \<Rightarrow> (unit, 'b state_machine) io_res" where
  "begin_tx E tx_id ops s = begin_tx_at tx_id ops (now_unix_ms E) s"

definition record_vote :: "string \<Rightarrow> string \<Rightarrow> vote \<Rightarrow> 'b state_machine \<Rightarrow> (unit, 'b state_machine) io_res" where
  "record_vote tx_id voter v s = (case map_of (pending_txs s) tx_id of
      None \<Rightarrow> (Inr (), s)
    | Some tx \<Rightarrow> (Inr (), s\<lparr>pending_txs :=
        bt_insert tx_id (tx\<lparr>ptx_votes := bt_insert voter v (ptx_votes tx)\<rparr>) (pending_txs s)\<rparr>))"

fun apply_tx_op :: "'b sm_env \<Rightarrow> tx_op \<Rightarrow> 'b state_machine \<Rightarrow> 'b state_machine" where
  "apply_tx_op E (TxPut k v) s = snd (sm_set E k v s)"
| "apply_tx_op E (TxDelete k) s = snd (sm_delete E k s)"

definition decide_tx :: "'b sm_env \<Rightarrow> string \<Rightarrow> tx_decision \<Rightarrow> 'b state_machine \<Rightarrow> (unit, 'b state_machine) io_res" where
  "decide_tx E tx_id decision s = (case map_of (pending_txs s) tx_id of
      None \<Rightarrow> (Inr (), s)
    | Some tx \<Rightarrow>
        let s = s\<lparr>pending_txs := bt_remove tx_id (pending_txs s)\<rparr>
        in (Inr (), if decision = Commit then fold (apply_tx_op E) (ptx_ops tx) s else s))"

definition pending_tx_count :: "'b state_machine \<Rightarrow> nat" where
  "pending_tx_count s = length (pending_txs s)"

definition pending_txs_older_than :: "'b sm_env \<Rightarrow> nat \<Rightarrow> 'b state_machine \<Rightarrow> string list" where
  "pending_txs_older_than E threshold_ms s =
     map fst (filter (\<lambda>e. threshold_ms < now_unix_ms E - ptx_begin_unix_ms (snd e)) (pending_txs s))"

definition is_tx_pending :: "string \<Rightarrow> 'b state_machine \<Rightarrow> bool" where
  "is_tx_pending tx_id s \<longleftrightarrow> map_of (pending_txs s) tx_id \<noteq> None"

definition pending_tx_view_of :: "string \<Rightarrow> 'b state_machine \<Rightarrow> pending_tx_view option" where
  "pending_tx_view_of tx_id s = map_option (\<lambda>tx.
     \<lparr>view_op_count = length (ptx_ops tx),
      view_yes_votes = length (filter (\<lambda>e. snd e = Yes) (ptx_votes tx)),
      view_no_votes = length (filter (\<lambda>e. snd e \<noteq> Yes) (ptx_votes tx))\<rparr>)
     (map_of (pending_txs s) tx_id)"

section \<open>Compaction\<close>

fun merge_tables :: "'b sm_env \<Rightarrow> 'b lsm_disk \<Rightarrow> sst_handle list \<Rightarrow> (string \<times> sst_entry) list
    \<Rightarrow> io_error + (string \<times> sst_entry) list" where
  "merge_tables E d [] merged = Inr merged"
| "merge_tables E d (h # hs) merged = (case load_sst_entries E (h_path h) d of
      Inl e \<Rightarrow> Inl e
    | Inr entries \<Rightarrow> merge_tables E d hs (fold (\<lambda>e. bt_insert (se_key e) e) entries merged))"

definition sm_compact :: "'b sm_env \<Rightarrow> 'b state_machine \<Rightarrow> (unit, 'b state_machine) io_res" where
  "sm_compact E s =
     (if length (sstables s) < 2 then (Inr (), s)
      else case merge_tables E (disk s) (sstables s) [] of
        Inl e \<Rightarrow> (Inl e, s)
      | Inr merged \<Rightarrow>
          let entries = map snd (filter (\<lambda>e. \<not> se_tombstone (snd e)) merged);
              i = next_sst_id s;
              s = s\<lparr>next_sst_id := i + 1\<rparr>;
              p = sst_path i;
              meta = \<lparr>meta_id = i,
                      first_key = (if entries = [] then [] else se_key (hd entries)),
                      last_key = (if entries = [] then [] else se_key (last entries)),
                      entry_count = length entries, created_at = now_unix E\<rparr>
          in try_then (on_disk (write_json p (enc_sst E entries)) s) (\<lambda>_ s.
             try_then (on_disk (write_json (meta_path p) (enc_meta E meta)) s) (\<lambda>_ s.
               (Inr (), s\<lparr>sstables := [\<lparr>h_path = p, h_meta = meta\<rparr>],
                         disk := fold remove_table (sstables s) (disk s)\<rparr>))))"

end
