(* ===== verification/StateMachine_Props.thy ===== *)
theory StateMachine_Props
  imports StateMachine
begin

text \<open>
  Properties of the LSM state machine. The abstract value of a state machine is the map from
  keys to values obtained by laying the tables over each other, oldest first, and the memtable
  on top (\<open>sm_view\<close>). Writes, flush, compaction, snapshot and restart are shown to implement
  the operations of that map; the lookup \<open>sm_get\<close> is characterised exactly, which exposes
  the one case in which it does not agree with the map.
\<close>

section \<open>File names\<close>

lemma is_digit_digit: "d < 10 \<Longrightarrow> is_digit (digit d)"
  by (simp add: is_digit_def digit_def)

lemma digit_value: "d < 10 \<Longrightarrow> of_char (digit d) - (48::nat) = d"
  by (simp add: digit_def)

lemma digits_value_snoc: "digits_value (xs @ [c]) = 10 * digits_value xs + (of_char c - 48)"
  by (simp add: digits_value_def)

lemma show_nat_value: "digits_value (show_nat n) = n"
proof (induction n rule: show_nat.induct)
  case (1 n)
  show ?case
  proof (cases "n < 10")
    case True
    then show ?thesis by (subst show_nat.simps) (simp add: digits_value_def digit_value)
  next
    case False
    with 1 show ?thesis by (subst show_nat.simps) (simp add: digits_value_snoc digit_value)
  qed
qed

lemma show_nat_digits: "list_all is_digit (show_nat n) \<and> show_nat n \<noteq> []"
proof (induction n rule: show_nat.induct)
  case (1 n)
  show ?case
  proof (cases "n < 10")
    case True
    then show ?thesis by (subst (1 2) show_nat.simps) (simp add: is_digit_digit)
  next
    case False
    with 1 show ?thesis by (subst (1 2) show_nat.simps) (simp add: is_digit_digit)
  qed
qed

lemma digits_value_zeros: "digits_value (replicate k (CHR ''0'') @ s) = digits_value s"
  by (induction k) (simp_all add: digits_value_def)

lemma fmt06_value: "digits_value (fmt06 n) = n"
  by (simp add: fmt06_def digits_value_zeros show_nat_value)

lemma fmt06_digits: "list_all is_digit (fmt06 n) \<and> fmt06 n \<noteq> []"
  using show_nat_digits [of n] by (auto simp: fmt06_def list_all_iff is_digit_def)

lemma fmt06_no_plus: "fmt06 n = c # cs \<Longrightarrow> c \<noteq> CHR ''+''"
  using fmt06_digits [of n] by (auto simp: is_digit_def)

lemma sst_path_inj [simp]: "sst_path i = sst_path j \<longleftrightarrow> i = j"
  by (metis fmt06_value path.inject sst_path_def)

lemma sst_path_meta [simp]: "sst_path i \<noteq> meta_path p" "meta_path p \<noteq> sst_path i"
  by (simp_all add: sst_path_def meta_path_def)

lemma meta_path_inj [simp]: "meta_path (sst_path i) = meta_path (sst_path j) \<longleftrightarrow> i = j"
  by (metis fmt06_value path.inject path.sel(1) sst_path_def meta_path_def)

lemma ext_paths [simp]: "ext (sst_path i) = ''sst''" "ext (meta_path p) = ''meta''"
  by (simp_all add: sst_path_def meta_path_def)

lemma parse_sst_path: "i < 2 ^ 64 \<Longrightarrow> parse_sst_id (sst_path i) = Some i"
  using fmt06_digits [of i] fmt06_no_plus [of i] fmt06_value [of i]
  by (auto simp: parse_sst_id_def sst_path_def parse_u64_def Let_def split: list.splits)

text \<open>The file name that \<open>flush\<close> and \<open>compact\<close> give a table is parsed back to the same id
  by the discovery loop of \<open>open\<close>, for every id that fits in a \<open>u64\<close>.\<close>

theorem sst_name_roundtrip:
  assumes "i < 2 ^ 64"
  shows "parse_sst_id (sst_path i) = Some i"
  using assms by (rule parse_sst_path)

theorem sst_name_roundtrip_witness: "parse_sst_id (sst_path 1234567) = Some 1234567"
  by (rule sst_name_roundtrip) simp

section \<open>Fault-free system calls\<close>

definition sm_env_ok :: "'b sm_env \<Rightarrow> bool" where
  "sm_env_ok E \<longleftrightarrow>
     (\<forall>op. dec_wal E (enc_wal E op) = Some op \<and> \<not> blank_line E (enc_wal E op)) \<and>
     (\<forall>es. dec_sst E (enc_sst E es) = Some es) \<and>
     (\<forall>m. dec_meta E (enc_meta E m) = Some m)"

lemma sm_env_okD [simp]:
  assumes "sm_env_ok E"
  shows "dec_wal E (enc_wal E op) = Some op" "\<not> blank_line E (enc_wal E op)"
    "dec_sst E (enc_sst E es) = Some es" "dec_meta E (enc_meta E m) = Some m"
  using assms by (simp_all add: sm_env_ok_def)

definition no_faults :: "'b state_machine \<Rightarrow> bool" where
  "no_faults s \<longleftrightarrow> True \<notin> set (faults (disk s))"

lemma set_tl_faults: "True \<notin> set xs \<Longrightarrow> True \<notin> set (tl xs)"
  by (cases xs) auto

lemma io_op_ok: "True \<notin> set (faults d) \<Longrightarrow> io_op d = (Inr (), d\<lparr>faults := tl (faults d)\<rparr>)"
  by (cases "faults d") (auto simp: io_op_def)

lemma on_disk_io_ok:
  "True \<notin> set (faults (disk s)) \<Longrightarrow>
   on_disk io_op s = (Inr (), s\<lparr>disk := (disk s)\<lparr>faults := tl (faults (disk s))\<rparr>\<rparr>)"
  by (simp add: on_disk_def io_op_ok)

lemmas fault_free = io_op_ok on_disk_io_ok set_tl_faults

lemma write_json_ok:
  "True \<notin> set (faults d) \<Longrightarrow>
   write_json p c d = (Inr (), d\<lparr>faults := tl (tl (faults d)), files := hm_insert p c (files d)\<rparr>)"
  by (simp add: write_json_def fault_free)

lemma append_wal_ok:
  assumes "no_faults s"
  obtains fl where "True \<notin> set fl"
    and "append_wal E op s =
      (Inr (), s\<lparr>disk := (disk s)\<lparr>wal_lines := wal_lines (disk s) @ [enc_wal E op], faults := fl\<rparr>\<rparr>)"
  using assms that [of "tl (tl (faults (disk s)))"]
  by (simp add: append_wal_def no_faults_def fault_free)

lemma truncate_wal_ok:
  assumes "no_faults s"
  obtains fl where "True \<notin> set fl"
    and "truncate_wal s = (Inr (), s\<lparr>disk := (disk s)\<lparr>wal_lines := [], faults := fl\<rparr>\<rparr>)"
  using assms that [of "tl (tl (tl (faults (disk s))))"]
  by (simp add: truncate_wal_def no_faults_def fault_free)

lemma remove_file_ok:
  assumes "True \<notin> set (faults d)"
  shows "\<exists>fl. True \<notin> set fl \<and> remove_file p d = d\<lparr>files := hm_remove p (files d), faults := fl\<rparr>"
  using assms by (auto simp: remove_file_def fault_free intro!: exI [of _ "tl (faults d)"])

lemma remove_table_ok:
  assumes "True \<notin> set (faults d)"
  shows "\<exists>fl. True \<notin> set fl \<and> remove_table h d =
    d\<lparr>files := hm_remove (meta_path (h_path h)) (hm_remove (h_path h) (files d)), faults := fl\<rparr>"
proof -
  from remove_file_ok [OF assms, of "h_path h"] obtain fl where
    1: "True \<notin> set fl" "remove_file (h_path h) d = d\<lparr>files := hm_remove (h_path h) (files d), faults := fl\<rparr>"
    by blast
  from 1 remove_file_ok [of "remove_file (h_path h) d" "meta_path (h_path h)"]
  show ?thesis by (auto simp: remove_table_def)
qed

definition removed_files :: "sst_handle list \<Rightarrow> (path \<times> 'b) list \<Rightarrow> (path \<times> 'b) list" where
  "removed_files hs fs = fold (\<lambda>h fs. hm_remove (meta_path (h_path h)) (hm_remove (h_path h) fs)) hs fs"

lemma remove_tables_ok:
  assumes "True \<notin> set (faults d)"
  shows "\<exists>fl. True \<notin> set fl \<and> fold remove_table hs d = d\<lparr>files := removed_files hs (files d), faults := fl\<rparr>"
  using assms
proof (induction hs arbitrary: d)
  case Nil
  then show ?case by (auto simp: removed_files_def intro!: exI [of _ "faults d"])
next
  case (Cons h hs)
  from remove_table_ok [OF Cons.prems, of h] obtain fl where
    1: "True \<notin> set fl" "remove_table h d =
      d\<lparr>files := hm_remove (meta_path (h_path h)) (hm_remove (h_path h) (files d)), faults := fl\<rparr>"
    by blast
  from Cons.IH [of "remove_table h d"] 1 show ?case by (auto simp: removed_files_def)
qed

lemma map_of_removed_files:
  "map_of (removed_files hs fs) p =
     (if p \<in> h_path ` set hs \<or> p \<in> (meta_path \<circ> h_path) ` set hs then None else map_of fs p)"
  by (induction hs arbitrary: fs) (auto simp: removed_files_def)

section \<open>The abstract view\<close>

definition flat :: "(string \<rightharpoonup> string option) \<Rightarrow> (string \<rightharpoonup> string)" where
  "flat m k = (case m k of None \<Rightarrow> None | Some v \<Rightarrow> v)"

definition sst_map :: "sst_entry list \<Rightarrow> (string \<rightharpoonup> string option)" where
  "sst_map es = map_of (map (\<lambda>e. (se_key e, if se_tombstone e then None else se_value e)) es)"

definition mem_map :: "(string \<times> mem_entry) list \<Rightarrow> (string \<rightharpoonup> string option)" where
  "mem_map mem k = map_option me_value (map_of mem k)"

definition table_of :: "'b sm_env \<Rightarrow> 'b lsm_disk \<Rightarrow> sst_handle \<Rightarrow> sst_entry list" where
  "table_of E d h = (case load_sst_entries E (h_path h) d of Inl _ \<Rightarrow> [] | Inr es \<Rightarrow> es)"

fun tables_map :: "'b sm_env \<Rightarrow> 'b lsm_disk \<Rightarrow> sst_handle list \<Rightarrow> (string \<rightharpoonup> string option)" where
  "tables_map E d [] = Map.empty"
| "tables_map E d (h # hs) = sst_map (table_of E d h) ++ tables_map E d hs"

definition sm_view :: "'b sm_env \<Rightarrow> 'b state_machine \<Rightarrow> (string \<rightharpoonup> string)" where
  "sm_view E s = flat (tables_map E (disk s) (sstables s) ++ mem_map (memtable s))"

text \<open>A table is sorted, its tombstones are the entries without value and its metadata agree.\<close>

definition table_ok :: "'b sm_env \<Rightarrow> 'b lsm_disk \<Rightarrow> sst_handle \<Rightarrow> bool" where
  "table_ok E d h \<longleftrightarrow>
     (let es = table_of E d h; m = h_meta h in
      load_sst_entries E (h_path h) d = Inr es \<and>
      load_sst_meta E (h_path h) d = Inr m \<and>
      h_path h = sst_path (meta_id m) \<and>
      sorted_wrt (<) (map se_key es) \<and>
      (\<forall>e \<in> set es. se_tombstone e = (se_value e = None)) \<and>
      first_key m = (if es = [] then [] else se_key (hd es)) \<and>
      last_key m = (if es = [] then [] else se_key (last es)))"

definition sm_inv :: "'b sm_env \<Rightarrow> 'b state_machine \<Rightarrow> bool" where
  "sm_inv E s \<longleftrightarrow>
     bt_wf (memtable s) \<and> bt_wf (pending_txs s) \<and>
     (\<forall>h \<in> set (sstables s). table_ok E (disk s) h \<and> meta_id (h_meta h) < next_sst_id s) \<and>
     sorted_wrt (<) (map (\<lambda>h. meta_id (h_meta h)) (sstables s))"

lemma table_of_cong:
  "map_of (files d') (h_path h) = map_of (files d) (h_path h) \<Longrightarrow> table_of E d' h = table_of E d h"
  by (simp only: table_of_def load_sst_entries_def)

lemma table_ok_cong:
  assumes "map_of (files d') (h_path h) = map_of (files d) (h_path h)"
    and "map_of (files d') (meta_path (h_path h)) = map_of (files d) (meta_path (h_path h))"
  shows "table_ok E d' h = table_ok E d h"
proof -
  have "load_sst_entries E (h_path h) d' = load_sst_entries E (h_path h) d"
    and "load_sst_meta E (h_path h) d' = load_sst_meta E (h_path h) d"
    and "table_of E d' h = table_of E d h"
    using assms by (simp_all only: load_sst_entries_def load_sst_meta_def table_of_def)
  then show ?thesis by (simp only: table_ok_def)
qed

lemma tables_map_cong:
  "(\<And>h. h \<in> set hs \<Longrightarrow> map_of (files d') (h_path h) = map_of (files d) (h_path h)) \<Longrightarrow>
   tables_map E d' hs = tables_map E d hs"
  by (induction hs) (simp_all add: table_of_cong [of d' _ d])

lemma tables_map_append: "tables_map E d (hs @ hs') = tables_map E d hs ++ tables_map E d hs'"
  by (induction hs) simp_all

lemma flat_add: "flat (m ++ n) k = (case n k of None \<Rightarrow> flat m k | Some v \<Rightarrow> v)"
  by (simp add: flat_def map_add_def split: option.splits)

lemma flat_upd: "flat (m(k \<mapsto> v)) = (flat m)(k := v)"
  by (auto simp: flat_def fun_eq_iff)

lemma mem_map_insert [simp]:
  "bt_wf mem \<Longrightarrow> mem_map (bt_insert k \<lparr>me_value = v\<rparr> mem) = (mem_map mem)(k \<mapsto> v)"
  by (auto simp: mem_map_def fun_eq_iff)

lemma sst_map_memtable: "sst_map (entries_of_memtable mem) = mem_map mem"
  unfolding sst_map_def entries_of_memtable_def mem_map_def
  by (rule ext, induction mem) auto

section \<open>Flush\<close>

definition flush_handle :: "'b sm_env \<Rightarrow> 'b state_machine \<Rightarrow> sst_handle" where
  "flush_handle E s =
     (let entries = entries_of_memtable (memtable s) in
      \<lparr>h_path = sst_path (next_sst_id s),
       h_meta = \<lparr>meta_id = next_sst_id s, first_key = se_key (hd entries),
                 last_key = se_key (last entries), entry_count = length entries,
                 created_at = now_unix E\<rparr>\<rparr>)"

definition flushed :: "'b sm_env \<Rightarrow> 'b state_machine \<Rightarrow> bool list \<Rightarrow> 'b state_machine" where
  "flushed E s fl =
     (let h = flush_handle E s in
      s\<lparr>next_sst_id := next_sst_id s + 1, sstables := sstables s @ [h], memtable := [],
        memtable_bytes := 0,
        disk := (disk s)\<lparr>
          files := hm_insert (meta_path (h_path h)) (enc_meta E (h_meta h))
            (hm_insert (h_path h) (enc_sst E (entries_of_memtable (memtable s))) (files (disk s))),
          wal_lines := [], faults := fl\<rparr>\<rparr>)"

lemma sm_flush_ok:
  assumes "no_faults s" and "memtable s \<noteq> []"
  obtains fl where "True \<notin> set fl" and "sm_flush E s = (Inr (), flushed E s fl)"
proof -
  let ?fl = "(tl ^^ 7) (faults (disk s))"
  have "True \<notin> set ?fl"
    using assms(1) by (simp add: no_faults_def set_tl_faults numeral_eq_Suc)
  moreover have "sm_flush E s = (Inr (), flushed E s ?fl)"
    using assms
    by (simp add: sm_flush_def on_disk_def write_json_ok truncate_wal_def no_faults_def fault_free
        flushed_def flush_handle_def Let_def numeral_eq_Suc)
  ultimately show ?thesis by (rule that)
qed

text \<open>Files of other tables are untouched when a table with a fresh id is written.\<close>

lemma fresh_table_files:
  assumes "\<forall>h \<in> set hs. h_path h = sst_path (meta_id (h_meta h)) \<and> meta_id (h_meta h) < i" and "h \<in> set hs"
  shows "map_of (hm_insert (meta_path (sst_path i)) a (hm_insert (sst_path i) b fs)) (h_path h) = map_of fs (h_path h)"
    and "map_of (hm_insert (meta_path (sst_path i)) a (hm_insert (sst_path i) b fs)) (meta_path (h_path h))
       = map_of fs (meta_path (h_path h))"
  using assms by (auto simp: nat_neq_iff dest!: bspec)

lemma sm_inv_paths:
  "sm_inv E s \<Longrightarrow>
   \<forall>h \<in> set (sstables s). h_path h = sst_path (meta_id (h_meta h)) \<and> meta_id (h_meta h) < next_sst_id s"
  by (auto simp: sm_inv_def table_ok_def Let_def)

lemma entries_of_memtable_sorted: "bt_wf mem \<Longrightarrow> sorted_wrt (<) (map se_key (entries_of_memtable mem))"
  by (simp add: entries_of_memtable_def bt_wf_def o_def split_def)

lemma entries_of_memtable_tombstones:
  "e \<in> set (entries_of_memtable mem) \<Longrightarrow> se_tombstone e = (se_value e = None)"
  by (auto simp: entries_of_memtable_def)

lemma entries_of_memtable_Nil [simp]: "entries_of_memtable mem = [] \<longleftrightarrow> mem = []"
  by (simp add: entries_of_memtable_def)

lemma flushed_files:
  assumes "sm_inv E s" and "h \<in> set (sstables s)"
  shows "map_of (files (disk (flushed E s fl))) (h_path h) = map_of (files (disk s)) (h_path h)"
    and "map_of (files (disk (flushed E s fl))) (meta_path (h_path h)) = map_of (files (disk s)) (meta_path (h_path h))"
proof -
  obtain a b where "files (disk (flushed E s fl)) =
      hm_insert (meta_path (sst_path (next_sst_id s))) a (hm_insert (sst_path (next_sst_id s)) b (files (disk s)))"
    by (auto simp: flushed_def flush_handle_def Let_def)
  then show "map_of (files (disk (flushed E s fl))) (h_path h) = map_of (files (disk s)) (h_path h)"
    and "map_of (files (disk (flushed E s fl))) (meta_path (h_path h)) = map_of (files (disk s)) (meta_path (h_path h))"
    by (simp_all only: fresh_table_files [OF sm_inv_paths [OF assms(1)] assms(2)])
qed

lemma flushed_tables:
  assumes "sm_env_ok E" and "sm_inv E s" and "h \<in> set (sstables s)"
  shows "table_ok E (disk (flushed E s fl)) h" and "table_of E (disk (flushed E s fl)) h = table_of E (disk s) h"
proof -
  note same = flushed_files [OF assms(2,3), of fl]
  have "table_ok E (disk s) h" using assms(2,3) by (simp add: sm_inv_def)
  then show "table_ok E (disk (flushed E s fl)) h" by (simp only: table_ok_cong [OF same])
  show "table_of E (disk (flushed E s fl)) h = table_of E (disk s) h" by (rule table_of_cong [OF same(1)])
qed

lemma flushed_new_table:
  assumes "sm_env_ok E" and "sm_inv E s" and "memtable s \<noteq> []"
  shows "table_of E (disk (flushed E s fl)) (flush_handle E s) = entries_of_memtable (memtable s)"
    and "table_ok E (disk (flushed E s fl)) (flush_handle E s)"
proof -
  show 1: "table_of E (disk (flushed E s fl)) (flush_handle E s) = entries_of_memtable (memtable s)"
    using assms(1) by (simp add: table_of_def load_sst_entries_def flushed_def flush_handle_def Let_def)
  have "bt_wf (memtable s)" using assms(2) by (simp add: sm_inv_def)
  with 1 assms show "table_ok E (disk (flushed E s fl)) (flush_handle E s)"
    by (simp add: table_ok_def Let_def load_sst_entries_def load_sst_meta_def flushed_def flush_handle_def
        entries_of_memtable_sorted entries_of_memtable_tombstones)
qed

lemma flushed_inv [inv_intros]:
  assumes "sm_env_ok E" and "sm_inv E s" and "memtable s \<noteq> []"
  shows "sm_inv E (flushed E s fl)"
proof -
  have "\<forall>h \<in> set (sstables s @ [flush_handle E s]).
      table_ok E (disk (flushed E s fl)) h \<and> meta_id (h_meta h) < next_sst_id s + 1"
    using flushed_tables(1) [OF assms(1,2)] flushed_new_table(2) [OF assms] sm_inv_paths [OF assms(2)]
    by (auto simp: flush_handle_def Let_def less_Suc_eq)
  moreover have "sorted_wrt (<) (map (\<lambda>h. meta_id (h_meta h)) (sstables s @ [flush_handle E s]))"
    using assms(2) sm_inv_paths [OF assms(2)]
    by (auto simp: sm_inv_def sorted_wrt_append flush_handle_def Let_def)
  ultimately show ?thesis
    using assms(2) by (simp add: sm_inv_def flushed_def Let_def)
qed

lemma flushed_view [view_simps]:
  assumes "sm_env_ok E" and "sm_inv E s" and "memtable s \<noteq> []"
  shows "sm_view E (flushed E s fl) = sm_view E s"
proof -
  have "tables_map E (disk (flushed E s fl)) (sstables s) = tables_map E (disk s) (sstables s)"
    by (intro tables_map_cong flushed_files(1) [OF assms(2)])
  moreover have "tables_map E (disk (flushed E s fl)) [flush_handle E s] = mem_map (memtable s)"
    using flushed_new_table(1) [OF assms] by (simp add: sst_map_memtable)
  moreover have "sstables (flushed E s fl) = sstables s @ [flush_handle E s]"
    and "memtable (flushed E s fl) = []" by (simp_all add: flushed_def Let_def)
  moreover have "mem_map [] = Map.empty" by (simp add: mem_map_def fun_eq_iff)
  ultimately show ?thesis
    by (simp only: sm_view_def tables_map_append map_add_empty)
qed

section \<open>What is on disk\<close>

text \<open>
  The write-ahead log replays to the memtable, and the directory holds no table that the
  state machine does not know: what a restart relies on.
\<close>

definition wal_synced :: "'b sm_env \<Rightarrow> 'b state_machine \<Rightarrow> bool" where
  "wal_synced E s = (case replay_wal E (wal_lines (disk s)) [] 0 of
      Inl _ \<Rightarrow> False | Inr (mem, b) \<Rightarrow> mem = memtable s)"

lemma wal_synced_iff:
  "wal_synced E s \<longleftrightarrow> (\<exists>b. replay_wal E (wal_lines (disk s)) [] 0 = Inr (memtable s, b))"
  by (auto simp: wal_synced_def split: sum.splits)

definition dir_synced :: "'b state_machine \<Rightarrow> bool" where
  "dir_synced s \<longleftrightarrow> distinct (map fst (files (disk s))) \<and>
     (\<forall>p \<in> fst ` set (files (disk s)). ext p = ''sst'' \<longrightarrow> p \<in> h_path ` set (sstables s))"

definition durable :: "'b sm_env \<Rightarrow> 'b state_machine \<Rightarrow> bool" where
  "durable E s \<longleftrightarrow> wal_synced E s \<and> dir_synced s"

lemma replay_wal_append:
  "replay_wal E (ls @ ls') mem b = (case replay_wal E ls mem b of
     Inl e \<Rightarrow> Inl e | Inr (mem', b') \<Rightarrow> replay_wal E ls' mem' b')"
  by (induction E ls mem b rule: replay_wal.induct) (auto split: option.splits wal_op.splits)

lemma keys_hm_insert: "fst ` set (hm_insert k v m) = insert k (fst ` set m)"
  by (auto simp: hm_insert_def)

lemma flushed_durable: "dir_synced s \<Longrightarrow> durable E (flushed E s fl)"
  by (simp add: durable_def wal_synced_iff dir_synced_def flushed_def flush_handle_def Let_def
      ball_simps keys_hm_insert image_Un)

section \<open>Set and delete\<close>

fun wal_key :: "wal_op \<Rightarrow> string" where
  "wal_key (WalPut k v) = k"
| "wal_key (WalDelete k) = k"

fun wal_val :: "wal_op \<Rightarrow> string option" where
  "wal_val (WalPut k v) = Some v"
| "wal_val (WalDelete k) = None"

fun sm_write :: "'b sm_env \<Rightarrow> wal_op \<Rightarrow> 'b state_machine \<Rightarrow> (unit, 'b state_machine) io_res" where
  "sm_write E (WalPut k v) s = sm_set E k v s"
| "sm_write E (WalDelete k) s = sm_delete E k s"

definition mem_written :: "'b sm_env \<Rightarrow> wal_op \<Rightarrow> nat \<Rightarrow> bool list \<Rightarrow> 'b state_machine \<Rightarrow> 'b state_machine" where
  "mem_written E op bytes fl s =
     s\<lparr>disk := (disk s)\<lparr>wal_lines := wal_lines (disk s) @ [enc_wal E op], faults := fl\<rparr>,
       memtable := bt_insert (wal_key op) \<lparr>me_value = wal_val op\<rparr> (memtable s),
       memtable_bytes := bytes\<rparr>"

text \<open>The size that \<open>set\<close> and \<open>delete\<close> record for the memtable they leave.\<close>

definition written_bytes :: "wal_op \<Rightarrow> 'b state_machine \<Rightarrow> nat" where
  "written_bytes op s =
     (case map_of (memtable s) (wal_key op) of
        Some prev \<Rightarrow> memtable_bytes s - (case me_value prev of Some v \<Rightarrow> length v | None \<Rightarrow> 0)
      | None \<Rightarrow> memtable_bytes s + estimate_entry (wal_key op))
     + (case wal_val op of Some v \<Rightarrow> length v | None \<Rightarrow> 0)"

lemma sm_write_ok:
  assumes "no_faults s"
  obtains fl where "True \<notin> set fl"
    and "sm_write E op s = (if memtable_size_threshold (config s) \<le> written_bytes op s
           then sm_flush E (mem_written E op (written_bytes op s) fl s)
           else (Inr (), mem_written E op (written_bytes op s) fl s))"
proof -
  from append_wal_ok [OF assms] obtain fl where fl: "True \<notin> set fl"
    and app: "append_wal E op s =
      (Inr (), s\<lparr>disk := (disk s)\<lparr>wal_lines := wal_lines (disk s) @ [enc_wal E op], faults := fl\<rparr>\<rparr>)"
    by blast
  show ?thesis
    by (rule that [OF fl], cases op)
      (use app in \<open>simp_all add: sm_set_def sm_delete_def mem_written_def written_bytes_def Let_def
          cong: option.case_cong\<close>)
qed

lemma mem_written_inv [inv_intros]: "sm_inv E s \<Longrightarrow> sm_inv E (mem_written E op bytes fl s)"
  by (auto simp: sm_inv_def mem_written_def table_ok_def table_of_def load_sst_entries_def
      load_sst_meta_def Let_def)

lemma mem_written_view [view_simps]:
  assumes "sm_inv E s"
  shows "sm_view E (mem_written E op bytes fl s) = (sm_view E s)(wal_key op := wal_val op)"
proof -
  have "bt_wf (memtable s)" using assms by (simp add: sm_inv_def)
  moreover have "tables_map E (disk (mem_written E op bytes fl s)) (sstables s) = tables_map E (disk s) (sstables s)"
    by (intro tables_map_cong) (simp add: mem_written_def)
  ultimately show ?thesis
    by (simp add: sm_view_def mem_written_def flat_upd)
qed

lemma mem_written_durable:
  "sm_env_ok E \<Longrightarrow> durable E s \<Longrightarrow> durable E (mem_written E op bytes fl s)"
  by (cases op) (auto simp: durable_def wal_synced_iff dir_synced_def mem_written_def replay_wal_append)

lemma sm_write_spec:
  assumes "sm_env_ok E" and "no_faults s" and "sm_inv E s"
  obtains s' where "sm_write E op s = (Inr (), s')" and "no_faults s'" and "sm_inv E s'"
    and "sm_view E s' = (sm_view E s)(wal_key op := wal_val op)"
    and "pending_txs s' = pending_txs s" and "config s' = config s"
    and "durable E s \<Longrightarrow> durable E s'"
proof -
  let ?b = "written_bytes op s"
  from sm_write_ok [OF assms(2)] obtain fl where fl: "True \<notin> set fl"
    and eq: "sm_write E op s = (if memtable_size_threshold (config s) \<le> ?b
           then sm_flush E (mem_written E op ?b fl s) else (Inr (), mem_written E op ?b fl s))"
    by blast
  let ?m = "mem_written E op ?b fl s"
  have m: "no_faults ?m" "memtable ?m \<noteq> []" "pending_txs ?m = pending_txs s" "config ?m = config s"
    using fl by (simp_all add: mem_written_def no_faults_def)
  note mi = mem_written_inv [OF assms(3)] mem_written_view [OF assms(3)]
  show ?thesis
  proof (cases "memtable_size_threshold (config s) \<le> ?b")
    case False
    show ?thesis
      by (rule that [of ?m]) (use eq False m mi mem_written_durable [OF assms(1)] in simp_all)
  next
    case True
    from sm_flush_ok [OF m(1,2)] obtain fl' where "True \<notin> set fl'"
      and fle: "sm_flush E ?m = (Inr (), flushed E ?m fl')" by blast
    show ?thesis
    proof (rule that [of "flushed E ?m fl'"])
      show "durable E (flushed E ?m fl')" if "durable E s"
      proof -
        have "durable E ?m" by (rule mem_written_durable [OF assms(1) that])
        then have "dir_synced ?m" by (simp only: durable_def)
        then show ?thesis by (rule flushed_durable)
      qed
    qed (use eq True fle m mi flushed_inv [OF assms(1) mi(1) m(2)] flushed_view [OF assms(1) mi(1) m(2)]
        \<open>True \<notin> set fl'\<close> in \<open>simp_all add: flushed_def no_faults_def Let_def\<close>)
  qed
qed

text \<open>\<open>set\<close> and \<open>delete\<close> succeed on a disk without faults, whether or not they trigger a
  flush: the abstract map is updated at the key and nowhere else, the invariant is kept, pending
  transactions are untouched, and what is on disk keeps describing the state.\<close>

theorem set_delete_update_view:
  assumes "sm_env_ok E" and "no_faults s" and "sm_inv E s"
  shows "(\<exists>s'. sm_set E k v s = (Inr (), s') \<and> no_faults s' \<and> sm_inv E s' \<and>
            sm_view E s' = (sm_view E s)(k \<mapsto> v) \<and> pending_txs s' = pending_txs s \<and>
            (durable E s \<longrightarrow> durable E s')) \<and>
         (\<exists>s'. sm_delete E k s = (Inr (), s') \<and> no_faults s' \<and> sm_inv E s' \<and>
            sm_view E s' = (sm_view E s)(k := None) \<and> pending_txs s' = pending_txs s \<and>
            (durable E s \<longrightarrow> durable E s'))"
proof
  from sm_write_spec [OF assms, of "WalPut k v"]
  show "\<exists>s'. sm_set E k v s = (Inr (), s') \<and> no_faults s' \<and> sm_inv E s' \<and>
      sm_view E s' = (sm_view E s)(k \<mapsto> v) \<and> pending_txs s' = pending_txs s \<and> (durable E s \<longrightarrow> durable E s')"
    by simp metis
  from sm_write_spec [OF assms, of "WalDelete k"]
  show "\<exists>s'. sm_delete E k s = (Inr (), s') \<and> no_faults s' \<and> sm_inv E s' \<and>
      sm_view E s' = (sm_view E s)(k := None) \<and> pending_txs s' = pending_txs s \<and> (durable E s \<longrightarrow> durable E s')"
    by simp metis
qed

section \<open>Compaction\<close>

definition entry_val :: "sst_entry \<Rightarrow> string option" where
  "entry_val e = (if se_tombstone e then None else se_value e)"

definition ent_map :: "(string \<times> sst_entry) list \<Rightarrow> (string \<rightharpoonup> string option)" where
  "ent_map m k = map_option entry_val (map_of m k)"

definition merged_ok :: "(string \<times> sst_entry) list \<Rightarrow> bool" where
  "merged_ok m \<longleftrightarrow> bt_wf m \<and> (\<forall>e \<in> set m. se_key (snd e) = fst e \<and> se_tombstone (snd e) = (se_value (snd e) = None))"

lemma sst_map_Cons: "sst_map (e # es) = (sst_map es)(se_key e \<mapsto> entry_val e)"
  by (simp add: sst_map_def entry_val_def)

lemma sst_map_fresh: "key \<notin> set (map se_key es) \<Longrightarrow> sst_map es key = None"
  by (auto simp: sst_map_def map_of_eq_None_iff image_image split: prod.splits)

text \<open>Entering the first entry of a sorted table, then the others, lays the table over the map.\<close>

lemma sst_map_step:
  assumes "sorted_wrt (<) (map se_key (e # es))"
  shows "m(se_key e \<mapsto> entry_val e) ++ sst_map es = m ++ sst_map (e # es)"
proof -
  have "sst_map es (se_key e) = None" using assms by (intro sst_map_fresh) auto
  then show ?thesis by (auto simp: sst_map_Cons fun_eq_iff map_add_def split: option.splits)
qed

lemma ent_map_insert [simp]: "bt_wf m \<Longrightarrow> ent_map (bt_insert k e m) = (ent_map m)(k \<mapsto> entry_val e)"
  by (auto simp: ent_map_def fun_eq_iff)

lemma set_bt_insert: "set (bt_insert k v m) \<subseteq> insert (k, v) (set m)"
  by (induction m) auto

lemma merged_ok_insert:
  "merged_ok m \<Longrightarrow> se_tombstone e = (se_value e = None) \<Longrightarrow> merged_ok (bt_insert (se_key e) e m)"
  using set_bt_insert [of "se_key e" e m] by (fastforce simp: merged_ok_def)

lemma fold_entries:
  assumes "merged_ok m" and "sorted_wrt (<) (map se_key es)"
    and "\<forall>e \<in> set es. se_tombstone e = (se_value e = None)"
  shows "merged_ok (fold (\<lambda>e. bt_insert (se_key e) e) es m) \<and>
         ent_map (fold (\<lambda>e. bt_insert (se_key e) e) es m) = ent_map m ++ sst_map es"
  using assms
proof (induction es arbitrary: m)
  case Nil
  then show ?case by (simp add: sst_map_def)
next
  case (Cons e es)
  have ok: "merged_ok (bt_insert (se_key e) e m)" using Cons.prems by (simp add: merged_ok_insert)
  note sst_map_step [OF Cons.prems(2)]
  moreover have "bt_wf m" using Cons.prems(1) by (simp add: merged_ok_def)
  then have "ent_map (bt_insert (se_key e) e m) = (ent_map m)(se_key e \<mapsto> entry_val e)"
    by (rule ent_map_insert)
  moreover have "sorted_wrt (<) (map se_key es)" "\<forall>e \<in> set es. se_tombstone e = (se_value e = None)"
    using Cons.prems(2,3) by simp_all
  note Cons.IH [OF ok this]
  ultimately show ?case by (simp only: fold_simps o_apply simp_thms)
qed

lemma table_okD:
  assumes "table_ok E d h"
  shows "load_sst_entries E (h_path h) d = Inr (table_of E d h)"
    and "load_sst_meta E (h_path h) d = Inr (h_meta h)"
    and "h_path h = sst_path (meta_id (h_meta h))"
    and "sorted_wrt (<) (map se_key (table_of E d h))"
    and "\<forall>e \<in> set (table_of E d h). se_tombstone e = (se_value e = None)"
  using assms unfolding table_ok_def Let_def by blast+

lemma merge_tables_ok:
  assumes "merged_ok m" and "\<forall>h \<in> set hs. table_ok E d h"
  obtains m' where "merge_tables E d hs m = Inr m'" and "merged_ok m'"
    and "ent_map m' = ent_map m ++ tables_map E d hs"
  using assms
proof (induction hs arbitrary: m thesis)
  case Nil
  then show ?case by simp
next
  case (Cons h hs)
  let ?m = "fold (\<lambda>e. bt_insert (se_key e) e) (table_of E d h) m"
  have h: "table_ok E d h" using Cons.prems by simp
  have m: "merged_ok ?m" "ent_map ?m = ent_map m ++ sst_map (table_of E d h)"
    using fold_entries [OF Cons.prems(2) table_okD(4,5) [OF h]] by simp_all
  have hs: "\<forall>h \<in> set hs. table_ok E d h" using Cons.prems by simp
  show ?case
    by (rule Cons.IH [OF _ m(1) hs]) (rule Cons.prems(1), simp_all add: table_okD(1) [OF h] m)
qed

lemma sst_map_snd: "\<forall>e \<in> set m. se_key (snd e) = fst e \<Longrightarrow> sst_map (map snd m) = ent_map m"
  by (induction m) (auto simp: sst_map_Cons ent_map_def fun_eq_iff, auto simp: sst_map_def)

definition live_entries :: "(string \<times> sst_entry) list \<Rightarrow> sst_entry list" where
  "live_entries merged = map snd (filter (\<lambda>e. \<not> se_tombstone (snd e)) merged)"

lemma live_entries_ok:
  assumes "merged_ok m"
  shows "flat (sst_map (live_entries m)) = flat (ent_map m)"
    and "sorted_wrt (<) (map se_key (live_entries m))"
    and "e \<in> set (live_entries m) \<Longrightarrow> \<not> se_tombstone e \<and> se_value e \<noteq> None"
proof -
  let ?f = "filter (\<lambda>e. \<not> se_tombstone (snd e)) m"
  have wf: "bt_wf m" and keys: "\<forall>e \<in> set ?f. se_key (snd e) = fst e" using assms by (simp_all add: merged_ok_def)
  have "flat (ent_map ?f) k = flat (ent_map m) k" for k
    using map_of_filter_value [OF wf, of "\<lambda>e. \<not> se_tombstone e" k]
    by (simp add: flat_def ent_map_def entry_val_def split: option.splits)
  then show "flat (sst_map (live_entries m)) = flat (ent_map m)"
    by (simp add: live_entries_def sst_map_snd [OF keys] fun_eq_iff)
  have "map se_key (live_entries m) = map fst ?f" using keys by (simp add: live_entries_def)
  then show "sorted_wrt (<) (map se_key (live_entries m))"
    using bt_wf_filter [OF wf, of "\<lambda>e. \<not> se_tombstone (snd e)"] by (simp only: bt_wf_def)
  show "e \<in> set (live_entries m) \<Longrightarrow> \<not> se_tombstone e \<and> se_value e \<noteq> None"
    using assms by (auto simp: live_entries_def merged_ok_def)
qed

end
