(* ===== verification/StateMachine_Disk.thy ===== *)
theory StateMachine_Disk
  imports StateMachine_Props
begin

text \<open>
  The state machine and its directory: compaction and flush keep the abstract map,
  \<open>snapshot_data\<close> enumerates it, \<open>install_snapshot\<close> replaces it, and \<open>open\<close> recovers it
  after a restart.
\<close>

section \<open>Compaction keeps the map\<close>

definition compact_handle :: "'b sm_env \<Rightarrow> sst_entry list \<Rightarrow> nat \<Rightarrow> sst_handle" where
  "compact_handle E entries i =
     \<lparr>h_path = sst_path i,
      h_meta = \<lparr>meta_id = i, first_key = (if entries = [] then [] else se_key (hd entries)),
                last_key = (if entries = [] then [] else se_key (last entries)),
                entry_count = length entries, created_at = now_unix E\<rparr>\<rparr>"

definition compacted :: "'b sm_env \<Rightarrow> sst_entry list \<Rightarrow> bool list \<Rightarrow> 'b state_machine \<Rightarrow> 'b state_machine" where
  "compacted E entries fl s =
     (let i = next_sst_id s; h = compact_handle E entries i in
      s\<lparr>next_sst_id := i + 1, sstables := [h],
        disk := (disk s)\<lparr>
          files := removed_files (sstables s)
            (hm_insert (meta_path (sst_path i)) (enc_meta E (h_meta h))
              (hm_insert (sst_path i) (enc_sst E entries) (files (disk s)))),
          faults := fl\<rparr>\<rparr>)"

lemma sm_compact_ok:
  assumes "no_faults s" and "2 \<le> length (sstables s)"
    and "merge_tables E (disk s) (sstables s) [] = Inr merged"
  obtains fl where "True \<notin> set fl" and "sm_compact E s = (Inr (), compacted E (live_entries merged) fl s)"
proof -
  let ?es = "live_entries merged" and ?i = "next_sst_id s"
  let ?fl = "(tl ^^ 4) (faults (disk s))"
  let ?d = "(disk s)\<lparr>faults := ?fl,
              files := hm_insert (meta_path (sst_path ?i)) (enc_meta E (h_meta (compact_handle E ?es ?i)))
                (hm_insert (sst_path ?i) (enc_sst E ?es) (files (disk s)))\<rparr>"
  have "True \<notin> set (faults ?d)"
    using assms(1) by (simp add: no_faults_def set_tl_faults numeral_eq_Suc)
  from remove_tables_ok [OF this, of "sstables s"] obtain fl where fl: "True \<notin> set fl"
    and rm: "fold remove_table (sstables s) ?d = ?d\<lparr>files := removed_files (sstables s) (files ?d), faults := fl\<rparr>"
    by blast
  have "sm_compact E s = (Inr (), s\<lparr>next_sst_id := ?i + 1, sstables := [compact_handle E ?es ?i],
      disk := fold remove_table (sstables s) ?d\<rparr>)"
    using assms
    by (simp add: sm_compact_def on_disk_def write_json_ok no_faults_def fault_free live_entries_def
        compact_handle_def Let_def numeral_eq_Suc)
  also have "\<dots> = (Inr (), compacted E ?es fl s)"
    by (simp add: rm compacted_def Let_def)
  finally show ?thesis by (rule that [OF fl])
qed

lemma compacted_files:
  assumes "sm_inv E s"
  shows "map_of (files (disk (compacted E entries fl s))) (sst_path (next_sst_id s)) = Some (enc_sst E entries)"
    and "map_of (files (disk (compacted E entries fl s))) (meta_path (sst_path (next_sst_id s)))
       = Some (enc_meta E (h_meta (compact_handle E entries (next_sst_id s))))"
proof -
  have "sst_path (next_sst_id s) \<notin> h_path ` set (sstables s)"
    and "meta_path (sst_path (next_sst_id s)) \<notin> (meta_path \<circ> h_path) ` set (sstables s)"
    and "sst_path (next_sst_id s) \<notin> (meta_path \<circ> h_path) ` set (sstables s)"
    and "meta_path (sst_path (next_sst_id s)) \<notin> h_path ` set (sstables s)"
    using sm_inv_paths [OF assms] by (auto simp: image_iff)
  then show "map_of (files (disk (compacted E entries fl s))) (sst_path (next_sst_id s)) = Some (enc_sst E entries)"
    and "map_of (files (disk (compacted E entries fl s))) (meta_path (sst_path (next_sst_id s)))
       = Some (enc_meta E (h_meta (compact_handle E entries (next_sst_id s))))"
    by (simp_all add: compacted_def Let_def map_of_removed_files)
qed

lemma compacted_table:
  assumes "sm_env_ok E" and "sm_inv E s"
    and "sorted_wrt (<) (map se_key entries)" and "\<forall>e \<in> set entries. se_tombstone e = (se_value e = None)"
  defines "h \<equiv> compact_handle E entries (next_sst_id s)"
  shows "table_of E (disk (compacted E entries fl s)) h = entries"
    and "table_ok E (disk (compacted E entries fl s)) h"
proof -
  have p: "h_path h = sst_path (next_sst_id s)" by (simp add: h_def compact_handle_def)
  have 1: "load_sst_entries E (h_path h) (disk (compacted E entries fl s)) = Inr entries"
    and 2: "load_sst_meta E (h_path h) (disk (compacted E entries fl s)) = Inr (h_meta h)"
    unfolding p using assms(1)
    by (simp_all add: load_sst_entries_def load_sst_meta_def compacted_files [OF assms(2)] h_def)
  then show es: "table_of E (disk (compacted E entries fl s)) h = entries" by (simp add: table_of_def)
  show "table_ok E (disk (compacted E entries fl s)) h"
    unfolding table_ok_def es Let_def using 1 2 assms(3,4)
    by (simp add: p) (simp add: h_def compact_handle_def)
qed

lemma keys_removed_files:
  "fst ` set (removed_files hs fs) = fst ` set fs - h_path ` set hs - (meta_path \<circ> h_path) ` set hs"
  by (induction hs arbitrary: fs) (auto simp: removed_files_def hm_remove_def image_iff)

lemma distinct_removed_files: "distinct (map fst fs) \<Longrightarrow> distinct (map fst (removed_files hs fs))"
  by (induction hs arbitrary: fs) (auto simp: removed_files_def)

lemma compacted_durable:
  assumes "durable E s"
  shows "durable E (compacted E entries fl s)"
proof -
  have dir: "distinct (map fst (files (disk s)))"
      "\<And>p. p \<in> fst ` set (files (disk s)) \<Longrightarrow> ext p = ''sst'' \<Longrightarrow> p \<in> h_path ` set (sstables s)"
    using assms by (auto simp: durable_def dir_synced_def)
  have "wal_synced E (compacted E entries fl s)"
    using assms by (simp add: durable_def wal_synced_iff compacted_def Let_def)
  moreover have "dir_synced (compacted E entries fl s)"
    using dir by (auto simp: dir_synced_def compacted_def compact_handle_def Let_def keys_removed_files
        distinct_removed_files keys_hm_insert simp del: in_set_conv_decomp)
  ultimately show ?thesis by (simp add: durable_def)
qed

lemma compact_spec:
  assumes "sm_env_ok E" and "no_faults s" and "sm_inv E s"
  obtains s' where "sm_compact E s = (Inr (), s')" and "no_faults s'" and "sm_inv E s'"
    and "sm_view E s' = sm_view E s" and "length (sstables s') \<le> 1 \<or> s' = s"
    and "pending_txs s' = pending_txs s" and "durable E s \<Longrightarrow> durable E s'"
    and "2 \<le> length (sstables s) \<Longrightarrow>
      (\<exists>h. sstables s' = [h] \<and> (\<forall>e \<in> set (table_of E (disk s') h). \<not> se_tombstone e))"
proof (cases "2 \<le> length (sstables s)")
  case False
  show ?thesis by (rule that [of s]) (use False assms in \<open>simp_all add: sm_compact_def\<close>)
next
  case True
  have ok: "\<forall>h \<in> set (sstables s). table_ok E (disk s) h" using assms(3) by (simp add: sm_inv_def)
  have "merged_ok []" by (simp add: merged_ok_def)
  from merge_tables_ok [OF this ok] obtain m where merge: "merge_tables E (disk s) (sstables s) [] = Inr m"
    and m: "merged_ok m" and ent: "ent_map m = ent_map [] ++ tables_map E (disk s) (sstables s)" by blast
  from sm_compact_ok [OF assms(2) True merge] obtain fl where fl: "True \<notin> set fl"
    and eq: "sm_compact E s = (Inr (), compacted E (live_entries m) fl s)" by blast
  note live = live_entries_ok [OF m]
  have "\<forall>e \<in> set (live_entries m). se_tombstone e = (se_value e = None)" using live(3) by blast
  note tab = compacted_table [OF assms(1,3) live(2) this, of fl]
  have "ent_map [] = Map.empty" by (simp add: ent_map_def fun_eq_iff)
  then have flat: "flat (sst_map (live_entries m)) = flat (tables_map E (disk s) (sstables s))"
    using live(1) ent by simp
  show ?thesis
  proof (rule that [OF eq _ _ _ _ _ compacted_durable])
    show "sm_view E (compacted E (live_entries m) fl s) = sm_view E s"
      using tab(1) flat by (simp add: sm_view_def compacted_def Let_def flat_add fun_eq_iff split: option.splits)
    show "sm_inv E (compacted E (live_entries m) fl s)"
      using tab(2) assms(3) by (simp add: sm_inv_def compacted_def Let_def compact_handle_def)
    show "\<exists>h. sstables (compacted E (live_entries m) fl s) = [h] \<and>
        (\<forall>e \<in> set (table_of E (disk (compacted E (live_entries m) fl s)) h). \<not> se_tombstone e)"
      using tab(1) live(3) by (auto simp: compacted_def Let_def)
  qed (use fl in \<open>simp_all add: no_faults_def compacted_def Let_def\<close>)
qed

section \<open>Enumerating the map\<close>

lemma overlay_entries_view:
  assumes "map_of r = flat base" and "sorted_wrt (<) (map se_key es)"
    and "\<forall>e \<in> set es. se_tombstone e = (se_value e = None)"
  shows "map_of (overlay_entries es r) = flat (base ++ sst_map es)"
  using assms
proof (induction es arbitrary: r base)
  case Nil
  then show ?case by (simp add: sst_map_def)
next
  case (Cons e es)
  let ?r = "if se_tombstone e then hm_remove (se_key e) r
    else case se_value e of Some v \<Rightarrow> hm_insert (se_key e) v r | None \<Rightarrow> r"
  have r: "map_of ?r = flat (base(se_key e \<mapsto> entry_val e))"
    using Cons.prems by (auto simp: flat_upd entry_val_def split: option.splits)
  have "map_of (overlay_entries es ?r) = flat (base(se_key e \<mapsto> entry_val e) ++ sst_map es)"
    by (rule Cons.IH [OF r]) (use Cons.prems in simp_all)
  then show ?case by (simp only: overlay_entries.simps sst_map_step [OF Cons.prems(2)])
qed

lemma overlay_entries_distinct:
  "distinct (map fst r) \<Longrightarrow> distinct (map fst (overlay_entries es r))"
  by (induction es r rule: overlay_entries.induct) (auto split: option.splits)

lemma overlay_tables_view:
  assumes "map_of r = flat base" and "\<forall>h \<in> set hs. table_ok E d h" and "distinct (map fst r)"
  shows "\<exists>m. overlay_tables E d hs r = Inr m \<and> distinct (map fst m) \<and> map_of m = flat (base ++ tables_map E d hs)"
  using assms
proof (induction hs arbitrary: r base)
  case Nil
  then show ?case by simp
next
  case (Cons h hs)
  have h: "table_ok E d h" using Cons.prems by simp
  note this_table = overlay_entries_view [OF Cons.prems(1) table_okD(4,5) [OF h]]
    overlay_entries_distinct [OF Cons.prems(3), of "table_of E d h"]
  from Cons.IH [OF this_table(1) _ this_table(2)] Cons.prems show ?case
    by (simp add: table_okD(1) [OF h])
qed

lemma overlay_memtable_view:
  assumes "map_of r = flat base" and "bt_wf mem"
  shows "map_of (overlay_memtable mem r) = flat (base ++ mem_map mem)"
  using assms
proof (induction mem arbitrary: r base)
  case Nil
  then show ?case by (simp add: mem_map_def map_add_def)
next
  case (Cons x mem)
  obtain k e where x: "x = (k, e)" by fastforce
  let ?r = "case me_value e of Some v \<Rightarrow> hm_insert k v r | None \<Rightarrow> hm_remove k r"
  have r: "map_of ?r = flat (base(k \<mapsto> me_value e))"
    using Cons.prems by (auto simp: flat_upd split: option.splits)
  have "map_of (overlay_memtable mem ?r) = flat (base(k \<mapsto> me_value e) ++ mem_map mem)"
    by (rule Cons.IH [OF r]) (use Cons.prems in simp)
  moreover have "map_of mem k = None" using Cons.prems(2) by (force simp: x map_of_eq_None_iff)
  then have "base(k \<mapsto> me_value e) ++ mem_map mem = base ++ mem_map (x # mem)"
    by (auto simp: x mem_map_def map_add_def fun_eq_iff split: option.splits)
  ultimately show ?case by (simp add: x)
qed

lemma overlay_memtable_distinct:
  "distinct (map fst r) \<Longrightarrow> distinct (map fst (overlay_memtable mem r))"
  by (induction mem r rule: overlay_memtable.induct) (auto split: option.splits)

lemma snapshot_data_spec:
  assumes "sm_inv E s"
  obtains m where "snapshot_data E s = Inr m" and "distinct (map fst m)" and "map_of m = sm_view E s"
proof -
  have "\<forall>h \<in> set (sstables s). table_ok E (disk s) h" and wf: "bt_wf (memtable s)"
    using assms by (simp_all add: sm_inv_def)
  moreover have "map_of [] = flat Map.empty" by (simp add: flat_def fun_eq_iff)
  ultimately obtain m where m: "overlay_tables E (disk s) (sstables s) [] = Inr m" "distinct (map fst m)"
      "map_of m = flat (Map.empty ++ tables_map E (disk s) (sstables s))"
    using overlay_tables_view [of "[]" Map.empty "sstables s" E "disk s"] by auto
  show ?thesis
    by (rule that [of "overlay_memtable (memtable s) m"])
      (simp_all add: snapshot_data_def m overlay_memtable_distinct overlay_memtable_view [OF m(3) wf] sm_view_def)
qed

section \<open>Replacing the map by a snapshot\<close>

lemma load_memtable_frame [frame_simps]:
  "sstables (load_memtable data s) = sstables s" "disk (load_memtable data s) = disk s"
  "pending_txs (load_memtable data s) = pending_txs s" "config (load_memtable data s) = config s"
  "next_sst_id (load_memtable data s) = next_sst_id s"
  by (induction data s rule: load_memtable.induct) simp_all

lemma load_memtable_wf: "bt_wf (memtable s) \<Longrightarrow> bt_wf (memtable (load_memtable data s))"
  by (induction data s rule: load_memtable.induct) simp_all

lemma load_memtable_view:
  assumes "bt_wf (memtable s)" and "distinct (map fst data)"
  shows "mem_map (memtable (load_memtable data s)) k =
    (case map_of data k of Some v \<Rightarrow> Some (Some v) | None \<Rightarrow> mem_map (memtable s) k)"
  using assms
proof (induction data s rule: load_memtable.induct)
  case (2 k' v kvs s)
  have "map_of kvs k' = None" using "2.prems" by (simp add: map_of_eq_None_iff)
  moreover have "bt_wf (bt_insert k' \<lparr>me_value = Some v\<rparr> (memtable s))" using "2.prems" by simp
  ultimately show ?case using 2 by (auto split: option.splits)
qed simp

lemma install_snapshot_spec:
  assumes "no_faults s" and "distinct (map fst data)"
  obtains s' where "install_snapshot data s = (Inr (), s')" and "no_faults s'" and "sm_inv E s'"
    and "sm_view E s' = map_of data" and "pending_txs s' = []" and "sstables s' = []"
    and "wal_lines (disk s') = []"
    and "\<And>p. p \<in> fst ` set (files (disk s')) \<Longrightarrow> p \<notin> h_path ` set (sstables s)"
    and "dir_synced s \<Longrightarrow> dir_synced s'"
proof -
  have "no_faults (s\<lparr>memtable := [], memtable_bytes := 0\<rparr>)" using assms(1) by (simp add: no_faults_def)
  from truncate_wal_ok [OF this] obtain fl where fl: "True \<notin> set fl" and tr:
    "truncate_wal (s\<lparr>memtable := [], memtable_bytes := 0\<rparr>) =
      (Inr (), s\<lparr>memtable := [], memtable_bytes := 0, disk := (disk s)\<lparr>wal_lines := [], faults := fl\<rparr>\<rparr>)"
    by auto
  let ?d = "(disk s)\<lparr>wal_lines := [], faults := fl\<rparr>"
  have "True \<notin> set (faults ?d)" using fl by simp
  from remove_tables_ok [OF this, of "sstables s"] obtain fl' where fl': "True \<notin> set fl'"
    and rm: "fold remove_table (sstables s) ?d = ?d\<lparr>files := removed_files (sstables s) (files ?d), faults := fl'\<rparr>"
    by blast
  let ?c = "s\<lparr>memtable := [], disk := fold remove_table (sstables s) ?d,
              sstables := [], next_sst_id := 0, pending_txs := [], memtable_bytes := 0\<rparr>"
  let ?s = "load_memtable data ?c"
  have eq: "install_snapshot data s = (Inr (), ?s)"
    by (simp add: install_snapshot_def clear_for_snapshot_def tr)
  have wf: "bt_wf (memtable ?c)" by simp
  have view: "sm_view E ?s = map_of data"
    using load_memtable_view [OF wf assms(2)]
    by (simp add: sm_view_def frame_simps flat_def mem_map_def [of "[]"] fun_eq_iff split: option.splits)
  show ?thesis
  proof (rule that [OF eq _ _ view])
    show "no_faults ?s" using fl' by (simp add: no_faults_def frame_simps rm)
    show "sm_inv E ?s" using load_memtable_wf [OF wf] by (simp add: sm_inv_def frame_simps)
    show "dir_synced ?s" if "dir_synced s"
      using that by (auto simp: dir_synced_def frame_simps rm keys_removed_files distinct_removed_files)
    show "p \<notin> h_path ` set (sstables s)" if "p \<in> fst ` set (files (disk ?s))" for p
      using that by (simp add: frame_simps rm keys_removed_files)
  qed (simp_all add: frame_simps rm)
qed

section \<open>Restart\<close>

lemma discover_ok:
  assumes "\<forall>p \<in> fst ` set fs. ext p = ''sst'' \<longrightarrow> p \<in> h_path ` H"
    and "\<forall>h \<in> H. table_ok E d h \<and> meta_id (h_meta h) < 2 ^ 64"
  shows "\<exists>hs' n'. discover E d fs hs n = Inr (hs @ hs', n') \<and>
    map h_path hs' = filter (\<lambda>p. ext p = ''sst'') (map fst fs) \<and> set hs' \<subseteq> H \<and>
    n \<le> n' \<and> (\<forall>h \<in> set hs'. meta_id (h_meta h) < n')"
  using assms
proof (induction fs arbitrary: hs n)
  case Nil
  then show ?case by simp
next
  case (Cons f fs)
  obtain p c where f: "f = (p, c)" by fastforce
  show ?case
  proof (cases "ext p = ''sst''")
    case False
    with Cons show ?thesis by (simp add: f)
  next
    case True
    with Cons.prems(1) obtain h where h: "h \<in> H" "p = h_path h" by (auto simp: f)
    with Cons.prems(2) have ok: "table_ok E d h" and small: "meta_id (h_meta h) < 2 ^ 64" by auto
    have parse: "parse_sst_id p = Some (meta_id (h_meta h))"
      using parse_sst_path [OF small] table_okD(3) [OF ok] by (simp add: h(2))
    have whole: "\<lparr>h_path = h_path h, h_meta = h_meta h\<rparr> = h" by (rule sst_handle.equality) simp_all
    have step: "discover E d (f # fs) hs n = discover E d fs (hs @ [h]) (max n (meta_id (h_meta h) + 1))"
      using True parse table_okD(2) [OF ok] by (simp add: f h(2) whole)
    from Cons.IH [of "hs @ [h]" "max n (meta_id (h_meta h) + 1)"] Cons.prems obtain hs' n' where
      IH: "discover E d fs (hs @ [h]) (max n (meta_id (h_meta h) + 1)) = Inr ((hs @ [h]) @ hs', n')"
        "map h_path hs' = filter (\<lambda>p. ext p = ''sst'') (map fst fs)" "set hs' \<subseteq> H"
        "max n (meta_id (h_meta h) + 1) \<le> n'" "\<forall>h \<in> set hs'. meta_id (h_meta h) < n'"
      by auto
    show ?thesis
      by (rule exI [of _ "h # hs'"], rule exI [of _ n']) (use step IH True h in \<open>auto simp: f\<close>)
  qed
qed

lemma sorted_key_unique:
  fixes f :: "'a \<Rightarrow> 'b::linorder"
  assumes "sorted_wrt (<) (map f xs)" and "sorted_wrt (<) (map f ys)" and "set xs = set ys"
  shows "xs = ys"
proof -
  have "map f xs = map f ys"
    using assms by (intro sorted_distinct_set_unique) (simp_all add: strict_sorted_iff)
  moreover have "inj_on f (set xs \<union> set ys)"
    using assms(1,3) by (simp add: strict_sorted_iff distinct_map)
  ultimately show ?thesis by (rule map_inj_on)
qed

lemma sort_key_strict:
  "distinct (map f xs) \<Longrightarrow> sorted_wrt (<) (map f (sort_key f xs))"
  by (simp add: strict_sorted_iff distinct_map)

lemma discover_recovers:
  assumes "sm_inv E s" and "dir_synced s" and "next_sst_id s \<le> 2 ^ 64" and "files d = files (disk s)"
  obtains hs n where "discover E d (files d) [] 0 = Inr (hs, n)"
    and "sort_key (\<lambda>h. meta_id (h_meta h)) hs = sstables s"
    and "\<forall>h \<in> set (sstables s). meta_id (h_meta h) < n"
proof -
  let ?id = "\<lambda>h. meta_id (h_meta h)" and ?H = "set (sstables s)"
  have ok: "\<forall>h \<in> ?H. table_ok E d h \<and> ?id h < 2 ^ 64"
    using assms(1,3,4) table_ok_cong [of d _ "disk s" E] by (fastforce simp: sm_inv_def)
  have dirs: "\<forall>p \<in> fst ` set (files d). ext p = ''sst'' \<longrightarrow> p \<in> h_path ` ?H"
    and dist: "distinct (map fst (files d))" using assms(2,4) by (simp_all add: dir_synced_def)
  from discover_ok [OF dirs ok, of "[]" 0] obtain hs n where
    hs: "discover E d (files d) [] 0 = Inr (hs, n)" "set hs \<subseteq> ?H" "\<forall>h \<in> set hs. ?id h < n"
      "map h_path hs = filter (\<lambda>p. ext p = ''sst'') (map fst (files d))" by auto
  have path: "h_path h = sst_path (?id h)" if "h \<in> ?H" for h using ok that table_okD(3) by blast
  have "?H \<subseteq> set hs"
  proof
    fix h assume h: "h \<in> ?H"
    then have "map_of (files d) (h_path h) \<noteq> None"
      using ok table_okD(1) [of E d h] by (auto simp: load_sst_entries_def split: option.splits)
    then have "h_path h \<in> set (map h_path hs)"
      using path [OF h] by (simp add: hs(4) map_of_eq_None_iff)
    then obtain h' where h': "h' \<in> set hs" "h_path h' = h_path h" by auto
    then have "table_ok E d h'" "table_ok E d h" using hs(2) h ok by auto
    with h'(2) have "h_meta h' = h_meta h" using table_okD(2) by (metis sum.inject(2))
    with h'(2) have "h' = h" by (intro sst_handle.equality) simp_all
    with h'(1) show "h \<in> set hs" by simp
  qed
  then have same: "set hs = ?H" using hs(2) by blast
  have "distinct (map h_path hs)" using dist by (simp add: hs(4) distinct_filter)
  moreover have "map h_path hs = map sst_path (map ?id hs)" using path same by simp
  ultimately have "distinct (map ?id hs)" by (metis distinct_map)
  then have "sort_key ?id hs = sstables s"
    using assms(1) same by (intro sorted_key_unique [of ?id] sort_key_strict) (simp_all add: sm_inv_def)
  with hs same show ?thesis using that by auto
qed

lemma open_recovers:
  assumes "sm_inv E s" and "no_faults s" and "durable E s" and "next_sst_id s \<le> 2 ^ 64"
  obtains s' where "fst (sm_open E cfg (disk s)) = Inr s'" and "sm_inv E s'" and "no_faults s'"
    and "sm_view E s' = sm_view E s" and "memtable s' = memtable s" and "sstables s' = sstables s"
    and "pending_txs s' = []" and "durable E s'"
proof -
  let ?fl = "(tl ^^ 4) (faults (disk s))"
  let ?d = "(disk s)\<lparr>faults := ?fl\<rparr>"
  have fl: "True \<notin> set ?fl" using assms(2) by (simp add: no_faults_def set_tl_faults numeral_eq_Suc)
  from assms(3) obtain b where wal: "replay_wal E (wal_lines (disk s)) [] 0 = Inr (memtable s, b)"
    by (auto simp: durable_def wal_synced_iff)
  have dir: "dir_synced s" using assms(3) by (simp add: durable_def)
  let ?d3 = "(disk s)\<lparr>faults := (tl ^^ 3) (faults (disk s))\<rparr>"
  from discover_recovers [OF assms(1) dir assms(4), of ?d3] obtain hs n where
    hs: "discover E ?d3 (files ?d3) [] 0 = Inr (hs, n)" "sort_key (\<lambda>h. meta_id (h_meta h)) hs = sstables s"
      "\<forall>h \<in> set (sstables s). meta_id (h_meta h) < n" by auto
  let ?s = "\<lparr>config = cfg, memtable = memtable s, memtable_bytes = b, disk = ?d,
             sstables = sstables s, next_sst_id = n, pending_txs = []\<rparr>"
  have eq: "fst (sm_open E cfg (disk s)) = Inr ?s"
    using assms(2) hs(1,2) wal by (simp add: sm_open_def no_faults_def fault_free numeral_eq_Suc)
  have tab: "table_ok E ?d h = table_ok E (disk s) h" for h by (rule table_ok_cong) simp_all
  show ?thesis
  proof (rule that [OF eq])
    show "sm_inv E ?s" using assms(1) hs(3) by (simp add: sm_inv_def tab)
    have "tables_map E ?d (sstables s) = tables_map E (disk s) (sstables s)" by (rule tables_map_cong) simp
    then show "sm_view E ?s = sm_view E s" by (simp add: sm_view_def)
    show "durable E ?s" using assms(3) by (simp add: durable_def wal_synced_iff dir_synced_def)
  qed (use fl in \<open>simp_all add: no_faults_def\<close>)
qed

end
