(* ===== verification/KvMachine.thy ===== *)
theory KvMachine
  imports StateMachine_Disk
begin

text \<open>
  The contract of a replicated key-value machine: the effect of a log command on the abstract
  map and on the staged transactions (\<open>kv_spec\<close>), stated as the locale \<open>kv_machine\<close>. The
  dispatch of \<open>apply_logs\<close> in \<open>src/raft/node.rs\<close> on the LSM state machine is an instance of
  it; the reference model of the simulator is another (theory \<open>ReferenceModel\<close>).
\<close>

section \<open>The specification\<close>

type_synonym kv_abs = "(string \<rightharpoonup> string) \<times> (string \<rightharpoonup> tx_op list)"

fun apply_op :: "tx_op \<Rightarrow> (string \<rightharpoonup> string) \<Rightarrow> (string \<rightharpoonup> string)" where
  "apply_op (TxPut k v) m = m(k \<mapsto> v)"
| "apply_op (TxDelete k) m = m(k := None)"

fun kv_spec :: "command \<Rightarrow> kv_abs \<Rightarrow> kv_abs" where
  "kv_spec (CmdSet k v) (m, st) = (m(k \<mapsto> v), st)"
| "kv_spec (CmdDelete k) (m, st) = (m(k := None), st)"
| "kv_spec (CmdBeginTx i ops) (m, st) = (m, st(i \<mapsto> ops))"
| "kv_spec (CmdDecideTx i d) (m, st) =
     (case st i of
        None \<Rightarrow> (m, st)
      | Some ops \<Rightarrow> (if d = Commit then fold apply_op ops m else m, st(i := None)))"
| "kv_spec _ a = a"

text \<open>The key that an operation of a transaction writes.\<close>

fun op_key :: "tx_op \<Rightarrow> string" where
  "op_key (TxPut k v) = k"
| "op_key (TxDelete k) = k"

lemma fold_apply_op_other: "k \<notin> op_key ` set ops \<Longrightarrow> fold apply_op ops m k = m k"
proof (induction ops arbitrary: m)
  case (Cons op ops)
  then show ?case by (cases op) auto
qed simp

text \<open>The transactions that a command decides or stages.\<close>

fun concerns_tx :: "string \<Rightarrow> command \<Rightarrow> bool" where
  "concerns_tx i (CmdBeginTx j ops) \<longleftrightarrow> i = j"
| "concerns_tx i (CmdDecideTx j d) \<longleftrightarrow> i = j"
| "concerns_tx i _ \<longleftrightarrow> False"

lemma kv_spec_staged: "\<not> concerns_tx i c \<Longrightarrow> snd (kv_spec c a) i = snd a i"
  by (cases a; cases c) (auto split: option.splits)

section \<open>The interface\<close>

locale kv_machine =
  fixes ok :: "'s \<Rightarrow> bool"
    and kv :: "'s \<Rightarrow> (string \<rightharpoonup> string)"
    and staged :: "'s \<Rightarrow> (string \<rightharpoonup> tx_op list)"
    and exec :: "command \<Rightarrow> 's \<Rightarrow> 's"
  assumes exec_ok: "ok s \<Longrightarrow> ok (exec c s)"
    and exec_kv: "ok s \<Longrightarrow> (kv (exec c s), staged (exec c s)) = kv_spec c (kv s, staged s)"
begin

lemma run_ok: "ok s \<Longrightarrow> ok (fold exec cs s)"
  by (induction cs arbitrary: s) (simp_all add: exec_ok)

lemma run_kv: "ok s \<Longrightarrow> (kv (fold exec cs s), staged (fold exec cs s)) = fold kv_spec cs (kv s, staged s)"
proof (induction cs arbitrary: s)
  case (Cons c cs)
  from Cons.IH [OF exec_ok [OF Cons.prems]] show ?case by (simp add: exec_kv [OF Cons.prems])
qed simp

lemma begin_invisible: "ok s \<Longrightarrow> kv (exec (CmdBeginTx i ops) s) = kv s"
  using exec_kv [of s "CmdBeginTx i ops"] by simp

lemma staged_kept:
  assumes "ok s" and "\<forall>c \<in> set cs. \<not> concerns_tx i c"
  shows "staged (fold exec cs s) i = staged s i"
  using assms
proof (induction cs arbitrary: s)
  case (Cons c cs)
  have "staged (exec c s) i = staged s i"
    using kv_spec_staged [of i c "(kv s, staged s)"] exec_kv [OF Cons.prems(1), of c] Cons.prems(2)
    by (metis list.set_intros(1) snd_conv)
  with Cons.IH [OF exec_ok [OF Cons.prems(1)]] Cons.prems show ?case by simp
qed simp

lemma commit_atomic:
  fixes ops :: "tx_op list"
  assumes "ok s" and "\<forall>c \<in> set cs. \<not> concerns_tx i c"
  defines "t \<equiv> fold exec cs (exec (CmdBeginTx i ops) s)"
  shows "kv (exec (CmdDecideTx i Commit) t) = fold apply_op ops (kv t)"
    and "staged (exec (CmdDecideTx i Commit) t) i = None"
proof -
  have b: "ok (exec (CmdBeginTx i ops) s)" using assms(1) by (rule exec_ok)
  have t: "ok t" unfolding t_def by (rule run_ok [OF b])
  have "staged (exec (CmdBeginTx i ops) s) i = Some ops"
    using exec_kv [OF assms(1), of "CmdBeginTx i ops"] by simp
  then have "staged t i = Some ops"
    unfolding t_def using staged_kept [OF b assms(2)] by simp
  then show "kv (exec (CmdDecideTx i Commit) t) = fold apply_op ops (kv t)"
    and "staged (exec (CmdDecideTx i Commit) t) i = None"
    using exec_kv [OF t, of "CmdDecideTx i Commit"] by simp_all
qed

lemma abort_no_effect: "ok s \<Longrightarrow> kv (exec (CmdDecideTx i Abort) s) = kv s \<and> staged (exec (CmdDecideTx i Abort) s) i = None"
  using exec_kv [of s "CmdDecideTx i Abort"] by (auto split: option.splits)

lemma decide_idempotent:
  assumes "ok s"
  shows "kv (exec (CmdDecideTx i d') (exec (CmdDecideTx i d) s)) = kv (exec (CmdDecideTx i d) s)"
proof -
  let ?t = "exec (CmdDecideTx i d) s"
  have "staged ?t i = None" using exec_kv [OF assms, of "CmdDecideTx i d"] by (auto split: option.splits)
  then show ?thesis using exec_kv [OF exec_ok [OF assms], of "CmdDecideTx i d'" "CmdDecideTx i d"] by simp
qed

end

text \<open>Two machines that run the same log from the same abstract state agree.\<close>

locale kv_machine_pair = a: kv_machine ok kv staged exec + b: kv_machine ok' kv' staged' exec'
  for ok :: "'s \<Rightarrow> bool" and kv staged exec and ok' :: "'t \<Rightarrow> bool" and kv' staged' exec'
begin

lemma runs_agree:
  assumes "ok s" and "ok' t" and "kv s = kv' t" and "staged s = staged' t"
  shows "kv (fold exec cs s) = kv' (fold exec' cs t) \<and> staged (fold exec cs s) = staged' (fold exec' cs t)"
  using a.run_kv [OF assms(1), of cs] b.run_kv [OF assms(2), of cs] assms(3,4) by (metis prod.inject)

end

section \<open>The LSM state machine implements it\<close>

text \<open>The commands that \<open>apply_logs\<close> passes to the state machine; errors are discarded there.\<close>

fun sm_apply :: "'b sm_env \<Rightarrow> command \<Rightarrow> 'b state_machine \<Rightarrow> 'b state_machine" where
  "sm_apply E (CmdSet k v) s = snd (sm_set E k v s)"
| "sm_apply E (CmdDelete k) s = snd (sm_delete E k s)"
| "sm_apply E (CmdBeginTx i ops) s = snd (begin_tx E i ops s)"
| "sm_apply E (CmdDecideTx i d) s = snd (decide_tx E i d s)"
| "sm_apply E _ s = s"

definition sm_ok :: "'b sm_env \<Rightarrow> 'b state_machine \<Rightarrow> bool" where
  "sm_ok E s \<longleftrightarrow> sm_env_ok E \<and> no_faults s \<and> sm_inv E s"

definition sm_staged :: "'b state_machine \<Rightarrow> (string \<rightharpoonup> tx_op list)" where
  "sm_staged s i = map_option ptx_ops (map_of (pending_txs s) i)"

lemma sm_view_pending [simp]: "sm_view E (s\<lparr>pending_txs := p\<rparr>) = sm_view E s"
  by (simp add: sm_view_def)

lemma sm_ok_pending [simp]: "sm_ok E s \<Longrightarrow> bt_wf p \<Longrightarrow> sm_ok E (s\<lparr>pending_txs := p\<rparr>)"
  by (simp add: sm_ok_def no_faults_def sm_inv_def)

lemma sm_write_effect:
  fixes op :: wal_op
  assumes "sm_ok E s"
  defines "s' \<equiv> snd (sm_write E op s)"
  shows "sm_ok E s'" and "sm_view E s' = (sm_view E s)(wal_key op := wal_val op)"
    and "pending_txs s' = pending_txs s" and "sm_staged s' = sm_staged s"
proof -
  from assms(1) have "sm_env_ok E" "no_faults s" "sm_inv E s" by (simp_all add: sm_ok_def)
  from sm_write_spec [OF this, of op] obtain t where
    "sm_write E op s = (Inr (), t)" "no_faults t" "sm_inv E t"
    "sm_view E t = (sm_view E s)(wal_key op := wal_val op)" "pending_txs t = pending_txs s" by metis
  then show "sm_ok E s'" and "sm_view E s' = (sm_view E s)(wal_key op := wal_val op)"
    and "pending_txs s' = pending_txs s" and "sm_staged s' = sm_staged s"
    using assms(1) by (simp_all add: s'_def sm_ok_def sm_staged_def fun_eq_iff)
qed

fun op_wal :: "tx_op \<Rightarrow> wal_op" where
  "op_wal (TxPut k v) = WalPut k v"
| "op_wal (TxDelete k) = WalDelete k"

lemma apply_tx_op_effect:
  assumes "sm_ok E s"
  shows "sm_ok E (apply_tx_op E op s)" and "sm_view E (apply_tx_op E op s) = apply_op op (sm_view E s)"
    and "pending_txs (apply_tx_op E op s) = pending_txs s"
proof -
  have "apply_tx_op E op s = snd (sm_write E (op_wal op) s)" by (cases op) simp_all
  then show "sm_ok E (apply_tx_op E op s)" and "sm_view E (apply_tx_op E op s) = apply_op op (sm_view E s)"
    and "pending_txs (apply_tx_op E op s) = pending_txs s"
    using sm_write_effect [OF assms, of "op_wal op"] by (cases op; simp)+
qed

lemma apply_tx_ops_effect:
  assumes "sm_ok E s"
  shows "sm_ok E (fold (apply_tx_op E) ops s) \<and>
    sm_view E (fold (apply_tx_op E) ops s) = fold apply_op ops (sm_view E s) \<and>
    pending_txs (fold (apply_tx_op E) ops s) = pending_txs s"
  using assms
proof (induction ops arbitrary: s)
  case (Cons op ops)
  from Cons.IH [OF apply_tx_op_effect(1) [OF Cons.prems, of op]] apply_tx_op_effect [OF Cons.prems, of op]
  show ?case by simp
qed simp

lemma decide_tx_effect:
  fixes i :: string and d :: tx_decision
  assumes "sm_ok E s"
  defines "s' \<equiv> snd (decide_tx E i d s)"
  shows "sm_ok E s' \<and> (sm_view E s', sm_staged s') = kv_spec (CmdDecideTx i d) (sm_view E s, sm_staged s)"
proof (cases "map_of (pending_txs s) i")
  case None
  then show ?thesis using assms by (simp add: decide_tx_def sm_staged_def)
next
  case (Some tx)
  have "bt_wf (pending_txs s)" using assms(1) by (simp add: sm_ok_def sm_inv_def)
  then have p: "sm_ok E (s\<lparr>pending_txs := bt_remove i (pending_txs s)\<rparr>)" using assms(1) by simp
  then show ?thesis
    using apply_tx_ops_effect [OF p, of "ptx_ops tx"] Some
    by (auto simp: s'_def decide_tx_def sm_staged_def fun_eq_iff Let_def)
qed

lemma sm_apply_effect:
  assumes "sm_ok E s"
  shows "sm_ok E (sm_apply E c s)"
    and "(sm_view E (sm_apply E c s), sm_staged (sm_apply E c s)) = kv_spec c (sm_view E s, sm_staged s)"
proof -
  have wf: "bt_wf (pending_txs s)" using assms by (simp add: sm_ok_def sm_inv_def)
  have "sm_ok E (sm_apply E c s) \<and>
    (sm_view E (sm_apply E c s), sm_staged (sm_apply E c s)) = kv_spec c (sm_view E s, sm_staged s)"
  proof (cases c)
    case (CmdSet k v)
    then show ?thesis using sm_write_effect [OF assms, of "WalPut k v"] by simp
  next
    case (CmdDelete k)
    then show ?thesis using sm_write_effect [OF assms, of "WalDelete k"] by simp
  next
    case (CmdBeginTx i ops)
    then show ?thesis
      using assms wf by (auto simp: begin_tx_def begin_tx_at_def sm_staged_def fun_eq_iff)
  next
    case (CmdDecideTx i d)
    then show ?thesis using decide_tx_effect [OF assms, of i d] by simp
  qed (use assms in simp_all)
  then show "sm_ok E (sm_apply E c s)"
    and "(sm_view E (sm_apply E c s), sm_staged (sm_apply E c s)) = kv_spec c (sm_view E s, sm_staged s)"
    by simp_all
qed

interpretation lsm: kv_machine "sm_ok E" "sm_view E" sm_staged "sm_apply E" for E
  by unfold_locales (use sm_apply_effect in blast)+

section \<open>Transactions on the LSM\<close>

text \<open>C31: Two-phase commit is isolated and atomic: staging a transaction does not change the map;
  after any further commands that do not concern the transaction, its commit applies all of its
  operations, in order, on the map of that moment and removes it, while an abort changes nothing;
  a second decision has no effect.\<close>

theorem two_phase_commit_atomic:
  assumes "sm_ok E s" and "\<forall>c \<in> set cs. \<not> concerns_tx i c"
  shows "sm_view E (sm_apply E (CmdBeginTx i ops) s) = sm_view E s \<and>
    sm_view E (sm_apply E (CmdDecideTx i Commit) (fold (sm_apply E) cs (sm_apply E (CmdBeginTx i ops) s)))
      = fold apply_op ops (sm_view E (fold (sm_apply E) cs (sm_apply E (CmdBeginTx i ops) s))) \<and>
    sm_view E (sm_apply E (CmdDecideTx i Abort) s) = sm_view E s \<and>
    sm_view E (sm_apply E (CmdDecideTx i d') (sm_apply E (CmdDecideTx i d) s))
      = sm_view E (sm_apply E (CmdDecideTx i d) s)"
  using lsm.begin_invisible [OF assms(1)] lsm.commit_atomic(1) [OF assms]
    lsm.abort_no_effect [OF assms(1)] lsm.decide_idempotent [OF assms(1)]
  by blast

end
