(* ===== verification/ReferenceModel.thy ===== *)
theory ReferenceModel
  imports KvMachine
begin

text \<open>
  The sequential reference model of \<open>src/raft/reference_model.rs\<close> that the simulator compares
  a cluster with. \<open>drain_to\<close> and \<open>replay_from_node\<close> read a node of the simulated cluster
  through \<open>get_log_entry\<close> only, so the node is represented by its log. The model implements
  the interface \<open>kv_machine\<close>, and the LSM state machine agrees with it on every log.
\<close>

section \<open>Definitions\<close>

record reference_model =
  rm_state :: "string \<rightharpoonup> string"
  rm_pending :: "string \<rightharpoonup> tx_op list"
  rm_next_index :: nat

definition rm_new :: reference_model where
  "rm_new = \<lparr>rm_state = Map.empty, rm_pending = Map.empty, rm_next_index = 1\<rparr>"

fun rm_tx_op :: "tx_op \<Rightarrow> reference_model \<Rightarrow> reference_model" where
  "rm_tx_op (TxPut k v) r = r\<lparr>rm_state := (rm_state r)(k \<mapsto> v)\<rparr>"
| "rm_tx_op (TxDelete k) r = r\<lparr>rm_state := (rm_state r)(k := None)\<rparr>"

fun rm_command :: "command \<Rightarrow> reference_model \<Rightarrow> reference_model" where
  "rm_command (CmdSet k v) r = r\<lparr>rm_state := (rm_state r)(k \<mapsto> v)\<rparr>"
| "rm_command (CmdDelete k) r = r\<lparr>rm_state := (rm_state r)(k := None)\<rparr>"
| "rm_command CmdCompact r = r"
| "rm_command (CmdBeginTx i ops) r = r\<lparr>rm_pending := (rm_pending r)(i \<mapsto> ops)\<rparr>"
| "rm_command (CmdDecideTx i d) r =
     (case rm_pending r i of
        None \<Rightarrow> r
      | Some ops \<Rightarrow>
          let r = r\<lparr>rm_pending := (rm_pending r)(i := None)\<rparr>
          in if d = Commit then fold rm_tx_op ops r else r)"
| "rm_command (CmdGet k) r = r"
| "rm_command (CmdAddNode s) r = r"
| "rm_command (CmdRemoveNode n) r = r"
| "rm_command (CmdInstallConfiguration c) r = r"
| "rm_command (CmdAbortTx i) r = r"

definition rm_apply :: "nat \<Rightarrow> command \<Rightarrow> reference_model \<Rightarrow> bool \<times> reference_model" where
  "rm_apply index c r =
     (if index < rm_next_index r then (False, r)
      else if rm_next_index r < index then (False, r)
      else (True, rm_command c (r\<lparr>rm_next_index := rm_next_index r + 1\<rparr>)))"

definition get_log_entry_of :: "log_entry list \<Rightarrow> nat \<Rightarrow> log_entry option" where
  "get_log_entry_of log index =
     (if index = 0 then None else if index - 1 < length log then Some (log ! (index - 1)) else None)"

lemma rm_tx_op_next [simp]: "rm_next_index (rm_tx_op op r) = rm_next_index r"
  by (cases op) simp_all

lemma rm_tx_ops_next [simp]: "rm_next_index (fold rm_tx_op ops r) = rm_next_index r"
  by (induction ops arbitrary: r) simp_all

lemma rm_command_next [simp]: "rm_next_index (rm_command c r) = rm_next_index r"
  by (cases c) (simp_all add: Let_def split: option.splits)

text \<open>The loop shared by \<open>drain_to\<close> and \<open>replay_from_node\<close>.\<close>

function rm_drain :: "log_entry list \<Rightarrow> nat \<Rightarrow> nat \<Rightarrow> reference_model \<Rightarrow> nat \<times> reference_model" where
  "rm_drain log commit_index applied r =
     (if rm_next_index r \<le> commit_index then
        case get_log_entry_of log (rm_next_index r) of
          None \<Rightarrow> (applied, r)
        | Some e \<Rightarrow>
            (case rm_apply (rm_next_index r) (le_command e) r of
               (True, r') \<Rightarrow> rm_drain log commit_index (applied + 1) r'
             | (False, r') \<Rightarrow> (applied, r'))
      else (applied, r))"
  by pat_completeness auto
termination
  by (relation "measure (\<lambda>(log, ci, a, r). ci + 1 - rm_next_index r)")
    (auto simp: rm_apply_def split: if_splits)

declare rm_drain.simps [simp del]

definition drain_to :: "log_entry list option \<Rightarrow> nat \<Rightarrow> reference_model \<Rightarrow> nat \<times> reference_model" where
  "drain_to leader_log commit_index r = (case leader_log of
      None \<Rightarrow> (0, r)
    | Some log \<Rightarrow> rm_drain log commit_index 0 r)"

definition rm_get :: "reference_model \<Rightarrow> string \<Rightarrow> string option" where
  "rm_get r key = rm_state r key"

definition applied_index :: "reference_model \<Rightarrow> nat" where
  "applied_index r = rm_next_index r - 1"

definition rm_reset :: "reference_model \<Rightarrow> reference_model" where
  "rm_reset r = r\<lparr>rm_state := Map.empty, rm_pending := Map.empty, rm_next_index := 1\<rparr>"

definition replay_from_node :: "log_entry list \<Rightarrow> nat \<Rightarrow> reference_model \<Rightarrow> nat \<times> reference_model" where
  "replay_from_node log commit_index r = rm_drain log commit_index 0 (rm_reset r)"

definition replay_from_leader :: "log_entry list option \<Rightarrow> nat \<Rightarrow> reference_model \<Rightarrow> nat \<times> reference_model" where
  "replay_from_leader leader_log commit_index r = (case leader_log of
      None \<Rightarrow> (0, rm_reset r)
    | Some log \<Rightarrow> replay_from_node log commit_index r)"

section \<open>The model is a key-value machine\<close>

definition rm_exec :: "command \<Rightarrow> reference_model \<Rightarrow> reference_model" where
  "rm_exec c r = snd (rm_apply (rm_next_index r) c r)"

lemma rm_tx_ops_state:
  "rm_state (fold rm_tx_op ops r) = fold apply_op ops (rm_state r) \<and> rm_pending (fold rm_tx_op ops r) = rm_pending r"
proof (induction ops arbitrary: r)
  case (Cons op ops)
  then show ?case by (cases op) (simp_all add: fun_upd_def)
qed simp

lemma rm_exec_spec:
  "(rm_state (rm_exec c r), rm_pending (rm_exec c r)) = kv_spec c (rm_state r, rm_pending r)"
  by (cases c) (auto simp: rm_exec_def rm_apply_def rm_tx_ops_state Let_def split: option.splits)

interpretation reference: kv_machine "\<lambda>_. True" rm_state rm_pending rm_exec
  by unfold_locales (simp_all only: rm_exec_spec)

interpretation lsm_vs_reference: kv_machine_pair "sm_ok E" "sm_view E" sm_staged "sm_apply E"
    "\<lambda>_. True" rm_state rm_pending rm_exec for E
  by unfold_locales

lemma rm_drain_step:
  assumes "1 \<le> rm_next_index r" and "rm_next_index r \<le> commit_index" and "rm_next_index r \<le> length log"
  shows "rm_drain log commit_index a r =
    rm_drain log commit_index (a + 1) (rm_exec (le_command (log ! (rm_next_index r - 1))) r)"
  using assms by (subst rm_drain.simps) (auto simp: get_log_entry_of_def rm_exec_def rm_apply_def)

lemma rm_drain_runs:
  assumes "1 \<le> rm_next_index r"
  shows "rm_drain log commit_index a r =
     (a + (min commit_index (length log) - (rm_next_index r - 1)),
      fold rm_exec (map le_command (drop (rm_next_index r - 1) (take commit_index log))) r)"
  using assms
proof (induction "commit_index + 1 - rm_next_index r" arbitrary: a r rule: less_induct)
  case less
  let ?n = "rm_next_index r" and ?ci = commit_index
  show ?case
  proof (cases "?n \<le> ?ci \<and> ?n \<le> length log")
    case False
    then have "rm_drain log ?ci a r = (a, r)"
      using less.prems by (subst rm_drain.simps) (auto simp: get_log_entry_of_def)
    then show ?thesis using False less.prems by auto
  next
    case True
    let ?r = "rm_exec (le_command (log ! (?n - 1))) r"
    have nxt: "rm_next_index ?r = ?n + 1" by (simp add: rm_exec_def rm_apply_def)
    have "rm_drain log ?ci (a + 1) ?r =
        (a + 1 + (min ?ci (length log) - ?n), fold rm_exec (map le_command (drop ?n (take ?ci log))) ?r)"
      using less.hyps [of ?r "a + 1"] True nxt by (simp add: Suc_diff_le)
    moreover have "?n - 1 < length (take ?ci log)" using True less.prems by simp arith
    then have "drop (?n - 1) (take ?ci log) = log ! (?n - 1) # drop ?n (take ?ci log)"
      using Cons_nth_drop_Suc [of "?n - 1" "take ?ci log"] less.prems by simp
    ultimately show ?thesis
      using True less.prems rm_drain_step [of r ?ci log a] by (simp, linarith)
  qed
qed

text \<open>C8: The cross-check of the simulator is sound: replaying the committed prefix of a node's log
  in the reference model returns the number of replayed entries, and leaves exactly the map and
  the staged transactions that the LSM state machine holds after applying the commands of the same
  prefix from empty.\<close>

theorem lsm_refines_reference:
  assumes "sm_ok E s" and "sm_view E s = Map.empty" and "sm_staged s = Map.empty"
  shows "fst (replay_from_node log ci r) = min ci (length log) \<and>
    rm_state (snd (replay_from_node log ci r)) = sm_view E (fold (sm_apply E) (map le_command (take ci log)) s) \<and>
    rm_pending (snd (replay_from_node log ci r)) = sm_staged (fold (sm_apply E) (map le_command (take ci log)) s)"
proof -
  let ?r = "rm_reset r"
  have "1 \<le> rm_next_index ?r" by (simp add: rm_reset_def)
  note run = rm_drain_runs [OF this, of log ci 0]
  have "sm_view E s = rm_state ?r" and "sm_staged s = rm_pending ?r"
    using assms(2,3) by (simp_all add: rm_reset_def)
  from lsm_vs_reference.runs_agree [OF assms(1) TrueI this] run show ?thesis
    by (simp add: replay_from_node_def rm_reset_def)
qed

end
