(* ===== verification/Storage.thy ===== *)
theory Storage
  imports Protocol
begin

text \<open>
  The persistent state of a Raft node, \<open>src/raft/storage.rs\<close>: the write-ahead log, the
  file of the current term and vote, and the snapshot file. The encodings belong to
  \<open>bincode\<close> and \<open>serde_json\<close> and are the fields of \<open>raft_codec\<close>; what the code relies on
  is \<open>codec_ok\<close>: an encoded entry is read back, and the decoder refuses a torn one.

  The disk carries a plan of faults, one element per fallible system call to come: \<open>None\<close>
  succeeds, \<open>Some n\<close> fails, after \<open>n\<close> units when the call is a write to the log. Files
  that are replaced atomically (through a temporary file and a rename) change only when both
  calls succeed.
\<close>

section \<open>Definitions\<close>

record ('w, 'c) raft_codec =
  ser_entry :: "log_entry \<Rightarrow> 'w list"
  deser_entry :: "'w list \<Rightarrow> (log_entry \<times> 'w list) option"
  enc_meta_file :: "nat \<Rightarrow> string option \<Rightarrow> 'c"
  dec_meta_file :: "'c \<Rightarrow> (nat option \<times> string option) option"
  enc_snapshot :: "snapshot \<Rightarrow> 'c"
  dec_snapshot :: "'c \<Rightarrow> snapshot option"

record ('w, 'c) raft_storage =
  wal :: "'w list option"
  meta_file :: "'c option"
  snapshot_file :: "'c option"
  io_plan :: "nat option list"

definition sys_call :: "('w, 'c) raft_storage \<Rightarrow> (unit, ('w, 'c) raft_storage) io_res" where
  "sys_call s = (case io_plan s of
      [] \<Rightarrow> (Inr (), s)
    | None # fs \<Rightarrow> (Inr (), s\<lparr>io_plan := fs\<rparr>)
    | Some _ # fs \<Rightarrow> (Inl IoOther, s\<lparr>io_plan := fs\<rparr>))"

text \<open>\<open>write_all\<close> on the log opened for appending: a failure may leave a prefix behind.\<close>

definition write_wal :: "'w list \<Rightarrow> ('w, 'c) raft_storage \<Rightarrow> (unit, ('w, 'c) raft_storage) io_res" where
  "write_wal bytes s =
     (let old = (case wal s of None \<Rightarrow> [] | Some b \<Rightarrow> b) in
      case io_plan s of
        [] \<Rightarrow> (Inr (), s\<lparr>wal := Some (old @ bytes)\<rparr>)
      | None # fs \<Rightarrow> (Inr (), s\<lparr>wal := Some (old @ bytes), io_plan := fs\<rparr>)
      | Some n # fs \<Rightarrow> (Inl IoOther, s\<lparr>wal := Some (old @ take n bytes), io_plan := fs\<rparr>))"

text \<open>\<open>OpenOptions::create(true)\<close>: the file exists once the call has succeeded.\<close>

definition create_wal :: "('w, 'c) raft_storage \<Rightarrow> ('w, 'c) raft_storage" where
  "create_wal s = s\<lparr>wal := Some (case wal s of None \<Rightarrow> [] | Some b \<Rightarrow> b)\<rparr>"

definition append_wal_log :: "('w, 'c) raft_codec \<Rightarrow> log_entry \<Rightarrow> ('w, 'c) raft_storage
    \<Rightarrow> (unit, ('w, 'c) raft_storage) io_res" where
  "append_wal_log C entry s =
     try_then (sys_call s) (\<lambda>_ s.
     try_then (write_wal (ser_entry C entry) (create_wal s)) (\<lambda>_ s.
       sys_call s))"

definition wal_size_bytes :: "('w, 'c) raft_storage \<Rightarrow> nat" where
  "wal_size_bytes s = (case wal s of None \<Rightarrow> 0 | Some b \<Rightarrow> length b)"

text \<open>
  The loop of \<open>restore_wal_log\<close>. Every decoded entry consumes input, so as many rounds as
  there are bytes are enough (\<open>restore_loop_enough\<close>).
\<close>

fun restore_loop :: "nat \<Rightarrow> ('w, 'c) raft_codec \<Rightarrow> 'w list \<Rightarrow> log_entry list" where
  "restore_loop 0 C bs = []"
| "restore_loop (Suc n) C bs = (case deser_entry C bs of
      None \<Rightarrow> []
    | Some (e, rest) \<Rightarrow> e # restore_loop n C rest)"

definition restore_wal_log :: "('w, 'c) raft_codec \<Rightarrow> ('w, 'c) raft_storage \<Rightarrow> log_entry list" where
  "restore_wal_log C s = (case wal s of None \<Rightarrow> [] | Some bs \<Rightarrow> restore_loop (length bs) C bs)"

definition save_meta :: "('w, 'c) raft_codec \<Rightarrow> nat \<Rightarrow> string option \<Rightarrow> ('w, 'c) raft_storage
    \<Rightarrow> (unit, ('w, 'c) raft_storage) io_res" where
  "save_meta C trm vote s =
     try_then (sys_call s) (\<lambda>_ s.
     try_then (sys_call s) (\<lambda>_ s.
       (Inr (), s\<lparr>meta_file := Some (enc_meta_file C trm vote)\<rparr>)))"

definition read_meta :: "('w, 'c) raft_codec \<Rightarrow> ('w, 'c) raft_storage \<Rightarrow> nat \<times> string option" where
  "read_meta C s = (case meta_file s of
      None \<Rightarrow> (0, None)
    | Some content \<Rightarrow> (case dec_meta_file C content of
        None \<Rightarrow> (0, None)
      | Some (trm, vote) \<Rightarrow> (case trm of None \<Rightarrow> 0 | Some t \<Rightarrow> t, vote)))"

definition load_initial_state :: "('w, 'c) raft_codec \<Rightarrow> ('w, 'c) raft_storage
    \<Rightarrow> nat \<times> string option \<times> log_entry list" where
  "load_initial_state C s = (fst (read_meta C s), snd (read_meta C s), restore_wal_log C s)"

definition save_snapshot :: "('w, 'c) raft_codec \<Rightarrow> snapshot \<Rightarrow> ('w, 'c) raft_storage
    \<Rightarrow> (unit, ('w, 'c) raft_storage) io_res" where
  "save_snapshot C snap s =
     try_then (sys_call s) (\<lambda>_ s.
     try_then (sys_call s) (\<lambda>_ s.
       (Inr (), s\<lparr>snapshot_file := Some (enc_snapshot C snap)\<rparr>)))"

definition load_snapshot :: "('w, 'c) raft_codec \<Rightarrow> ('w, 'c) raft_storage \<Rightarrow> snapshot option" where
  "load_snapshot C s = (case snapshot_file s of None \<Rightarrow> None | Some content \<Rightarrow> dec_snapshot C content)"

text \<open>The writes of the entries to the temporary file; only their failure is visible.\<close>

fun write_temp :: "log_entry list \<Rightarrow> ('w, 'c) raft_storage \<Rightarrow> (unit, ('w, 'c) raft_storage) io_res" where
  "write_temp [] s = (Inr (), s)"
| "write_temp (e # es) s = try_then (sys_call s) (\<lambda>_ s. write_temp es s)"

definition rewrite_wal_after_snapshot :: "('w, 'c) raft_codec \<Rightarrow> nat \<Rightarrow> ('w, 'c) raft_storage
    \<Rightarrow> (nat, ('w, 'c) raft_storage) io_res" where
  "rewrite_wal_after_snapshot C snapshot_index s =
     (let entries = filter (\<lambda>e. snapshot_index < le_index e) (restore_wal_log C s) in
      try_then (sys_call s) (\<lambda>_ s.
      try_then (write_temp entries s) (\<lambda>_ s.
      try_then (sys_call s) (\<lambda>_ s.
      try_then (sys_call s) (\<lambda>_ s.
        (Inr (length entries), s\<lparr>wal := Some (concat (map (ser_entry C) entries))\<rparr>))))))"

section \<open>What the codecs promise\<close>

definition codec_ok :: "('w, 'c) raft_codec \<Rightarrow> bool" where
  "codec_ok C \<longleftrightarrow>
     (\<forall>e rest. deser_entry C (ser_entry C e @ rest) = Some (e, rest)) \<and>
     (\<forall>bs e rest. deser_entry C bs = Some (e, rest) \<longrightarrow> length rest < length bs) \<and>
     (\<forall>e n. n < length (ser_entry C e) \<longrightarrow> deser_entry C (take n (ser_entry C e)) = None) \<and>
     (\<forall>t v. dec_meta_file C (enc_meta_file C t v) = Some (Some t, v)) \<and>
     (\<forall>sn. dec_snapshot C (enc_snapshot C sn) = Some sn)"

lemma codec_okD:
  assumes "codec_ok C"
  shows "deser_entry C (ser_entry C e @ rest) = Some (e, rest)"
    and "deser_entry C bs = Some (e, rest') \<Longrightarrow> length rest' < length bs"
    and "n < length (ser_entry C e) \<Longrightarrow> deser_entry C (take n (ser_entry C e)) = None"
    and "dec_meta_file C (enc_meta_file C t v) = Some (Some t, v)"
    and "dec_snapshot C (enc_snapshot C sn) = Some sn"
  using assms unfolding codec_ok_def by blast+

lemma ser_entry_not_Nil: "codec_ok C \<Longrightarrow> ser_entry C e \<noteq> []"
  using codec_okD(1) [of C e "[]"] codec_okD(2) [of C "[]" e] by fastforce

lemma deser_Nil: "codec_ok C \<Longrightarrow> deser_entry C [] = None"
  using codec_okD(3) [of C 0 undefined] ser_entry_not_Nil [of C undefined] by simp

text \<open>More rounds than bytes change nothing.\<close>

lemma restore_loop_enough:
  "codec_ok C \<Longrightarrow> length bs \<le> n \<Longrightarrow> restore_loop n C bs = restore_loop (length bs) C bs"
proof (induction "length bs" arbitrary: n bs rule: less_induct)
  case less
  show ?case
  proof (cases "deser_entry C bs")
    case None
    then show ?thesis by (cases n; cases "length bs") simp_all
  next
    case (Some p)
    obtain e rest where p: "p = (e, rest)" by fastforce
    have shorter: "length rest < length bs" using codec_okD(2) [OF less.prems(1)] Some p by blast
    then obtain m where m: "length bs = Suc m" "length rest \<le> m" by (cases "length bs") auto
    then obtain n' where n': "n = Suc n'" "m \<le> n'" using less.prems(2) by (cases n) auto
    have "restore_loop n' C rest = restore_loop m C rest"
      using less.hyps [OF shorter less.prems(1)] m(2) n'(2) by (metis le_trans)
    then show ?thesis by (simp add: m(1) n'(1) Some p)
  qed
qed

definition restore_bytes :: "('w, 'c) raft_codec \<Rightarrow> 'w list \<Rightarrow> log_entry list" where
  "restore_bytes C bs = restore_loop (length bs) C bs"

lemma restore_bytes_Cons:
  assumes "codec_ok C"
  shows "restore_bytes C (ser_entry C e @ rest) = e # restore_bytes C rest"
proof -
  obtain m where m: "length (ser_entry C e @ rest) = Suc m" "length rest \<le> m"
    using ser_entry_not_Nil [OF assms, of e] by (cases "ser_entry C e") auto
  show ?thesis
    using restore_loop_enough [OF assms m(2)] unfolding restore_bytes_def m(1)
    by (simp add: codec_okD(1) [OF assms])
qed

lemma restore_bytes_stop: "deser_entry C bs = None \<Longrightarrow> restore_bytes C bs = []"
  unfolding restore_bytes_def by (cases "length bs") simp_all

lemma restore_bytes_concat:
  "codec_ok C \<Longrightarrow> restore_bytes C (concat (map (ser_entry C) es) @ rest) = es @ restore_bytes C rest"
  by (induction es) (simp_all add: restore_bytes_Cons)

lemma restore_bytes_Nil: "codec_ok C \<Longrightarrow> restore_bytes C [] = []"
  by (simp add: restore_bytes_def)

section \<open>The contract of the log on disk\<close>

text \<open>The log file is a sequence of whole entries, and no fault is to come.\<close>

definition wal_holds :: "('w, 'c) raft_codec \<Rightarrow> ('w, 'c) raft_storage \<Rightarrow> log_entry list \<Rightarrow> bool" where
  "wal_holds C s es \<longleftrightarrow> (case wal s of None \<Rightarrow> es = [] | Some b \<Rightarrow> b = concat (map (ser_entry C) es))"

definition plan_ok :: "('w, 'c) raft_storage \<Rightarrow> bool" where
  "plan_ok s \<longleftrightarrow> list_all (\<lambda>f. f = None) (io_plan s)"

definition store_ok :: "('w, 'c) raft_codec \<Rightarrow> ('w, 'c) raft_storage \<Rightarrow> bool" where
  "store_ok C s \<longleftrightarrow> codec_ok C \<and> plan_ok s \<and> wal_holds C s (restore_wal_log C s)"

lemma restore_wal_holds: "codec_ok C \<Longrightarrow> wal_holds C s es \<Longrightarrow> restore_wal_log C s = es"
  using restore_bytes_concat [of C es "[]"]
  by (auto simp: wal_holds_def restore_wal_log_def restore_bytes_def split: option.splits)

lemma store_okI: "codec_ok C \<Longrightarrow> plan_ok s \<Longrightarrow> wal_holds C s es \<Longrightarrow> store_ok C s"
  using restore_wal_holds by (metis store_ok_def)

lemma sys_call_ok: "plan_ok s \<Longrightarrow> sys_call s = (Inr (), s\<lparr>io_plan := tl (io_plan s)\<rparr>)"
  by (cases "io_plan s") (auto simp: sys_call_def plan_ok_def)

lemma plan_ok_tl [simp]: "plan_ok s \<Longrightarrow> list_all (\<lambda>f. f = None) (tl (io_plan s))"
  by (cases "io_plan s") (auto simp: plan_ok_def)

lemma write_wal_ok:
  "plan_ok s \<Longrightarrow> write_wal bs s = (Inr (), s\<lparr>wal := Some ((case wal s of None \<Rightarrow> [] | Some b \<Rightarrow> b) @ bs),
     io_plan := tl (io_plan s)\<rparr>)"
  by (cases "io_plan s") (auto simp: write_wal_def plan_ok_def Let_def)

lemma append_wal_log_ok:
  assumes "plan_ok s"
  obtains fs where "list_all (\<lambda>f. f = None) fs"
    and "append_wal_log C e s = (Inr (), s\<lparr>wal := Some ((case wal s of None \<Rightarrow> [] | Some b \<Rightarrow> b) @ ser_entry C e),
      io_plan := fs\<rparr>)"
proof -
  let ?s1 = "create_wal (s\<lparr>io_plan := tl (io_plan s)\<rparr>)"
  have 1: "plan_ok ?s1" using assms by (simp add: plan_ok_def create_wal_def list.pred_set) (metis list.set_sel(2) tl_Nil)
  let ?s2 = "?s1\<lparr>wal := Some ((case wal ?s1 of None \<Rightarrow> [] | Some b \<Rightarrow> b) @ ser_entry C e), io_plan := tl (io_plan ?s1)\<rparr>"
  have 2: "plan_ok ?s2" using plan_ok_tl [OF 1] by (simp add: plan_ok_def)
  have "append_wal_log C e s = (Inr (), ?s2\<lparr>io_plan := tl (io_plan ?s2)\<rparr>)"
    by (simp add: append_wal_log_def sys_call_ok [OF assms] write_wal_ok [OF 1] sys_call_ok [OF 2])
  with plan_ok_tl [OF 2] show ?thesis
    by (intro that [of "tl (io_plan ?s2)"]) (simp_all add: create_wal_def)
qed

locale durable_log =
  fixes good :: "'s \<Rightarrow> bool"
    and load :: "'s \<Rightarrow> 'e list"
    and append :: "'e \<Rightarrow> 's \<Rightarrow> (unit, 's) io_res"
  assumes append_good: "good s \<Longrightarrow> \<exists>s'. append e s = (Inr (), s') \<and> good s' \<and> load s' = load s @ [e]"
begin

lemma append_snd: "good s \<Longrightarrow> good (snd (append e s)) \<and> load (snd (append e s)) = load s @ [e]"
  using append_good [of s e] by auto

lemma append_all: "good s \<Longrightarrow>
  good (fold (\<lambda>e s. snd (append e s)) es s) \<and> load (fold (\<lambda>e s. snd (append e s)) es s) = load s @ es"
proof (induction es arbitrary: s)
  case (Cons e es)
  from append_snd [OF Cons.prems, of e] Cons.IH [of "snd (append e s)"] show ?case by simp
qed simp

end

lemma append_wal_log_good:
  assumes "store_ok C s"
  shows "\<exists>s'. append_wal_log C e s = (Inr (), s') \<and> store_ok C s' \<and>
    restore_wal_log C s' = restore_wal_log C s @ [e]"
proof -
  have ok: "codec_ok C" "plan_ok s" "wal_holds C s (restore_wal_log C s)"
    using assms by (simp_all add: store_ok_def)
  from append_wal_log_ok [OF ok(2), of C e] obtain fs where fs: "list_all (\<lambda>f. f = None) fs" and
    eq: "append_wal_log C e s = (Inr (), s\<lparr>wal := Some ((case wal s of None \<Rightarrow> [] | Some b \<Rightarrow> b) @ ser_entry C e),
      io_plan := fs\<rparr>)" by blast
  let ?s = "s\<lparr>wal := Some ((case wal s of None \<Rightarrow> [] | Some b \<Rightarrow> b) @ ser_entry C e), io_plan := fs\<rparr>"
  have "wal_holds C ?s (restore_wal_log C s @ [e])" "plan_ok ?s"
    using ok(3) fs by (auto simp: wal_holds_def plan_ok_def split: option.splits)
  with ok(1) eq show ?thesis using restore_wal_holds store_okI by metis
qed

interpretation raft_wal: durable_log "store_ok C" "restore_wal_log C" "append_wal_log C" for C
  by unfold_locales (rule append_wal_log_good)

section \<open>Term, vote and snapshot files\<close>

lemma plan_ok_step: "plan_ok s \<Longrightarrow> plan_ok (s\<lparr>io_plan := tl (io_plan s)\<rparr>)"
  using plan_ok_tl by (simp add: plan_ok_def)

lemma save_meta_ok:
  assumes "plan_ok s"
  obtains fs where "list_all (\<lambda>f. f = None) fs"
    and "save_meta C t v s = (Inr (), s\<lparr>io_plan := fs, meta_file := Some (enc_meta_file C t v)\<rparr>)"
proof -
  let ?s = "s\<lparr>io_plan := tl (io_plan s)\<rparr>"
  have 1: "plan_ok ?s" by (rule plan_ok_step [OF assms])
  show ?thesis
    by (rule that [OF plan_ok_tl [OF 1]]) (simp add: save_meta_def sys_call_ok [OF assms] sys_call_ok [OF 1])
qed

lemma save_meta_frame [frame_simps]:
  "wal (snd (save_meta C t v s)) = wal s" "snapshot_file (snd (save_meta C t v s)) = snapshot_file s"
  "restore_wal_log C (snd (save_meta C t v s)) = restore_wal_log C s"
  by (auto simp: save_meta_def sys_call_def restore_wal_log_def split: list.splits option.splits)

lemma save_meta_good:
  assumes "store_ok C s"
  shows "store_ok C (snd (save_meta C t v s)) \<and> read_meta C (snd (save_meta C t v s)) = (t, v)"
proof -
  have ok: "codec_ok C" "plan_ok s" "wal_holds C s (restore_wal_log C s)"
    using assms by (simp_all add: store_ok_def)
  from save_meta_ok [OF ok(2), of C t v] obtain fs where fs: "list_all (\<lambda>f. f = None) fs" and
    eq: "save_meta C t v s = (Inr (), s\<lparr>io_plan := fs, meta_file := Some (enc_meta_file C t v)\<rparr>)" by blast
  have "read_meta C (snd (save_meta C t v s)) = (t, v)"
    by (simp add: eq read_meta_def codec_okD(4) [OF ok(1)])
  moreover have "wal_holds C (snd (save_meta C t v s)) (restore_wal_log C s)" "plan_ok (snd (save_meta C t v s))"
    using ok(3) fs by (simp_all add: eq wal_holds_def plan_ok_def)
  ultimately show ?thesis using store_okI [OF ok(1)] by blast
qed

lemma read_meta_append [frame_simps]: "read_meta C (snd (append_wal_log C e s)) = read_meta C s"
  by (auto simp: append_wal_log_def sys_call_def write_wal_def create_wal_def read_meta_def Let_def
      split: list.splits option.splits)

lemma save_snapshot_good:
  assumes "store_ok C s"
  shows "fst (save_snapshot C sn s) = Inr () \<and> store_ok C (snd (save_snapshot C sn s)) \<and>
    load_snapshot C (snd (save_snapshot C sn s)) = Some sn \<and>
    restore_wal_log C (snd (save_snapshot C sn s)) = restore_wal_log C s \<and>
    read_meta C (snd (save_snapshot C sn s)) = read_meta C s"
proof -
  let ?s1 = "s\<lparr>io_plan := tl (io_plan s)\<rparr>"
  let ?s2 = "?s1\<lparr>io_plan := tl (io_plan ?s1), snapshot_file := Some (enc_snapshot C sn)\<rparr>"
  have ok: "codec_ok C" "plan_ok s" "wal_holds C s (restore_wal_log C s)"
    using assms by (simp_all add: store_ok_def)
  note 1 = plan_ok_step [OF ok(2)]
  have eq: "save_snapshot C sn s = (Inr (), ?s2)"
    by (simp add: save_snapshot_def sys_call_ok [OF ok(2)] sys_call_ok [OF 1])
  have "wal_holds C ?s2 (restore_wal_log C s)" "plan_ok ?s2"
    using ok(3) plan_ok_tl [OF 1] by (simp_all add: wal_holds_def plan_ok_def)
  then show ?thesis
    using store_okI [OF ok(1)] by (simp add: eq load_snapshot_def codec_okD(5) [OF ok(1)] read_meta_def
        restore_wal_log_def)
qed

lemma write_temp_ok: "plan_ok s \<Longrightarrow> \<exists>fs. list_all (\<lambda>f. f = None) fs \<and> write_temp es s = (Inr (), s\<lparr>io_plan := fs\<rparr>)"
proof (induction es arbitrary: s)
  case Nil
  then show ?case by (auto simp: plan_ok_def intro!: exI [of _ "io_plan s"])
next
  case (Cons e es)
  from Cons.IH [OF plan_ok_step [OF Cons.prems]] show ?case by (simp add: sys_call_ok [OF Cons.prems])
qed

lemma rewrite_wal_good:
  fixes i :: nat
  assumes "store_ok C s"
  defines "kept \<equiv> filter (\<lambda>e. i < le_index e) (restore_wal_log C s)"
  shows "fst (rewrite_wal_after_snapshot C i s) = Inr (length kept) \<and>
    store_ok C (snd (rewrite_wal_after_snapshot C i s)) \<and>
    restore_wal_log C (snd (rewrite_wal_after_snapshot C i s)) = kept \<and>
    read_meta C (snd (rewrite_wal_after_snapshot C i s)) = read_meta C s \<and>
    load_snapshot C (snd (rewrite_wal_after_snapshot C i s)) = load_snapshot C s"
proof -
  have ok: "codec_ok C" "plan_ok s" using assms(1) by (simp_all add: store_ok_def)
  note 1 = plan_ok_step [OF ok(2)]
  from write_temp_ok [OF 1, of kept] obtain fs where fs: "list_all (\<lambda>f. f = None) fs"
    and wt: "write_temp kept (s\<lparr>io_plan := tl (io_plan s)\<rparr>) = (Inr (), s\<lparr>io_plan := fs\<rparr>)" by auto
  have 2: "plan_ok (s\<lparr>io_plan := fs\<rparr>)" using fs by (simp add: plan_ok_def)
  note 3 = plan_ok_step [OF 2]
  let ?s = "s\<lparr>io_plan := tl (tl fs), wal := Some (concat (map (ser_entry C) kept))\<rparr>"
  have eq: "rewrite_wal_after_snapshot C i s = (Inr (length kept), ?s)"
    using sys_call_ok [OF 2] sys_call_ok [OF 3]
    by (simp add: rewrite_wal_after_snapshot_def kept_def [symmetric] sys_call_ok [OF ok(2)] wt)
  have "wal_holds C ?s kept" "plan_ok ?s"
    using plan_ok_tl [OF 3] by (simp_all add: wal_holds_def plan_ok_def)
  then show ?thesis
    using store_okI [OF ok(1)] restore_wal_holds [OF ok(1)] by (simp add: eq read_meta_def load_snapshot_def)
qed

text \<open>C33: What a node persists is what it loads: the entries appended to a log file come back in
  order behind those that were there, the last term and vote saved are read back, and the log
  rewritten after a snapshot holds exactly the entries above its index.\<close>

theorem storage_roundtrip:
  assumes "store_ok C s"
  shows "restore_wal_log C (fold (\<lambda>e s. snd (append_wal_log C e s)) es s) = restore_wal_log C s @ es \<and>
    load_initial_state C (snd (save_meta C trm vote s)) = (trm, vote, restore_wal_log C s) \<and>
    load_snapshot C (snd (save_snapshot C sn s)) = Some sn \<and>
    restore_wal_log C (snd (rewrite_wal_after_snapshot C i s)) = filter (\<lambda>e. i < le_index e) (restore_wal_log C s)"
  using raft_wal.append_all [OF assms, of es] save_meta_good [OF assms, of trm vote]
    save_snapshot_good [OF assms, of sn] rewrite_wal_good [OF assms, of i]
  by (simp add: load_initial_state_def frame_simps)

text \<open>The log file after an append: whole on success, with a prefix of the new bytes on failure.\<close>

lemma append_wal_log_cases:
  defines "old \<equiv> \<lambda>s. case wal s of None \<Rightarrow> [] | Some b \<Rightarrow> b"
  shows "(fst (append_wal_log C e s) = Inr () \<and> wal (snd (append_wal_log C e s)) = Some (old s @ ser_entry C e)) \<or>
    (fst (append_wal_log C e s) = Inl IoOther \<and>
      (wal (snd (append_wal_log C e s)) = wal s \<or>
       (\<exists>n. wal (snd (append_wal_log C e s)) = Some (old s @ take n (ser_entry C e)))))"
proof -
  have "Some (old s @ ser_entry C e) = Some (old s @ take (length (ser_entry C e)) (ser_entry C e))" by simp
  then show ?thesis
    unfolding append_wal_log_def sys_call_def write_wal_def create_wal_def old_def Let_def
    by (auto simp: try_then_def split: list.splits option.splits)
      (metis append_Nil2 append.left_neutral take_all order_refl)+
qed

text \<open>A failed append never damages what was on disk: whichever system call fails, and however
  many bytes a failed write left behind, the log reads back as before, or with the new entry
  when its bytes were complete; a successful append always reads back with the new entry.\<close>

theorem append_crash_safe:
  assumes "codec_ok C" and "wal_holds C s es"
  shows "restore_wal_log C (snd (append_wal_log C e s)) = es @ [e] \<or>
    fst (append_wal_log C e s) \<noteq> Inr () \<and> restore_wal_log C (snd (append_wal_log C e s)) = es"
proof -
  let ?r = "append_wal_log C e s" and ?old = "concat (map (ser_entry C) es)"
  have tail: "restore_bytes C (?old @ take n (ser_entry C e)) = (if length (ser_entry C e) \<le> n then es @ [e] else es)" for n
    using restore_bytes_concat [OF assms(1), of es "take n (ser_entry C e)"]
      restore_bytes_Cons [OF assms(1), of e "[]"] restore_bytes_Nil [OF assms(1)]
      restore_bytes_stop [OF codec_okD(3) [OF assms(1), of n e]] by auto
  have old: "(case wal s of None \<Rightarrow> [] | Some b \<Rightarrow> b) = ?old"
    using assms(2) by (auto simp: wal_holds_def split: option.splits)
  have read: "wal s' = Some bs \<Longrightarrow> restore_wal_log C s' = restore_bytes C bs"
    and same: "wal s' = wal s \<Longrightarrow> restore_wal_log C s' = es" for s' bs
    using restore_wal_holds [OF assms] by (simp_all add: restore_wal_log_def restore_bytes_def)
  show ?thesis
    using append_wal_log_cases [of C e s] tail [of "length (ser_entry C e)"] tail read same
    unfolding old by auto
qed

section \<open>A concrete codec\<close>

text \<open>Two units per entry, so that an entry can be torn.\<close>

datatype wal_unit = EntryUnit log_entry | EndUnit
datatype raft_doc = MetaFile nat "string option" | SnapFile snapshot

fun unit_deser :: "wal_unit list \<Rightarrow> (log_entry \<times> wal_unit list) option" where
  "unit_deser (EntryUnit e # EndUnit # rest) = Some (e, rest)"
| "unit_deser _ = None"

definition unit_codec :: "(wal_unit, raft_doc) raft_codec" where
  "unit_codec = \<lparr>ser_entry = (\<lambda>e. [EntryUnit e, EndUnit]), deser_entry = unit_deser,
     enc_meta_file = MetaFile,
     dec_meta_file = (\<lambda>d. case d of MetaFile t v \<Rightarrow> Some (Some t, v) | _ \<Rightarrow> None),
     enc_snapshot = SnapFile, dec_snapshot = (\<lambda>d. case d of SnapFile s \<Rightarrow> Some s | _ \<Rightarrow> None)\<rparr>"

definition empty_store :: "nat option list \<Rightarrow> (wal_unit, raft_doc) raft_storage" where
  "empty_store plan = \<lparr>wal = None, meta_file = None, snapshot_file = None, io_plan = plan\<rparr>"

lemma unit_deser_shorter: "unit_deser bs = Some (e, rest) \<Longrightarrow> length rest < length bs"
  by (induction bs rule: unit_deser.induct) auto

lemma unit_codec_ok: "codec_ok unit_codec"
  by (auto simp: codec_ok_def unit_codec_def unit_deser_shorter less_Suc_eq)

lemma empty_store_ok: "store_ok unit_codec (empty_store [])"
  by (rule store_okI [OF unit_codec_ok, of _ "[]"]) (simp_all add: plan_ok_def wal_holds_def empty_store_def)

definition entry :: "nat \<Rightarrow> nat \<Rightarrow> command \<Rightarrow> log_entry" where
  "entry t i c = \<lparr>le_term = t, le_index = i, le_command = c\<rparr>"

theorem storage_roundtrip_witness:
  "restore_wal_log unit_codec (fold (\<lambda>e s. snd (append_wal_log unit_codec e s))
     [entry 1 1 CmdCompact, entry 1 2 (CmdDelete ''k'')] (empty_store [])) =
   [entry 1 1 CmdCompact, entry 1 2 (CmdDelete ''k'')]"
proof -
  have "restore_wal_log unit_codec (empty_store []) = []" by code_simp
  with storage_roundtrip [OF empty_store_ok] show ?thesis by (metis append_Nil)
qed

theorem append_crash_safe_witness:
  "restore_wal_log unit_codec (snd (append_wal_log unit_codec (entry 1 1 CmdCompact) (empty_store [None, Some 1]))) = []"
proof -
  have "wal_holds unit_codec (empty_store [None, Some 1]) []" by (simp add: wal_holds_def empty_store_def)
  from append_crash_safe [OF unit_codec_ok this, of "entry 1 1 CmdCompact"]
  show ?thesis by (auto simp: append_wal_log_def sys_call_def write_wal_def create_wal_def empty_store_def
      unit_codec_def restore_wal_log_def)
qed

definition torn_then_appended :: "(unit, (wal_unit, raft_doc) raft_storage) io_res" where
  "torn_then_appended =
     append_wal_log unit_codec (entry 1 1 (CmdSet ''k'' ''v''))
       (snd (append_wal_log unit_codec (entry 1 1 CmdCompact) (empty_store [None, Some 1])))"

text \<open>The log file is never repaired after a torn append: an entry whose append succeeds later
  stands behind the torn bytes, and a restart does not read it back.\<close>

theorem append_after_torn_write_lost:
  "fst torn_then_appended = Inr () \<and> restore_wal_log unit_codec (snd torn_then_appended) = []"
  by code_simp

end
