(* ===== verification/Rpc.thy ===== *)
theory Rpc
  imports Protocol
begin

text \<open>
  The messages of \<open>src/raft/rpc.rs\<close> and of the vote side channel of two-phase commit,
  \<open>src/coordination.rs\<close>.
\<close>

record request_vote_args =
  rv_term :: nat
  candidate_id :: string
  rv_last_log_index :: nat
  rv_last_log_term :: nat

record vote_response_args =
  vr_term :: nat
  vote_granted :: bool

record append_entries_args =
  ae_term :: nat
  ae_leader_id :: string
  prev_log_index :: nat
  prev_log_term :: nat
  ae_entries :: "log_entry list"
  leader_commit :: nat

record append_reply_args =
  ar_term :: nat
  ar_success :: bool

record install_snapshot_args =
  is_term :: nat
  is_leader_id :: string
  is_last_included_index :: nat
  is_last_included_term :: nat
  is_snapshot :: snapshot

record install_snapshot_reply_args =
  isr_term :: nat

record join_cluster_request =
  candidate_addr :: string

record join_cluster_response =
  jc_accepted :: bool
  jc_term :: nat
  jc_leader_addr :: string
  jc_peer_addrs :: "string list"
  jc_reason :: string

datatype raft_message =
    RequestVote request_vote_args
  | VoteResponse vote_response_args
  | AppendEntries append_entries_args
  | AppendReply append_reply_args
  | InstallSnapshot install_snapshot_args
  | InstallSnapshotReply install_snapshot_reply_args
  | RequestPreVote request_vote_args
  | PreVoteResponse vote_response_args
  | JoinCluster join_cluster_request
  | JoinClusterResponse join_cluster_response

record tx_vote_request =
  tv_term :: nat
  tv_tx_id :: string
  tv_last_log_index :: nat
  tv_last_log_term :: nat

record tx_vote_response =
  tvr_term :: nat
  tvr_granted :: bool
  tvr_reason :: string

end
