(* ===== verification/Node.thy ===== *)
theory Node
  imports ReferenceModel Storage Rpc
begin

text \<open>
  The Raft node of \<open>src/raft/node.rs\<close>, one definition per method in the order of the source.
  A node owns its state machine and its storage; the wall clock is the argument \<open>now\<close> (in
  milliseconds) of the methods that read it, the codecs come with the record \<open>node_env\<close>.
  Metrics and log output are left out. Methods that talk to peers (\<open>sync_logs\<close>,
  \<open>request_votes\<close>, \<open>become_pre_candidate\<close>) return the messages they send; the closures that
  handle the replies are definitions of their own (\<open>append_reply_handler\<close>,
  \<open>vote_reply_handler\<close>, \<open>process_pre_vote_reply\<close>). Where the source panics the result is
  \<open>None\<close>.
\<close>

section \<open>Data\<close>

datatype node_state = Follower | Candidate | Leader | PreCandidate

record ('b, 'w, 'c) node_env =
  sm_env_of :: "'b sm_env"
  codec_of :: "('w, 'c) raft_codec"

record ('b, 'w, 'c) raft_node =
  state_machine_of :: "'b state_machine"
  current_term :: nat
  vote_for :: "string option"
  storage :: "('w, 'c) raft_storage"
  log :: "log_entry list"
  state :: node_state
  node_id :: string
  peers :: "string list"
  commit_index :: nat
  last_applied :: nat
  last_heartbeat :: nat
  last_quorum_heartbeat_at :: "nat option"
  next_index :: "string \<rightharpoonup> nat"
  match_index :: "string \<rightharpoonup> nat"
  current_config :: configuration
  pending_post_joint_simple :: "configuration option"

section \<open>Construction\<close>

definition server :: "string \<Rightarrow> server_id" where
  "server a = \<lparr>node_id_of = a, addr_of_server = a\<rparr>"

definition new_node :: "('b, 'w, 'c) node_env \<Rightarrow> nat \<Rightarrow> string \<Rightarrow> string list \<Rightarrow> 'b state_machine
    \<Rightarrow> ('w, 'c) raft_storage \<Rightarrow> ('b, 'w, 'c) raft_node" where
  "new_node V now raft_addr ps sm st =
     (case load_initial_state (codec_of V) st of (trm, vote, logs) \<Rightarrow>
      \<lparr>state_machine_of = sm, current_term = trm, vote_for = vote, storage = st, log = logs,
       state = Follower, node_id = raft_addr, peers = ps, commit_index = 0, last_applied = 0,
       last_heartbeat = now, last_quorum_heartbeat_at = None,
       next_index = Map.empty, match_index = Map.empty,
       current_config = Simple (server raft_addr # map server ps), pending_post_joint_simple = None\<rparr>)"

definition restore_from_snapshot :: "('b, 'w, 'c) node_env \<Rightarrow> ('b, 'w, 'c) raft_node
    \<Rightarrow> ((nat \<times> nat) option \<times> ('b, 'w, 'c) raft_node) option" where
  "restore_from_snapshot V n = (case load_snapshot (codec_of V) (storage n) of
      None \<Rightarrow> Some (None, n)
    | Some snap \<Rightarrow> (case install_snapshot (snap_data snap) (state_machine_of n) of
        (Inl _, _) \<Rightarrow> None
      | (Inr _, sm) \<Rightarrow>
          Some (Some (last_included_index snap, last_included_term snap),
                n\<lparr>state_machine_of := sm,
                  commit_index := max (commit_index n) (last_included_index snap),
                  last_applied := max (last_applied n) (last_included_index snap)\<rparr>)))"

definition is_single_node :: "('b, 'w, 'c) raft_node \<Rightarrow> bool" where
  "is_single_node n \<longleftrightarrow> peers n = []"

definition get_log_entry :: "('b, 'w, 'c) raft_node \<Rightarrow> nat \<Rightarrow> log_entry option" where
  "get_log_entry n index = get_log_entry_of (log n) index"

definition set_peers :: "string list \<Rightarrow> ('b, 'w, 'c) raft_node \<Rightarrow> ('b, 'w, 'c) raft_node" where
  "set_peers ps n = n\<lparr>current_config := Simple (server (node_id n) # map server ps), peers := ps\<rparr>"

definition match_index_for :: "('b, 'w, 'c) raft_node \<Rightarrow> string \<Rightarrow> nat" where
  "match_index_for n peer = (case match_index n peer of None \<Rightarrow> 0 | Some i \<Rightarrow> i)"

definition get_last_log_info :: "('b, 'w, 'c) raft_node \<Rightarrow> nat \<times> nat" where
  "get_last_log_info n = (if log n = [] then (0, 0) else (le_index (last (log n)), le_term (last (log n))))"

text \<open>The test that the vote, the probe and the transaction vote share.\<close>

definition log_up_to_date :: "nat \<Rightarrow> nat \<Rightarrow> ('b, 'w, 'c) raft_node \<Rightarrow> bool" where
  "log_up_to_date last_index last_term n \<longleftrightarrow>
     (case get_last_log_info n of (my_index, my_term) \<Rightarrow>
        my_term < last_term \<or> last_term = my_term \<and> my_index \<le> last_index)"

text \<open>\<open>let _ = self.storage.save_meta(self.current_term, self.vote_for.clone())\<close>.\<close>

definition persist_meta :: "('b, 'w, 'c) node_env \<Rightarrow> ('b, 'w, 'c) raft_node \<Rightarrow> ('b, 'w, 'c) raft_node" where
  "persist_meta V n = n\<lparr>storage := snd (save_meta (codec_of V) (current_term n) (vote_for n) (storage n))\<rparr>"

section \<open>Elections, the receiving side\<close>

definition handle_pre_vote :: "nat \<Rightarrow> request_vote_args \<Rightarrow> ('b, 'w, 'c) raft_node
    \<Rightarrow> vote_response_args \<times> ('b, 'w, 'c) raft_node" where
  "handle_pre_vote now args n =
     (let n = n\<lparr>last_heartbeat := now\<rparr>; my_term = current_term n in
      if rv_term args < my_term \<or> my_term + 1 < rv_term args
      then (\<lparr>vr_term = my_term, vote_granted = False\<rparr>, n)
      else if rv_term args = my_term \<and> state n = Leader
      then (\<lparr>vr_term = my_term, vote_granted = False\<rparr>, n)
      else (\<lparr>vr_term = my_term,
             vote_granted = log_up_to_date (rv_last_log_index args) (rv_last_log_term args) n\<rparr>, n))"

definition handle_join_cluster :: "join_cluster_request \<Rightarrow> ('b, 'w, 'c) raft_node \<Rightarrow> join_cluster_response" where
  "handle_join_cluster req n =
     (let reject = (\<lambda>reason. \<lparr>jc_accepted = False, jc_term = current_term n, jc_leader_addr = node_id n,
                              jc_peer_addrs = [], jc_reason = reason\<rparr>);
          servers = all_servers (current_config n) in
      if state n \<noteq> Leader then reject ''not leader''
      else if candidate_addr req = node_id n then reject ''candidate_addr is the leader itself''
      else if list_ex (\<lambda>s. addr_of_server s = candidate_addr req \<or> node_id_of s = candidate_addr req) servers
      then reject ''candidate_addr is already a cluster member''
      else \<lparr>jc_accepted = True, jc_term = current_term n, jc_leader_addr = node_id n,
            jc_peer_addrs = filter (\<lambda>a. a \<noteq> node_id n \<and> a \<noteq> candidate_addr req) (map addr_of_server servers),
            jc_reason = []\<rparr>)"

definition handle_request_vote :: "('b, 'w, 'c) node_env \<Rightarrow> nat \<Rightarrow> request_vote_args \<Rightarrow> ('b, 'w, 'c) raft_node
    \<Rightarrow> vote_response_args \<times> ('b, 'w, 'c) raft_node" where
  "handle_request_vote V now args n =
     (if rv_term args < current_term n
      then (\<lparr>vr_term = current_term n, vote_granted = False\<rparr>, n)
      else
        let n = (if current_term n < rv_term args
                 then persist_meta V (n\<lparr>current_term := rv_term args, state := Follower, vote_for := None\<rparr>)
                 else n);
            can_vote = (vote_for n = None \<or> vote_for n = Some (candidate_id args))
        in if can_vote \<and> log_up_to_date (rv_last_log_index args) (rv_last_log_term args) n
           then let n = (persist_meta V (n\<lparr>vote_for := Some (candidate_id args)\<rparr>))\<lparr>last_heartbeat := now\<rparr>
                in (\<lparr>vr_term = current_term n, vote_granted = True\<rparr>, n)
           else (\<lparr>vr_term = current_term n, vote_granted = False\<rparr>, n))"

section \<open>Membership and applying the log\<close>

text \<open>Creating an entry at the next index, appending it to the WAL and pushing it.\<close>

definition next_entry :: "('b, 'w, 'c) raft_node \<Rightarrow> command \<Rightarrow> log_entry" where
  "next_entry n c = \<lparr>le_term = current_term n, le_index = length (log n) + 1, le_command = c\<rparr>"

definition append_entry :: "('b, 'w, 'c) node_env \<Rightarrow> log_entry \<Rightarrow> ('b, 'w, 'c) raft_node
    \<Rightarrow> (unit, ('b, 'w, 'c) raft_node) io_res" where
  "append_entry V e n = (case append_wal_log (codec_of V) e (storage n) of
      (Inl err, st) \<Rightarrow> (Inl err, n\<lparr>storage := st\<rparr>)
    | (Inr _, st) \<Rightarrow> (Inr (), n\<lparr>storage := st, log := log n @ [e]\<rparr>))"

text \<open>Whether the pending second phase belongs to the configuration just installed.\<close>

definition post_joint_matches :: "configuration \<Rightarrow> configuration \<Rightarrow> bool" where
  "post_joint_matches cfg simple_new \<longleftrightarrow>
     (case cfg of Joint old new \<Rightarrow> new = all_servers simple_new | Simple c \<Rightarrow> False) \<or>
     (case simple_new of
        Simple servers \<Rightarrow> (case cfg of Simple c \<Rightarrow> c = servers | Joint _ _ \<Rightarrow> False)
      | Joint _ _ \<Rightarrow> False)"

definition peer_addrs_of :: "string \<Rightarrow> configuration \<Rightarrow> string list" where
  "peer_addrs_of self cfg = map addr_of_server (filter (\<lambda>s. node_id_of s \<noteq> self) (all_servers cfg))"

definition install_configuration :: "('b, 'w, 'c) node_env \<Rightarrow> configuration \<Rightarrow> ('b, 'w, 'c) raft_node
    \<Rightarrow> ('b, 'w, 'c) raft_node" where
  "install_configuration V cfg n =
     (let n = n\<lparr>current_config := cfg, peers := peer_addrs_of (node_id n) cfg\<rparr> in
      if state n = Leader then
        (case pending_post_joint_simple n of
           None \<Rightarrow> n
         | Some simple_new \<Rightarrow>
             let n = n\<lparr>pending_post_joint_simple := None\<rparr> in
             if post_joint_matches cfg simple_new
             then snd (append_entry V (next_entry n (CmdInstallConfiguration simple_new)) n)
             else n)
      else n)"

text \<open>One round of the loop of \<open>apply_logs\<close>: the effect of the entry, before \<open>last_applied\<close> advances.\<close>

fun apply_command :: "('b, 'w, 'c) node_env \<Rightarrow> command \<Rightarrow> ('b, 'w, 'c) raft_node \<Rightarrow> ('b, 'w, 'c) raft_node" where
  "apply_command V (CmdInstallConfiguration cfg) n = install_configuration V cfg n"
| "apply_command V c n = n\<lparr>state_machine_of := sm_apply (sm_env_of V) c (state_machine_of n)\<rparr>"

lemma append_entry_frame [frame_simps]:
  "commit_index (snd (append_entry V e n)) = commit_index n"
  "last_applied (snd (append_entry V e n)) = last_applied n"
  "state (snd (append_entry V e n)) = state n"
  "current_term (snd (append_entry V e n)) = current_term n"
  "vote_for (snd (append_entry V e n)) = vote_for n"
  "node_id (snd (append_entry V e n)) = node_id n"
  "peers (snd (append_entry V e n)) = peers n"
  "current_config (snd (append_entry V e n)) = current_config n"
  "state_machine_of (snd (append_entry V e n)) = state_machine_of n"
  "next_index (snd (append_entry V e n)) = next_index n"
  "match_index (snd (append_entry V e n)) = match_index n"
  by (auto simp: append_entry_def split: prod.splits sum.splits)

lemma install_configuration_frame [frame_simps]:
  "commit_index (install_configuration V cfg n) = commit_index n"
  "last_applied (install_configuration V cfg n) = last_applied n"
  "state (install_configuration V cfg n) = state n"
  "current_term (install_configuration V cfg n) = current_term n"
  "vote_for (install_configuration V cfg n) = vote_for n"
  "node_id (install_configuration V cfg n) = node_id n"
  "state_machine_of (install_configuration V cfg n) = state_machine_of n"
  "next_index (install_configuration V cfg n) = next_index n"
  "match_index (install_configuration V cfg n) = match_index n"
  by (auto simp: install_configuration_def frame_simps Let_def split: option.splits)

lemma apply_command_frame [frame_simps]:
  "commit_index (apply_command V c n) = commit_index n"
  "last_applied (apply_command V c n) = last_applied n"
  "state (apply_command V c n) = state n"
  "current_term (apply_command V c n) = current_term n"
  "vote_for (apply_command V c n) = vote_for n"
  "node_id (apply_command V c n) = node_id n"
  "next_index (apply_command V c n) = next_index n"
  "match_index (apply_command V c n) = match_index n"
  by (cases c; simp add: frame_simps)+

function apply_logs :: "('b, 'w, 'c) node_env \<Rightarrow> ('b, 'w, 'c) raft_node \<Rightarrow> ('b, 'w, 'c) raft_node" where
  "apply_logs V n =
     (if last_applied n < commit_index n \<and> last_applied n < length (log n)
      then let m = apply_command V (le_command (log n ! last_applied n)) n
           in apply_logs V (m\<lparr>last_applied := last_applied m + 1\<rparr>)
      else n)"
  by pat_completeness auto
termination
  by (relation "measure (\<lambda>(V, n). commit_index n - last_applied n)") (auto simp: frame_simps)

declare apply_logs.simps [simp del]

section \<open>Transaction votes\<close>

definition handle_tx_vote_request :: "('b, 'w, 'c) node_env \<Rightarrow> tx_vote_request \<Rightarrow> ('b, 'w, 'c) raft_node
    \<Rightarrow> tx_vote_response \<times> ('b, 'w, 'c) raft_node" where
  "handle_tx_vote_request V req n =
     (if tv_term req < current_term n
      then (\<lparr>tvr_term = current_term n, tvr_granted = False,
             tvr_reason = ''stale term: request term '' @ show_nat (tv_term req) @
                          '' < current term '' @ show_nat (current_term n)\<rparr>, n)
      else if current_term n < tv_term req
      then let n = persist_meta V (n\<lparr>current_term := tv_term req, state := Follower, vote_for := None\<rparr>)
           in (\<lparr>tvr_term = current_term n, tvr_granted = False,
                tvr_reason = ''term advance: adopted term '' @ show_nat (tv_term req) @
                             '' but deferring vote to elected leader''\<rparr>, n)
      else if \<not> log_up_to_date (tv_last_log_index req) (tv_last_log_term req) n
      then (\<lparr>tvr_term = current_term n, tvr_granted = False,
             tvr_reason = ''leader log stale: leader=('' @ show_nat (tv_last_log_index req) @ '', '' @
               show_nat (tv_last_log_term req) @ '') local=('' @ show_nat (fst (get_last_log_info n)) @
               '', '' @ show_nat (snd (get_last_log_info n)) @ '')''\<rparr>, n)
      else
        let n = (if commit_index n < tv_last_log_index req \<and> tv_last_log_index req \<le> length (log n)
                 then n\<lparr>commit_index := tv_last_log_index req\<rparr> else n);
            n = apply_logs V n
        in if pending_tx_view_of (tv_tx_id req) (state_machine_of n) = None
           then (\<lparr>tvr_term = current_term n, tvr_granted = False,
                  tvr_reason = ''tx not pending: '' @ tv_tx_id req\<rparr>, n)
           else let n = n\<lparr>state_machine_of :=
                      snd (record_vote (tv_tx_id req) (node_id n) Yes (state_machine_of n))\<rparr>
                in (\<lparr>tvr_term = current_term n, tvr_granted = True, tvr_reason = []\<rparr>, n))"

section \<open>Proposals\<close>

definition propose :: "('b, 'w, 'c) node_env \<Rightarrow> command \<Rightarrow> ('b, 'w, 'c) raft_node
    \<Rightarrow> bool \<times> ('b, 'w, 'c) raft_node" where
  "propose V c n =
     (if state n \<noteq> Leader then (False, n)
      else case append_entry V (next_entry n c) n of
        (Inl _, n) \<Rightarrow> (False, n)
      | (Inr _, n) \<Rightarrow> (True, n))"

fun propose_loop :: "('b, 'w, 'c) node_env \<Rightarrow> nat \<Rightarrow> command list \<Rightarrow> ('b, 'w, 'c) raft_node
    \<Rightarrow> bool \<times> ('b, 'w, 'c) raft_node" where
  "propose_loop V i [] n = (True, n)"
| "propose_loop V i (c # cs) n =
     (case append_entry V \<lparr>le_term = current_term n, le_index = i, le_command = c\<rparr> n of
        (Inl _, n) \<Rightarrow> (False, n)
      | (Inr _, n) \<Rightarrow> propose_loop V (i + 1) cs n)"

definition propose_batch :: "('b, 'w, 'c) node_env \<Rightarrow> command list \<Rightarrow> ('b, 'w, 'c) raft_node
    \<Rightarrow> bool \<times> ('b, 'w, 'c) raft_node" where
  "propose_batch V cs n =
     (if state n \<noteq> Leader then (False, n) else propose_loop V (length (log n) + 1) cs n)"

text \<open>The tail that adding and removing a server share: append the joint entry, remember the second phase.\<close>

definition propose_joint :: "('b, 'w, 'c) node_env \<Rightarrow> server_id list \<Rightarrow> server_id list \<Rightarrow> ('b, 'w, 'c) raft_node
    \<Rightarrow> (membership_error + nat) \<times> ('b, 'w, 'c) raft_node" where
  "propose_joint V old new n =
     (case append_entry V (next_entry n (CmdInstallConfiguration (Joint old new))) n of
        (Inl e, m) \<Rightarrow> (Inl (MembershipStorageError e), m)
      | (Inr _, m) \<Rightarrow> (Inr (length (log n) + 1), m\<lparr>pending_post_joint_simple := Some (Simple new)\<rparr>))"

definition propose_add_node :: "('b, 'w, 'c) node_env \<Rightarrow> server_id \<Rightarrow> ('b, 'w, 'c) raft_node
    \<Rightarrow> (membership_error + nat) \<times> ('b, 'w, 'c) raft_node" where
  "propose_add_node V srv n =
     (if state n \<noteq> Leader then (Inl MembershipNotLeader, n)
      else if config_contains (current_config n) (node_id_of srv)
      then (Inl (AlreadyMember (node_id_of srv)), n)
      else let old = all_servers (current_config n) in propose_joint V old (old @ [srv]) n)"

definition propose_remove_node :: "('b, 'w, 'c) node_env \<Rightarrow> string \<Rightarrow> ('b, 'w, 'c) raft_node
    \<Rightarrow> (membership_error + nat) \<times> ('b, 'w, 'c) raft_node" where
  "propose_remove_node V nid n =
     (if state n \<noteq> Leader then (Inl MembershipNotLeader, n)
      else if nid = node_id n then (Inl CannotRemoveSelf, n)
      else if \<not> config_contains (current_config n) nid then (Inl (NotMember nid), n)
      else let old = all_servers (current_config n);
               new = filter (\<lambda>s. node_id_of s \<noteq> nid) old
           in if new = [] then (Inl CannotRemoveLastServer, n) else propose_joint V old new n)"

definition propose_abort_tx :: "('b, 'w, 'c) node_env \<Rightarrow> string \<Rightarrow> ('b, 'w, 'c) raft_node
    \<Rightarrow> (abort_tx_error + nat) \<times> ('b, 'w, 'c) raft_node" where
  "propose_abort_tx V tx_id n =
     (if state n \<noteq> Leader then (Inl AbortNotLeader, n)
      else if \<not> is_tx_pending tx_id (state_machine_of n) then (Inl (AbortNotFound tx_id), n)
      else case append_entry V (next_entry n (CmdDecideTx tx_id Abort)) n of
        (Inl e, m) \<Rightarrow> (Inl (AbortStorageError e), m)
      | (Inr _, m) \<Rightarrow> (Inr (length (log n) + 1), m))"

definition node_pending_txs_older_than :: "('b, 'w, 'c) node_env \<Rightarrow> nat \<Rightarrow> ('b, 'w, 'c) raft_node \<Rightarrow> string list" where
  "node_pending_txs_older_than V threshold n =
     pending_txs_older_than (sm_env_of V) threshold (state_machine_of n)"

section \<open>Replication, the leader's side\<close>

definition maybe_commit :: "('b, 'w, 'c) node_env \<Rightarrow> ('b, 'w, 'c) raft_node \<Rightarrow> ('b, 'w, 'c) raft_node" where
  "maybe_commit V n =
     (if state n \<noteq> Leader then n
      else
        let highest = config_quorum_reached_index (current_config n) (match_index n) (node_id n) (length (log n)) in
        if commit_index n < highest then
          let log_term = (if highest - 1 < length (log n) then le_term (log n ! (highest - 1)) else 0) in
          if log_term = current_term n then apply_logs V (n\<lparr>commit_index := highest\<rparr>) else n
        else n)"

text \<open>The arguments \<open>sync_logs\<close> builds for one peer.\<close>

definition append_args_for :: "('b, 'w, 'c) raft_node \<Rightarrow> string \<Rightarrow> append_entries_args" where
  "append_args_for n peer =
     (let next = (case next_index n peer of None \<Rightarrow> 1 | Some i \<Rightarrow> i);
          prev_idx = next - 1;
          prev_term = (if prev_idx = 0 then 0
                       else if prev_idx - 1 < length (log n) then le_term (log n ! (prev_idx - 1)) else 0);
          ents = (if next \<le> length (log n) then drop (next - 1) (log n) else [])
      in \<lparr>ae_term = current_term n, ae_leader_id = node_id n, prev_log_index = prev_idx,
          prev_log_term = prev_term, ae_entries = ents, leader_commit = commit_index n\<rparr>)"

definition sync_logs :: "('b, 'w, 'c) node_env \<Rightarrow> ('b, 'w, 'c) raft_node
    \<Rightarrow> (string \<times> append_entries_args) list \<times> ('b, 'w, 'c) raft_node" where
  "sync_logs V n =
     (if peers n = [] then ([], if state n = Leader then maybe_commit V n else n)
      else (map (\<lambda>p. (p, append_args_for n p)) (peers n), n))"

definition append_reply_handler :: "('b, 'w, 'c) node_env \<Rightarrow> nat \<Rightarrow> string \<Rightarrow> append_entries_args
    \<Rightarrow> append_reply_args \<Rightarrow> ('b, 'w, 'c) raft_node \<Rightarrow> ('b, 'w, 'c) raft_node" where
  "append_reply_handler V now peer args reply n =
     (if ar_success reply then
        let last_idx = prev_log_index args + length (ae_entries args) in
        maybe_commit V (n\<lparr>match_index := (match_index n)(peer \<mapsto> last_idx),
                          next_index := (next_index n)(peer \<mapsto> last_idx + 1),
                          last_quorum_heartbeat_at := Some now\<rparr>)
      else if current_term n < ar_term reply then
        persist_meta V (n\<lparr>current_term := ar_term reply, state := Follower, vote_for := None\<rparr>)
      else
        let next = (case next_index n peer of None \<Rightarrow> 1 | Some i \<Rightarrow> i) in
        if 1 < next then n\<lparr>next_index := (next_index n)(peer \<mapsto> next - 1)\<rparr> else n)"

section \<open>Replay after a restart\<close>

fun replay_command :: "('b, 'w, 'c) node_env \<Rightarrow> command \<Rightarrow> ('b, 'w, 'c) raft_node \<Rightarrow> ('b, 'w, 'c) raft_node" where
  "replay_command V (CmdInstallConfiguration cfg) n =
     n\<lparr>current_config := cfg, peers := peer_addrs_of (node_id n) cfg\<rparr>"
| "replay_command V c n = n\<lparr>state_machine_of := sm_apply (sm_env_of V) c (state_machine_of n)\<rparr>"

definition replay_logs :: "('b, 'w, 'c) node_env \<Rightarrow> ('b, 'w, 'c) raft_node \<Rightarrow> ('b, 'w, 'c) raft_node" where
  "replay_logs V n =
     (let m = fold (\<lambda>e. replay_command V (le_command e)) (log n) n
      in m\<lparr>last_applied := length (log n)\<rparr>)"

section \<open>Elections, the candidate's side\<close>

definition become_leader :: "nat \<Rightarrow> ('b, 'w, 'c) raft_node \<Rightarrow> ('b, 'w, 'c) raft_node" where
  "become_leader now n =
     (if state n = Leader then n
      else n\<lparr>state := Leader,
             next_index := map_of (map (\<lambda>p. (p, length (log n) + 1)) (peers n)),
             last_heartbeat := now\<rparr>)"

definition become_leader_checked :: "nat \<Rightarrow> ('b, 'w, 'c) raft_node \<Rightarrow> bool \<times> ('b, 'w, 'c) raft_node" where
  "become_leader_checked now n = (if state n \<noteq> Candidate then (False, n) else (True, become_leader now n))"

definition promote_to_candidate_locked :: "('b, 'w, 'c) node_env \<Rightarrow> nat \<Rightarrow> ('b, 'w, 'c) raft_node
    \<Rightarrow> ('b, 'w, 'c) raft_node" where
  "promote_to_candidate_locked V now n =
     (persist_meta V (n\<lparr>current_term := current_term n + 1, state := Candidate, vote_for := Some (node_id n)\<rparr>))
       \<lparr>last_heartbeat := now\<rparr>"

text \<open>
  A round of votes or probes in flight: what the spawned tasks share. The counter of a vote
  round starts at one (the candidate itself), that of a probe round at zero.
\<close>

record vote_round =
  round_term :: nat
  round_total :: nat
  round_count :: nat

definition vote_args_for :: "nat \<Rightarrow> ('b, 'w, 'c) raft_node \<Rightarrow> request_vote_args" where
  "vote_args_for trm n = \<lparr>rv_term = trm, candidate_id = node_id n,
     rv_last_log_index = fst (get_last_log_info n), rv_last_log_term = snd (get_last_log_info n)\<rparr>"

definition request_votes :: "nat \<Rightarrow> ('b, 'w, 'c) raft_node
    \<Rightarrow> vote_round \<times> (string \<times> request_vote_args) list \<times> ('b, 'w, 'c) raft_node" where
  "request_votes now n =
     (let trm = current_term n; total = length (peers n) + 1;
          round = \<lparr>round_term = trm, round_total = total, round_count = 1\<rparr> in
      if total = 1
      then (round, [], if state n = Candidate \<and> current_term n = trm then become_leader now n else n)
      else (round, map (\<lambda>p. (p, vote_args_for trm n)) (peers n), n))"

definition become_candidate :: "('b, 'w, 'c) node_env \<Rightarrow> nat \<Rightarrow> ('b, 'w, 'c) raft_node
    \<Rightarrow> vote_round \<times> (string \<times> request_vote_args) list \<times> ('b, 'w, 'c) raft_node" where
  "become_candidate V now n = request_votes now (promote_to_candidate_locked V now n)"

definition vote_reply_handler :: "('b, 'w, 'c) node_env \<Rightarrow> nat \<Rightarrow> vote_response_args
    \<Rightarrow> vote_round \<times> ('b, 'w, 'c) raft_node \<Rightarrow> vote_round \<times> ('b, 'w, 'c) raft_node" where
  "vote_reply_handler V now reply rn =
     (case rn of (r, n) \<Rightarrow>
      if vote_granted reply then
        let r = r\<lparr>round_count := round_count r + 1\<rparr> in
        (r, if round_total r div 2 < round_count r \<and> state n = Candidate \<and> current_term n = round_term r
            then become_leader now n else n)
      else if round_term r < vr_term reply then
        (r, persist_meta V (n\<lparr>current_term := vr_term reply, state := Follower, vote_for := None\<rparr>))
      else (r, n))"

text \<open>\<open>None\<close> when the node is no longer a follower and the probe is not started.\<close>

definition become_pre_candidate :: "('b, 'w, 'c) node_env \<Rightarrow> nat \<Rightarrow> ('b, 'w, 'c) raft_node
    \<Rightarrow> (vote_round \<times> (string \<times> request_vote_args) list) option \<times> ('b, 'w, 'c) raft_node" where
  "become_pre_candidate V now n =
     (let probed_term = current_term n + 1; total = length (peers n) + 1 in
      if state n = Follower then
        let m = n\<lparr>state := PreCandidate\<rparr> in
        if total = 1 then (None, snd (become_leader_checked now (promote_to_candidate_locked V now m)))
        else (Some (\<lparr>round_term = probed_term, round_total = total, round_count = 0\<rparr>,
                    map (\<lambda>p. (p, vote_args_for probed_term n)) (peers n)), m)
      else (None, n))"

text \<open>The reply to a probe; a quorum starts the vote round that is returned.\<close>

definition process_pre_vote_reply :: "('b, 'w, 'c) node_env \<Rightarrow> nat \<Rightarrow> vote_response_args
    \<Rightarrow> vote_round \<Rightarrow> ('b, 'w, 'c) raft_node
    \<Rightarrow> vote_round \<times> (vote_round \<times> (string \<times> request_vote_args) list) option \<times> ('b, 'w, 'c) raft_node" where
  "process_pre_vote_reply V now reply r n =
     (if round_term r < vr_term reply
      then (r, None, if state n = PreCandidate then n\<lparr>state := Follower\<rparr> else n)
      else if \<not> vote_granted reply then (r, None, n)
      else
        let r = r\<lparr>round_count := round_count r + 1\<rparr> in
        if round_count r \<le> round_total r div 2 then (r, None, n)
        else if state n \<noteq> PreCandidate then (r, None, n)
        else (case request_votes now (promote_to_candidate_locked V now n) of
               (vr, msgs, m) \<Rightarrow> (r, Some (vr, msgs), m)))"

section \<open>Replication, the follower's side\<close>

text \<open>
  The loop over the received entries. \<open>entry.index - 1\<close> is a \<open>usize\<close> subtraction on
  data from the network; it wraps when the index is 0.
\<close>

fun append_loop :: "('b, 'w, 'c) node_env \<Rightarrow> log_entry list \<Rightarrow> ('b, 'w, 'c) raft_node \<Rightarrow> ('b, 'w, 'c) raft_node" where
  "append_loop V [] n = n"
| "append_loop V (e # es) n =
     (let idx = wrapping_pred (le_index e); st = snd (append_wal_log (codec_of V) e (storage n)) in
      append_loop V es
        (if idx < length (log n)
         then if le_term (log n ! idx) \<noteq> le_term e
              then n\<lparr>log := take idx (log n) @ [e], storage := st\<rparr>
              else n
         else n\<lparr>log := log n @ [e], storage := st\<rparr>))"

definition handle_append_entries :: "('b, 'w, 'c) node_env \<Rightarrow> nat \<Rightarrow> append_entries_args \<Rightarrow> ('b, 'w, 'c) raft_node
    \<Rightarrow> append_reply_args \<times> ('b, 'w, 'c) raft_node" where
  "handle_append_entries V now args n =
     (if ae_term args < current_term n then (\<lparr>ar_term = current_term n, ar_success = False\<rparr>, n)
      else if ae_term args = current_term n \<and> state n = Leader
      then (\<lparr>ar_term = current_term n, ar_success = False\<rparr>, n)
      else
        let n = (if current_term n < ae_term args
                 then persist_meta V (n\<lparr>current_term := ae_term args, vote_for := None\<rparr>) else n);
            n = n\<lparr>state := Follower, last_heartbeat := now\<rparr>;
            local_term = (if prev_log_index args - 1 < length (log n)
                          then Some (le_term (log n ! (prev_log_index args - 1))) else None)
        in if 0 < prev_log_index args \<and> local_term \<noteq> Some (prev_log_term args)
           then (\<lparr>ar_term = current_term n, ar_success = False\<rparr>, n)
           else
             let n = append_loop V (ae_entries args) n;
                 n = (if commit_index n < leader_commit args
                      then apply_logs V (n\<lparr>commit_index := min (leader_commit args) (length (log n))\<rparr>)
                      else n)
             in (\<lparr>ar_term = current_term n, ar_success = True\<rparr>, n))"

section \<open>Snapshots\<close>

definition handle_install_snapshot :: "('b, 'w, 'c) node_env \<Rightarrow> nat \<Rightarrow> install_snapshot_args \<Rightarrow> ('b, 'w, 'c) raft_node
    \<Rightarrow> (install_snapshot_reply_args \<times> ('b, 'w, 'c) raft_node) option" where
  "handle_install_snapshot V now args n =
     (if is_term args < current_term n then Some (\<lparr>isr_term = current_term n\<rparr>, n)
      else if is_term args = current_term n \<and> state n = Leader then Some (\<lparr>isr_term = current_term n\<rparr>, n)
      else
        let n = (if current_term n < is_term args
                 then persist_meta V (n\<lparr>current_term := is_term args, state := Follower, vote_for := None\<rparr>) else n);
            n = n\<lparr>state := Follower, last_heartbeat := now\<rparr>;
            n = n\<lparr>storage := snd (save_snapshot (codec_of V) (is_snapshot args) (storage n))\<rparr>
        in case clear_for_snapshot (state_machine_of n) of
             (Inl _, _) \<Rightarrow> None
           | (Inr _, sm) \<Rightarrow>
               let sm = fold (\<lambda>(k, v) sm. snd (sm_set (sm_env_of V) k v sm)) (snap_data (is_snapshot args)) sm;
                   last_included = is_last_included_index args;
                   n = n\<lparr>state_machine_of := sm,
                         log := filter (\<lambda>e. last_included < le_index e) (log n),
                         storage := snd (rewrite_wal_after_snapshot (codec_of V) last_included (storage n)),
                         commit_index := (if commit_index n < last_included then last_included else commit_index n),
                         last_applied := (if last_applied n < last_included then last_included else last_applied n)\<rparr>
               in Some (\<lparr>isr_term = current_term n\<rparr>, n))"

definition maybe_snapshot :: "('b, 'w, 'c) node_env \<Rightarrow> nat \<Rightarrow> ('b, 'w, 'c) raft_node
    \<Rightarrow> (bool \<times> ('b, 'w, 'c) raft_node) option" where
  "maybe_snapshot V threshold_bytes n =
     (if state n \<noteq> Leader then Some (False, n)
      else if wal_size_bytes (storage n) \<le> threshold_bytes then Some (False, n)
      else if commit_index n = 0 then Some (False, n)
      else
        let snapshot_index = commit_index n;
            snapshot_term = (if snapshot_index - 1 < length (log n) then le_term (log n ! (snapshot_index - 1)) else 0)
        in case snapshot_data (sm_env_of V) (state_machine_of n) of
             Inl _ \<Rightarrow> None
           | Inr data \<Rightarrow>
               (case save_snapshot (codec_of V)
                   \<lparr>last_included_index = snapshot_index, last_included_term = snapshot_term, snap_data = data\<rparr>
                   (storage n) of
                  (Inl _, st) \<Rightarrow> Some (False, n\<lparr>storage := st\<rparr>)
                | (Inr _, st) \<Rightarrow>
                    Some (True, n\<lparr>storage := snd (rewrite_wal_after_snapshot (codec_of V) snapshot_index st)\<rparr>)))"

section \<open>Linearizable reads\<close>

definition max_election_timeout_ms :: nat where
  "max_election_timeout_ms = 10000"

definition begin_read :: "('b, 'w, 'c) node_env \<Rightarrow> nat \<Rightarrow> ('b, 'w, 'c) raft_node
    \<Rightarrow> read_index option \<times> (string \<times> append_entries_args) list \<times> ('b, 'w, 'c) raft_node" where
  "begin_read V now n =
     (if state n \<noteq> Leader then (None, [], n)
      else case sync_logs V n of
        (msgs, m) \<Rightarrow> (Some \<lparr>ri_index = commit_index n, ri_issued_at = now\<rparr>, msgs, m))"

definition confirm_read :: "nat \<Rightarrow> read_index \<Rightarrow> ('b, 'w, 'c) raft_node \<Rightarrow> bool" where
  "confirm_read now ri n \<longleftrightarrow>
     (if state n \<noteq> Leader then False
      else if last_applied n < ri_index ri then False
      else case last_quorum_heartbeat_at n of
        None \<Rightarrow> False
      | Some t \<Rightarrow> now - t < max_election_timeout_ms \<and> ri_issued_at ri \<le> t)"

text \<open>The work of one tick of the heartbeat loop.\<close>

definition heartbeat_tick :: "('b, 'w, 'c) node_env \<Rightarrow> nat \<Rightarrow> ('b, 'w, 'c) raft_node
    \<Rightarrow> ((string \<times> append_entries_args) list \<times> ('b, 'w, 'c) raft_node) option" where
  "heartbeat_tick V threshold_bytes n =
     (if state n = Leader then
        (case sync_logs V n of (msgs, m) \<Rightarrow>
           (case maybe_snapshot V threshold_bytes m of
              None \<Rightarrow> None
            | Some (_, m) \<Rightarrow> Some (msgs, m)))
      else Some ([], n))"

section \<open>What the transaction coordinator does to the node\<close>

text \<open>Between its proposals \<open>coordinate_tx_inner\<close> changes the node in two ways: it records a yes vote, and it steps
  down when a vote is answered from a higher term.\<close>

definition record_yes :: "string \<Rightarrow> string \<Rightarrow> ('b, 'w, 'c) raft_node \<Rightarrow> ('b, 'w, 'c) raft_node" where
  "record_yes tx_id voter n =
     n\<lparr>state_machine_of := snd (record_vote tx_id voter Yes (state_machine_of n))\<rparr>"

definition step_down_on :: "('b, 'w, 'c) node_env \<Rightarrow> nat \<Rightarrow> ('b, 'w, 'c) raft_node \<Rightarrow> ('b, 'w, 'c) raft_node" where
  "step_down_on V t n =
     (if state n = Leader
      then persist_meta V (n\<lparr>current_term := t, state := Follower, vote_for := None\<rparr>)
      else n)"

end
