(* ===== verification/Node_Props.thy ===== *)
theory Node_Props
  imports Node
begin

text \<open>
  Properties of a single Raft node: what each handler leaves alone, applying the log, resolving
  conflicts, granting votes, membership changes, and the invariant of a running node, by
  induction over its steps.
\<close>

section \<open>Frames\<close>

lemma persist_meta_frame [frame_simps]:
  "current_term (persist_meta V n) = current_term n" "vote_for (persist_meta V n) = vote_for n"
  "state (persist_meta V n) = state n" "log (persist_meta V n) = log n"
  "commit_index (persist_meta V n) = commit_index n" "last_applied (persist_meta V n) = last_applied n"
  "node_id (persist_meta V n) = node_id n" "peers (persist_meta V n) = peers n"
  "state_machine_of (persist_meta V n) = state_machine_of n"
  "current_config (persist_meta V n) = current_config n"
  "next_index (persist_meta V n) = next_index n" "match_index (persist_meta V n) = match_index n"
  "last_quorum_heartbeat_at (persist_meta V n) = last_quorum_heartbeat_at n"
  "pending_post_joint_simple (persist_meta V n) = pending_post_joint_simple n"
  by (simp_all add: persist_meta_def)

section \<open>Applying the log\<close>

definition apply_step :: "('b, 'w, 'c) node_env \<Rightarrow> ('b, 'w, 'c) raft_node \<Rightarrow> ('b, 'w, 'c) raft_node" where
  "apply_step V n = (apply_command V (le_command (log n ! last_applied n)) n)\<lparr>last_applied := last_applied n + 1\<rparr>"

lemma apply_logs_unfold:
  "apply_logs V n = (if last_applied n < commit_index n \<and> last_applied n < length (log n)
     then apply_logs V (apply_step V n) else n)"
  by (subst apply_logs.simps) (simp add: apply_step_def Let_def frame_simps)

lemma apply_step_frame [frame_simps]:
  "commit_index (apply_step V n) = commit_index n" "last_applied (apply_step V n) = last_applied n + 1"
  "state (apply_step V n) = state n" "current_term (apply_step V n) = current_term n"
  "vote_for (apply_step V n) = vote_for n" "node_id (apply_step V n) = node_id n"
  "next_index (apply_step V n) = next_index n" "match_index (apply_step V n) = match_index n"
  by (simp_all add: apply_step_def frame_simps)

lemma apply_logs_done:
  "\<not> (last_applied n < commit_index n \<and> last_applied n < length (log n)) \<Longrightarrow> apply_logs V n = n"
  by (subst apply_logs_unfold) (simp only: if_False)

text \<open>Induction over the rounds of the loop, and the rule of the loop: what every round keeps holds at the end.\<close>

lemma apply_logs_rounds:
  assumes "\<And>n. (last_applied n < commit_index n \<Longrightarrow> last_applied n < length (log n) \<Longrightarrow> P (apply_step V n)) \<Longrightarrow> P n"
  shows "P n"
proof (induction "commit_index n - last_applied n" arbitrary: n rule: less_induct)
  case less
  show ?case by (rule assms) (rule less.hyps, simp add: frame_simps)
qed

lemma apply_logs_rule:
  assumes "P n"
    and "\<And>m. P m \<Longrightarrow> last_applied m < commit_index m \<Longrightarrow> last_applied m < length (log m) \<Longrightarrow> P (apply_step V m)"
  shows "P (apply_logs V n)"
  using assms(1)
proof (induction n rule: apply_logs_rounds [where V = V])
  case (1 n)
  show ?case
  proof (cases "last_applied n < commit_index n \<and> last_applied n < length (log n)")
    case True
    then show ?thesis using 1 assms(2) [of n] by (simp add: apply_logs_unfold [of V n])
  next
    case False
    then show ?thesis using 1(2) by (simp add: apply_logs_done)
  qed
qed

lemma apply_logs_frame [frame_simps]:
  "commit_index (apply_logs V n) = commit_index n" "state (apply_logs V n) = state n"
  "current_term (apply_logs V n) = current_term n" "vote_for (apply_logs V n) = vote_for n"
  "node_id (apply_logs V n) = node_id n" "next_index (apply_logs V n) = next_index n"
  "match_index (apply_logs V n) = match_index n"
  by (rule apply_logs_rule, simp, simp add: frame_simps)+

lemma apply_command_sm [frame_simps]:
  "state_machine_of (apply_command V c n) = sm_apply (sm_env_of V) c (state_machine_of n)"
  by (cases c) (simp_all add: frame_simps)

lemma append_entry_log: "\<exists>ext. log (snd (append_entry V e n)) = log n @ ext"
  by (auto simp: append_entry_def split: prod.splits sum.splits)

lemma install_configuration_log:
  "\<exists>ext. log (install_configuration V cfg n) = log n @ ext"
  "state n \<noteq> Leader \<Longrightarrow> log (install_configuration V cfg n) = log n"
  by (auto simp: install_configuration_def append_entry_def Let_def split: option.splits prod.splits sum.splits)

lemma apply_command_log:
  "\<exists>ext. log (apply_command V c n) = log n @ ext"
  "state n \<noteq> Leader \<Longrightarrow> log (apply_command V c n) = log n"
  by (cases c; simp add: install_configuration_log)+

lemma apply_step_log:
  "\<exists>ext. log (apply_step V n) = log n @ ext"
  "state n \<noteq> Leader \<Longrightarrow> log (apply_step V n) = log n"
  by (simp_all add: apply_step_def apply_command_log)

lemma apply_step_sm [frame_simps]:
  "state_machine_of (apply_step V n) =
     sm_apply (sm_env_of V) (le_command (log n ! last_applied n)) (state_machine_of n)"
  by (simp add: apply_step_def frame_simps)

lemma apply_logs_log:
  "\<exists>ext. log (apply_logs V n) = log n @ ext"
  "state n \<noteq> Leader \<Longrightarrow> log (apply_logs V n) = log n"
proof -
  show "\<exists>ext. log (apply_logs V n) = log n @ ext"
  proof (rule apply_logs_rule [where P = "\<lambda>m. \<exists>ext. log m = log n @ ext"])
    fix m :: "('a, 'b, 'c) raft_node" assume "\<exists>ext. log m = log n @ ext"
    then show "\<exists>ext. log (apply_step V m) = log n @ ext" using apply_step_log(1) [of V m] by auto
  qed simp
  assume "state n \<noteq> Leader"
  then have "state (apply_logs V n) \<noteq> Leader \<and> log (apply_logs V n) = log n"
    by (intro apply_logs_rule [where P = "\<lambda>m. state m \<noteq> Leader \<and> log m = log n"])
      (simp_all add: apply_step_log(2) frame_simps)
  then show "log (apply_logs V n) = log n" by simp
qed

text \<open>The entries that a call of \<open>apply_logs\<close> has to apply.\<close>

definition unapplied :: "('b, 'w, 'c) raft_node \<Rightarrow> log_entry list" where
  "unapplied n = drop (last_applied n) (take (commit_index n) (log n))"

lemma unapplied_step:
  assumes "last_applied n < commit_index n" and "last_applied n < length (log n)"
    and "state n \<noteq> Leader \<or> commit_index n \<le> length (log n)"
  shows "unapplied n = log n ! last_applied n # unapplied (apply_step V n)"
proof -
  have "take (commit_index n) (log (apply_step V n)) = take (commit_index n) (log n)"
    using assms(3) apply_step_log [where V = V and n = n] by auto
  then show ?thesis
    using Cons_nth_drop_Suc [of "last_applied n" "take (commit_index n) (log n)"] assms(1,2)
    by (simp add: unapplied_def frame_simps)
qed

lemma apply_logs_applies:
  assumes "state n \<noteq> Leader \<or> commit_index n \<le> length (log n)"
  shows "state_machine_of (apply_logs V n) =
      fold (sm_apply (sm_env_of V)) (map le_command (unapplied n)) (state_machine_of n) \<and>
    last_applied (apply_logs V n) = max (last_applied n) (min (commit_index n) (length (log n)))"
  using assms
proof (induction n rule: apply_logs_rounds [where V = V])
  case (1 n)
  show ?case
  proof (cases "last_applied n < commit_index n \<and> last_applied n < length (log n)")
    case True
    let ?m = "apply_step V n"
    have lead: "state ?m \<noteq> Leader \<or> commit_index ?m \<le> length (log ?m)"
      using "1.prems" apply_step_log(1) [of V n] by (auto simp: frame_simps)
    have len: "min (commit_index n) (length (log ?m)) = min (commit_index n) (length (log n))"
      using "1.prems" apply_step_log [where V = V and n = n] by auto
    have "apply_logs V n = apply_logs V ?m" using True by (subst apply_logs_unfold) simp
    moreover have "unapplied n = log n ! last_applied n # unapplied ?m"
      using True "1.prems" by (intro unapplied_step) simp_all
    ultimately show ?thesis using 1(1) [OF _ _ lead] True len by (auto simp: frame_simps)
  next
    case False
    then have "unapplied n = []" by (auto simp: unapplied_def)
    then show ?thesis using False by (auto simp: apply_logs_done)
  qed
qed

text \<open>C7: Applying the committed entries implements the key-value specification: the map and the
  staged transactions change exactly as the commands between \<open>last_applied\<close> and
  \<open>commit_index\<close> say, in log order, each entry once; \<open>last_applied\<close> catches up with the commit
  index as far as the log reaches, the log only grows and the commit index stays.\<close>

theorem apply_logs_refines_spec:
  assumes "sm_ok (sm_env_of V) (state_machine_of n)"
    and "state n \<noteq> Leader \<or> commit_index n \<le> length (log n)"
  shows "(sm_view (sm_env_of V) (state_machine_of (apply_logs V n)), sm_staged (state_machine_of (apply_logs V n)))
      = fold kv_spec (map le_command (drop (last_applied n) (take (commit_index n) (log n))))
          (sm_view (sm_env_of V) (state_machine_of n), sm_staged (state_machine_of n)) \<and>
    last_applied (apply_logs V n) = max (last_applied n) (min (commit_index n) (length (log n))) \<and>
    commit_index (apply_logs V n) = commit_index n \<and>
    (\<exists>ext. log (apply_logs V n) = log n @ ext)"
  using apply_logs_applies [OF assms(2), of V] apply_logs_log(1) [of V n]
    lsm.run_kv [OF assms(1), of "map le_command (unapplied n)"]
  by (simp add: unapplied_def frame_simps)

text \<open>State machine safety: two nodes that have applied the same prefix, hold the same map, and
  whose logs agree up to the common commit index, hold the same map and the same staged
  transactions after applying, whatever their roles.\<close>

theorem state_machine_safety:
  assumes "sm_ok (sm_env_of V) (state_machine_of n)" and "sm_ok (sm_env_of W) (state_machine_of m)"
    and "sm_view (sm_env_of V) (state_machine_of n) = sm_view (sm_env_of W) (state_machine_of m)"
    and "sm_staged (state_machine_of n) = sm_staged (state_machine_of m)"
    and "last_applied n = last_applied m" and "commit_index n = commit_index m"
    and "commit_index n \<le> length (log n)" and "commit_index m \<le> length (log m)"
    and "take (commit_index n) (log n) = take (commit_index m) (log m)"
  shows "sm_view (sm_env_of V) (state_machine_of (apply_logs V n)) = sm_view (sm_env_of W) (state_machine_of (apply_logs W m)) \<and>
    sm_staged (state_machine_of (apply_logs V n)) = sm_staged (state_machine_of (apply_logs W m))"
proof -
  have "unapplied n = unapplied m" using assms(5,6,9) by (simp add: unapplied_def)
  then show ?thesis
    using apply_logs_applies [of n V] apply_logs_applies [of m W] assms(3,4,7,8)
      lsm.run_kv [OF assms(1), of "map le_command (unapplied n)"]
      lsm.run_kv [OF assms(2), of "map le_command (unapplied n)"]
    by (metis prod.inject)
qed

section \<open>Resolving conflicts\<close>

text \<open>Entry \<open>i\<close> of a list (from 0) carries the index \<open>p + i + 1\<close>.\<close>

definition indexed_from :: "nat \<Rightarrow> log_entry list \<Rightarrow> bool" where
  "indexed_from p es \<longleftrightarrow> (\<forall>i < length es. le_index (es ! i) = p + i + 1)"

abbreviation log_wf :: "log_entry list \<Rightarrow> bool" where
  "log_wf \<equiv> indexed_from 0"

lemma indexed_from_Nil [simp]: "indexed_from p []"
  by (simp add: indexed_from_def)

lemma indexed_from_Cons [simp]: "indexed_from p (e # es) \<longleftrightarrow> le_index e = p + 1 \<and> indexed_from (Suc p) es"
  by (auto simp: indexed_from_def nth_Cons less_Suc_eq_0_disj split: nat.splits)

lemma indexed_from_append: "indexed_from p (xs @ ys) \<longleftrightarrow> indexed_from p xs \<and> indexed_from (p + length xs) ys"
  by (induction xs arbitrary: p) auto

lemma indexed_from_take: "indexed_from p xs \<Longrightarrow> indexed_from p (take n xs)"
  by (simp add: indexed_from_def)

text \<open>
  The rule of the Raft paper: skip the entries that are there with the same term; at the first
  conflict or at the end of the log, drop the rest of the log and append the remaining entries.
\<close>

fun merge_log :: "nat \<Rightarrow> log_entry list \<Rightarrow> log_entry list \<Rightarrow> log_entry list" where
  "merge_log p [] l = l"
| "merge_log p (e # es) l =
     (if p < length l \<and> le_term (l ! p) = le_term e then merge_log (Suc p) es l else take p l @ e # es)"

lemma append_loop_past_end:
  assumes "indexed_from (length (log n)) es"
  shows "log (append_loop V es n) = log n @ es"
  using assms
proof (induction V es n rule: append_loop.induct)
  case (2 V e es n)
  then show ?case by (simp add: wrapping_pred_def Let_def)
qed simp

lemma append_loop_merges:
  assumes "indexed_from p es" and "p \<le> length (log n)"
  shows "log (append_loop V es n) = merge_log p es (log n)"
  using assms
proof (induction V es n arbitrary: p rule: append_loop.induct)
  case (2 V e es n)
  let ?st = "snd (append_wal_log (codec_of V) e (storage n))"
  consider "p < length (log n)" "le_term (log n ! p) = le_term e"
    | "p < length (log n)" "le_term (log n ! p) \<noteq> le_term e" | "p = length (log n)"
    using "2.prems"(2) by linarith
  then show ?case
  proof cases
    case 1
    then show ?thesis using "2.IH" [OF refl refl, of "Suc p"] "2.prems" by (simp add: Let_def)
  next
    case 2
    then show ?thesis
      using append_loop_past_end [of "n\<lparr>log := take p (log n) @ [e], storage := ?st\<rparr>" es V] "2.prems"
      by (simp add: Let_def min_def)
  next
    case 3
    then show ?thesis
      using append_loop_past_end [of "n\<lparr>log := log n @ [e], storage := ?st\<rparr>" es V] "2.prems"
      by (simp add: Let_def)
  qed
qed simp

lemma merge_log_wf: "log_wf l \<Longrightarrow> indexed_from p es \<Longrightarrow> p \<le> length l \<Longrightarrow> log_wf (merge_log p es l)"
proof (induction p es l rule: merge_log.induct)
  case (2 p e es l)
  show ?case
  proof (cases "p < length l \<and> le_term (l ! p) = le_term e")
    case True
    then show ?thesis using 2 by simp
  next
    case False
    then show ?thesis
      using "2.prems" indexed_from_take [of 0 l p] by (auto simp: indexed_from_append min_def)
  qed
qed simp

lemma merge_log_prefix: "p \<le> length l \<Longrightarrow> take p (merge_log p es l) = take p l"
proof (induction p es l rule: merge_log.induct)
  case (2 p e es l)
  then show ?case
    by (cases "p < length l \<and> le_term (l ! p) = le_term e")
      (auto simp: min_def dest: arg_cong [where f = "take p"])
qed simp

text \<open>If an entry already in the log under the same index and term is the same entry, the new entries are all there.\<close>

lemma merge_log_contains:
  assumes "p \<le> length l"
    and "\<And>i. i < length es \<Longrightarrow> p + i < length l \<Longrightarrow> le_term (l ! (p + i)) = le_term (es ! i) \<Longrightarrow> l ! (p + i) = es ! i"
  shows "take (p + length es) (merge_log p es l) = take p l @ es"
  using assms
proof (induction p es l rule: merge_log.induct)
  case (2 p e es l)
  show ?case
  proof (cases "p < length l \<and> le_term (l ! p) = le_term e")
    case True
    then have here: "l ! p = e" using "2.prems"(2) [of 0] by simp
    have "take (Suc p + length es) (merge_log (Suc p) es l) = take (Suc p) l @ es"
      using 2(1) [OF True] "2.prems"(2) [of "Suc _"] True by simp
    then show ?thesis using True here by (simp add: take_Suc_conv_app_nth)
  next
    case False
    then show ?thesis using "2.prems"(1) by (auto simp: min_def)
  qed
qed simp

section \<open>AppendEntries\<close>

lemma append_loop_frame [frame_simps]:
  "commit_index (append_loop V es n) = commit_index n" "last_applied (append_loop V es n) = last_applied n"
  "state (append_loop V es n) = state n" "current_term (append_loop V es n) = current_term n"
  "vote_for (append_loop V es n) = vote_for n" "node_id (append_loop V es n) = node_id n"
  "next_index (append_loop V es n) = next_index n" "match_index (append_loop V es n) = match_index n"
  "state_machine_of (append_loop V es n) = state_machine_of n" "peers (append_loop V es n) = peers n"
  "current_config (append_loop V es n) = current_config n"
  by (induction V es n rule: append_loop.induct) (auto simp: Let_def)

text \<open>The consistency check of the handler.\<close>

definition prev_matches :: "append_entries_args \<Rightarrow> log_entry list \<Rightarrow> bool" where
  "prev_matches args l \<longleftrightarrow> prev_log_index args = 0 \<or>
     prev_log_index args \<le> length l \<and> le_term (l ! (prev_log_index args - 1)) = prev_log_term args"

lemma prev_matches_iff:
  "\<not> (0 < prev_log_index args \<and>
      (if prev_log_index args - 1 < length l then Some (le_term (l ! (prev_log_index args - 1))) else None)
        \<noteq> Some (prev_log_term args)) \<longleftrightarrow> prev_matches args l"
  by (auto simp: prev_matches_def)

definition ae_accepts :: "append_entries_args \<Rightarrow> ('b, 'w, 'c) raft_node \<Rightarrow> bool" where
  "ae_accepts args n \<longleftrightarrow> current_term n \<le> ae_term args \<and> \<not> (ae_term args = current_term n \<and> state n = Leader) \<and>
     prev_matches args (log n)"

text \<open>The follower after it has adopted the term and its role.\<close>

definition ae_follower :: "('b, 'w, 'c) node_env \<Rightarrow> nat \<Rightarrow> append_entries_args \<Rightarrow> ('b, 'w, 'c) raft_node
    \<Rightarrow> ('b, 'w, 'c) raft_node" where
  "ae_follower V now args n =
     (if current_term n < ae_term args
      then persist_meta V (n\<lparr>current_term := ae_term args, vote_for := None\<rparr>) else n)
     \<lparr>state := Follower, last_heartbeat := now\<rparr>"

lemma ae_follower_frame [frame_simps]:
  "log (ae_follower V now args n) = log n" "commit_index (ae_follower V now args n) = commit_index n"
  "last_applied (ae_follower V now args n) = last_applied n" "state (ae_follower V now args n) = Follower"
  "node_id (ae_follower V now args n) = node_id n" "next_index (ae_follower V now args n) = next_index n"
  "match_index (ae_follower V now args n) = match_index n"
  "state_machine_of (ae_follower V now args n) = state_machine_of n"
  "peers (ae_follower V now args n) = peers n" "current_config (ae_follower V now args n) = current_config n"
  "current_term (ae_follower V now args n) = max (current_term n) (ae_term args)"
  by (auto simp: ae_follower_def frame_simps)

definition ae_commit :: "('b, 'w, 'c) node_env \<Rightarrow> append_entries_args \<Rightarrow> ('b, 'w, 'c) raft_node
    \<Rightarrow> ('b, 'w, 'c) raft_node" where
  "ae_commit V args n =
     (if commit_index n < leader_commit args
      then apply_logs V (n\<lparr>commit_index := min (leader_commit args) (length (log n))\<rparr>) else n)"

lemma handle_append_entries_eq:
  "handle_append_entries V now args n =
     (if ae_term args < current_term n \<or> ae_term args = current_term n \<and> state n = Leader
      then (\<lparr>ar_term = current_term n, ar_success = False\<rparr>, n)
      else if \<not> prev_matches args (log n)
      then (\<lparr>ar_term = ae_term args, ar_success = False\<rparr>, ae_follower V now args n)
      else (\<lparr>ar_term = ae_term args, ar_success = True\<rparr>,
            ae_commit V args (append_loop V (ae_entries args) (ae_follower V now args n))))"
proof -
  let ?f = "ae_follower V now args n"
  have "(let m = (if current_term n < ae_term args
                 then persist_meta V (n\<lparr>current_term := ae_term args, vote_for := None\<rparr>) else n)
         in m\<lparr>state := Follower, last_heartbeat := now\<rparr>) = ?f"
    by (simp add: ae_follower_def Let_def)
  moreover have "\<not> (ae_term args < current_term n) \<Longrightarrow> current_term ?f = ae_term args" by (simp add: frame_simps)
  moreover have "\<not> (ae_term args < current_term n) \<Longrightarrow>
      current_term (ae_commit V args (append_loop V (ae_entries args) ?f)) = ae_term args"
    by (simp add: ae_commit_def frame_simps)
  ultimately show ?thesis
    unfolding handle_append_entries_def Let_def prev_matches_iff [symmetric]
    by (auto simp: ae_follower_def [symmetric] ae_commit_def frame_simps)
qed

lemma append_accepted:
  assumes "ar_success (fst (handle_append_entries V now args n))"
  shows "ae_accepts args n"
    and "snd (handle_append_entries V now args n)
       = ae_commit V args (append_loop V (ae_entries args) (ae_follower V now args n))"
  using assms by (auto simp: handle_append_entries_eq ae_accepts_def not_less split: if_splits)

lemma ae_commit_log: "state n \<noteq> Leader \<Longrightarrow> log (ae_commit V args n) = log n"
  by (simp add: ae_commit_def apply_logs_log(2))

lemma append_accepted_log:
  assumes "ar_success (fst (handle_append_entries V now args n))"
    and "indexed_from (prev_log_index args) (ae_entries args)"
  shows "log (snd (handle_append_entries V now args n)) = merge_log (prev_log_index args) (ae_entries args) (log n)"
    and "prev_log_index args \<le> length (log n)"
proof -
  show p: "prev_log_index args \<le> length (log n)"
    using append_accepted(1) [OF assms(1)] by (auto simp: ae_accepts_def prev_matches_def)
  show "log (snd (handle_append_entries V now args n)) = merge_log (prev_log_index args) (ae_entries args) (log n)"
    using append_loop_merges [OF assms(2), of "ae_follower V now args n" V] p
    by (simp add: append_accepted(2) [OF assms(1)] ae_commit_log frame_simps)
qed

lemma ae_commit_index:
  "commit_index (ae_commit V args n) =
     (if commit_index n < leader_commit args then min (leader_commit args) (length (log n)) else commit_index n)"
  by (simp add: ae_commit_def frame_simps)

text \<open>C6: AppendEntries resolves conflicts as the Raft rule says. A successful call had a matching
  previous entry; it leaves the log merged with the received entries (matching entries kept, the
  first conflict truncated), still numbered from 1, with everything up to the previous entry
  untouched, and moves the commit index to the leader's, bounded by the new log. A refused call
  changes neither log nor commit index.\<close>

theorem append_entries_merges_log:
  assumes "log_wf (log n)" and "indexed_from (prev_log_index args) (ae_entries args)"
  shows "(ar_success (fst (handle_append_entries V now args n)) \<longrightarrow>
      prev_matches args (log n) \<and>
      log (snd (handle_append_entries V now args n)) = merge_log (prev_log_index args) (ae_entries args) (log n) \<and>
      log_wf (log (snd (handle_append_entries V now args n))) \<and>
      take (prev_log_index args) (log (snd (handle_append_entries V now args n))) = take (prev_log_index args) (log n) \<and>
      commit_index (snd (handle_append_entries V now args n)) =
        (if commit_index n < leader_commit args
         then min (leader_commit args) (length (log (snd (handle_append_entries V now args n)))) else commit_index n)) \<and>
    (\<not> ar_success (fst (handle_append_entries V now args n)) \<longrightarrow>
      log (snd (handle_append_entries V now args n)) = log n \<and>
      commit_index (snd (handle_append_entries V now args n)) = commit_index n)"
proof (intro conjI impI)
  let ?h = "handle_append_entries V now args n"
  assume ok: "ar_success (fst ?h)"
  note l = append_accepted_log [OF ok assms(2)]
  show "prev_matches args (log n)" using append_accepted(1) [OF ok] by (simp add: ae_accepts_def)
  show "log (snd ?h) = merge_log (prev_log_index args) (ae_entries args) (log n)" by (rule l(1))
  show "log_wf (log (snd ?h))" unfolding l(1) by (rule merge_log_wf [OF assms l(2)])
  show "take (prev_log_index args) (log (snd ?h)) = take (prev_log_index args) (log n)"
    unfolding l(1) by (rule merge_log_prefix [OF l(2)])
  show "commit_index (snd ?h) = (if commit_index n < leader_commit args
         then min (leader_commit args) (length (log (snd ?h))) else commit_index n)"
    by (simp add: append_accepted(2) [OF ok] ae_commit_index ae_commit_log frame_simps)
next
  let ?h = "handle_append_entries V now args n"
  assume "\<not> ar_success (fst ?h)"
  then show "log (snd ?h) = log n" and "commit_index (snd ?h) = commit_index n"
    by (auto simp: handle_append_entries_eq frame_simps split: if_splits)
qed

section \<open>Replication from leader to follower\<close>

text \<open>Log Matching: logs that hold an entry of the same term at the same place agree up to there.\<close>

definition log_matching :: "log_entry list \<Rightarrow> log_entry list \<Rightarrow> bool" where
  "log_matching l l' \<longleftrightarrow> (\<forall>i. i < length l \<longrightarrow> i < length l' \<longrightarrow> le_term (l ! i) = le_term (l' ! i) \<longrightarrow>
     take (Suc i) l = take (Suc i) l')"

lemma log_matching_refl [simp]: "log_matching l l"
  by (simp add: log_matching_def)

lemma log_matching_sym: "log_matching l l' \<Longrightarrow> log_matching l' l"
  by (auto simp: log_matching_def)

lemma log_matching_nth:
  assumes "log_matching l l'" and "i < length l" and "i < length l'" and "le_term (l ! i) = le_term (l' ! i)"
  shows "l ! i = l' ! i"
proof -
  have "take (Suc i) l ! i = take (Suc i) l' ! i" using assms by (simp add: log_matching_def)
  then show ?thesis by simp
qed

text \<open>The merged log is the old one or the leader's.\<close>

lemma merge_log_cases:
  assumes "p \<le> length f" and "take p f = take p l" and "p \<le> length l" and "log_matching f l"
  shows "merge_log p (drop p l) f = f \<and> length l \<le> length f \<and> take (length l) f = l \<or> merge_log p (drop p l) f = l"
  using assms
proof (induction "length l - p" arbitrary: p)
  case 0
  then show ?case by simp
next
  case (Suc k)
  then have p: "p < length l" by simp
  then have dr: "drop p l = l ! p # drop (Suc p) l" by (simp add: Cons_nth_drop_Suc)
  show ?case
  proof (cases "p < length f \<and> le_term (f ! p) = le_term (l ! p)")
    case True
    then have "take (Suc p) f = take (Suc p) l" using p Suc.prems(4) by (simp add: log_matching_def)
    then show ?thesis using Suc.hyps(1) [of "Suc p"] Suc.hyps(2) Suc.prems(4) True p by (simp add: dr)
  next
    case False
    then have "merge_log p (drop p l) f = take p l @ drop p l" using Suc.prems(2) by (auto simp: dr)
    then show ?thesis by simp
  qed
qed

lemma append_args_for_entries:
  assumes "next_index l peer = Some nx" and "1 \<le> nx" and "nx \<le> length (log l) + 1"
  shows "prev_log_index (append_args_for l peer) = nx - 1"
    and "ae_entries (append_args_for l peer) = drop (nx - 1) (log l)"
    and "0 < nx - 1 \<Longrightarrow> prev_log_term (append_args_for l peer) = le_term (log l ! (nx - 2))"
  using assms by (auto simp: append_args_for_def Let_def numeral_2_eq_2)

lemma indexed_from_drop: "indexed_from p xs \<Longrightarrow> indexed_from (p + k) (drop k xs)"
  by (auto simp: indexed_from_def)

text \<open>One round of replication: when a follower accepts the message that the leader builds for
  it, and the two logs satisfy Log Matching, then the follower's log contains the leader's log as
  a prefix. Its new log is its old one or the leader's, so that Log Matching is kept against
  every third log.\<close>

theorem replication_step:
  assumes "log_wf (log l)" and "log_matching (log f) (log l)"
    and "next_index l peer = Some nx" and "1 \<le> nx" and "nx \<le> length (log l) + 1"
    and "ar_success (fst (handle_append_entries V now (append_args_for l peer) f))"
  shows "take (length (log l)) (log (snd (handle_append_entries V now (append_args_for l peer) f))) = log l \<and>
    log (snd (handle_append_entries V now (append_args_for l peer) f)) \<in> {log f, log l}"
proof -
  let ?a = "append_args_for l peer"
  note a = append_args_for_entries [OF assms(3-5)]
  have ix: "indexed_from (prev_log_index ?a) (ae_entries ?a)"
    using indexed_from_drop [OF assms(1), of "nx - 1"] by (simp add: a)
  note new = append_accepted_log [OF assms(6) ix]
  have "take (nx - 1) (log f) = take (nx - 1) (log l)"
  proof (cases "nx - 1")
    case (Suc k)
    then have "nx = Suc (Suc k)" by simp
    then have "le_term (log f ! k) = le_term (log l ! k)"
      using append_accepted(1) [OF assms(6)] a(1,3) Suc by (simp add: ae_accepts_def prev_matches_def)
    then show ?thesis using assms(2,5) new(2) a(1) Suc by (simp add: log_matching_def)
  qed simp
  moreover have "nx - 1 \<le> length (log l)" using assms(5) by simp
  ultimately show ?thesis
    using merge_log_cases [of "nx - 1" "log f" "log l"] new assms(2) a(1,2) by auto
qed

end
