(* ===== verification/Node_Inv.thy ===== *)
theory Node_Inv
  imports Node_Props
begin

text \<open>
  Votes, commitment and membership changes of a node, and the invariant of a running node by
  induction over its steps: the term and the vote on disk are those in memory, the dial list
  agrees with the configuration, \<open>next_index\<close> never reaches 0.
\<close>

section \<open>Votes\<close>

definition meta_synced :: "('b, 'w, 'c) node_env \<Rightarrow> ('b, 'w, 'c) raft_node \<Rightarrow> bool" where
  "meta_synced V n \<longleftrightarrow> read_meta (codec_of V) (storage n) = (current_term n, vote_for n)"

lemma persist_meta_good:
  assumes "store_ok (codec_of V) (storage n)"
  shows "store_ok (codec_of V) (storage (persist_meta V n))" and "meta_synced V (persist_meta V n)"
    and "restore_wal_log (codec_of V) (storage (persist_meta V n)) = restore_wal_log (codec_of V) (storage n)"
  using save_meta_good [OF assms, of "current_term n" "vote_for n"]
  by (simp_all add: persist_meta_def meta_synced_def frame_simps)

text \<open>Whether a vote request is granted.\<close>

definition grants_vote :: "request_vote_args \<Rightarrow> ('b, 'w, 'c) raft_node \<Rightarrow> bool" where
  "grants_vote args n \<longleftrightarrow> current_term n \<le> rv_term args \<and>
     log_up_to_date (rv_last_log_index args) (rv_last_log_term args) n \<and>
     (current_term n < rv_term args \<or> vote_for n = None \<or> vote_for n = Some (candidate_id args))"

lemma log_up_to_date_cong: "log n = log m \<Longrightarrow> log_up_to_date i t n = log_up_to_date i t m"
  by (simp add: log_up_to_date_def get_last_log_info_def)

definition vote_stepped_down :: "('b, 'w, 'c) node_env \<Rightarrow> nat \<Rightarrow> ('b, 'w, 'c) raft_node \<Rightarrow> ('b, 'w, 'c) raft_node" where
  "vote_stepped_down V t n =
     (if current_term n < t then persist_meta V (n\<lparr>current_term := t, state := Follower, vote_for := None\<rparr>) else n)"

lemma vote_stepped_down_frame [frame_simps]:
  "log (vote_stepped_down V t n) = log n" "node_id (vote_stepped_down V t n) = node_id n"
  "current_term (vote_stepped_down V t n) = max (current_term n) t"
  "commit_index (vote_stepped_down V t n) = commit_index n" "last_applied (vote_stepped_down V t n) = last_applied n"
  "next_index (vote_stepped_down V t n) = next_index n" "match_index (vote_stepped_down V t n) = match_index n"
  "peers (vote_stepped_down V t n) = peers n" "current_config (vote_stepped_down V t n) = current_config n"
  "state_machine_of (vote_stepped_down V t n) = state_machine_of n"
  "vote_for (vote_stepped_down V t n) = (if current_term n < t then None else vote_for n)"
  by (auto simp: vote_stepped_down_def frame_simps)

lemma handle_request_vote_eq:
  "handle_request_vote V now args n =
     (if rv_term args < current_term n then (\<lparr>vr_term = current_term n, vote_granted = False\<rparr>, n)
      else if grants_vote args n
      then (\<lparr>vr_term = rv_term args, vote_granted = True\<rparr>,
            (persist_meta V ((vote_stepped_down V (rv_term args) n)\<lparr>vote_for := Some (candidate_id args)\<rparr>))
              \<lparr>last_heartbeat := now\<rparr>)
      else (\<lparr>vr_term = rv_term args, vote_granted = False\<rparr>, vote_stepped_down V (rv_term args) n))"
proof -
  have "log_up_to_date i t (vote_stepped_down V u n) = log_up_to_date i t n" for i t u
    by (rule log_up_to_date_cong) (simp add: frame_simps)
  then show ?thesis
    unfolding handle_request_vote_def Let_def vote_stepped_down_def [symmetric]
    by (auto simp: grants_vote_def frame_simps)
qed

text \<open>A vote is granted exactly when the request is not of an older term, the candidate's log is
  at least as up to date, and the node has not voted for somebody else in that term. The vote and
  the term are on disk when the reply is built. A refused request in the same term leaves the
  vote as it was, and no request touches log or commit index.\<close>

theorem request_vote_spec:
  assumes "store_ok (codec_of V) (storage n)" and "meta_synced V n"
  shows "(vote_granted (fst (handle_request_vote V now args n)) \<longleftrightarrow> grants_vote args n) \<and>
    vr_term (fst (handle_request_vote V now args n)) = max (current_term n) (rv_term args) \<and>
    current_term (snd (handle_request_vote V now args n)) = max (current_term n) (rv_term args) \<and>
    vote_for (snd (handle_request_vote V now args n)) =
      (if grants_vote args n then Some (candidate_id args)
       else if current_term n < rv_term args then None else vote_for n) \<and>
    meta_synced V (snd (handle_request_vote V now args n)) \<and>
    log (snd (handle_request_vote V now args n)) = log n \<and>
    commit_index (snd (handle_request_vote V now args n)) = commit_index n"
proof -
  let ?s = "vote_stepped_down V (rv_term args) n"
  have s: "store_ok (codec_of V) (storage ?s)" "meta_synced V ?s"
    using assms persist_meta_good(1,2) [of V "n\<lparr>current_term := rv_term args, state := Follower, vote_for := None\<rparr>"]
    by (simp_all add: vote_stepped_down_def)
  have g: "meta_synced V (persist_meta V (?s\<lparr>vote_for := Some (candidate_id args)\<rparr>))"
    using s(1) by (intro persist_meta_good(2)) simp
  then have "meta_synced V ((persist_meta V (?s\<lparr>vote_for := Some (candidate_id args)\<rparr>))\<lparr>last_heartbeat := now\<rparr>)"
    by (simp add: meta_synced_def)
  then show ?thesis
    using s(2) assms(2) by (auto simp: handle_request_vote_eq frame_simps grants_vote_def)
qed

text \<open>A pre-vote probe is harmless and honest: it changes nothing but the time of the last
  heartbeat, and a probe for the next term is granted only if the real vote request with the same
  arguments would be granted.\<close>

theorem pre_vote_harmless:
  "snd (handle_pre_vote now args n) = n\<lparr>last_heartbeat := now\<rparr> \<and>
   (vote_granted (fst (handle_pre_vote now args n)) \<and> rv_term args = current_term n + 1 \<longrightarrow>
      vote_granted (fst (handle_request_vote V now args n)))"
proof -
  have "log_up_to_date i t (n\<lparr>last_heartbeat := now\<rparr>) = log_up_to_date i t n" for i t
    by (rule log_up_to_date_cong) simp
  then show ?thesis
    by (auto simp: handle_pre_vote_def handle_request_vote_eq grants_vote_def Let_def split: if_splits)
qed

section \<open>Commitment\<close>

lemma maybe_commit_cases:
  obtains (same) "maybe_commit V n = n"
  | (advance) j where "maybe_commit V n = apply_logs V (n\<lparr>commit_index := j\<rparr>)"
      and "state n = Leader" and "commit_index n < j" and "j \<le> length (log n)"
      and "le_term (log n ! (j - 1)) = current_term n"
      and "config_quorum_reached (current_config n) (match_index n) (node_id n) (length (log n)) j"
      and "j = config_quorum_reached_index (current_config n) (match_index n) (node_id n) (length (log n))"
proof -
  let ?j = "config_quorum_reached_index (current_config n) (match_index n) (node_id n) (length (log n))"
  let ?q = "config_quorum_reached (current_config n) (match_index n) (node_id n) (length (log n))"
  have "\<forall>i j. ?q j \<longrightarrow> i \<le> j \<longrightarrow> ?q i" using quorum_reached_antimono by blast
  from quorum_search_spec [OF this, of 1 0 "length (log n)" "length (log n)" ?j]
  have q: "?j \<le> length (log n) \<and> (?j = 0 \<or> ?q ?j)"
    by (auto simp: config_quorum_reached_index_def)
  show ?thesis
  proof (cases "state n = Leader \<and> commit_index n < ?j \<and> le_term (log n ! (?j - 1)) = current_term n")
    case True
    with q have "maybe_commit V n = apply_logs V (n\<lparr>commit_index := ?j\<rparr>)"
      by (auto simp: maybe_commit_def Let_def)
    then show ?thesis using advance [of ?j] True q by auto
  next
    case False
    with q have "maybe_commit V n = n" by (auto simp: maybe_commit_def Let_def)
    then show ?thesis by (rule same)
  qed
qed

lemma maybe_commit_frame [frame_simps]:
  "state (maybe_commit V n) = state n" "current_term (maybe_commit V n) = current_term n"
  "vote_for (maybe_commit V n) = vote_for n" "node_id (maybe_commit V n) = node_id n"
  "next_index (maybe_commit V n) = next_index n" "match_index (maybe_commit V n) = match_index n"
  by (cases V n rule: maybe_commit_cases; simp add: frame_simps)+

text \<open>C11: The leader commits only what a quorum of the configuration has: when \<open>maybe_commit\<close> moves
  the commit index, it moves forward, within the log, to an entry of the leader's own term that a
  quorum of the active configuration has, and the entries up to it are applied. It never moves
  the index otherwise, and never backwards.\<close>

theorem commit_needs_quorum:
  "commit_index n \<le> commit_index (maybe_commit V n) \<and>
   (commit_index (maybe_commit V n) \<noteq> commit_index n \<longrightarrow>
      state n = Leader \<and> commit_index (maybe_commit V n) \<le> length (log n) \<and>
      le_term (log n ! (commit_index (maybe_commit V n) - 1)) = current_term n \<and>
      config_quorum_reached (current_config n) (match_index n) (node_id n) (length (log n))
        (commit_index (maybe_commit V n)) \<and>
      last_applied (maybe_commit V n) = max (last_applied n) (commit_index (maybe_commit V n)))"
proof (cases V n rule: maybe_commit_cases)
  case same
  then show ?thesis by simp
next
  case (advance j)
  have "last_applied (apply_logs V (n\<lparr>commit_index := j\<rparr>)) = max (last_applied n) j"
    using apply_logs_applies [of "n\<lparr>commit_index := j\<rparr>" V] advance(4) by simp
  then show ?thesis using advance by (simp add: frame_simps)
qed

section \<open>Membership changes\<close>

lemma append_entry_good:
  assumes "store_ok (codec_of V) (storage n)"
  obtains st where "append_entry V e n = (Inr (), n\<lparr>storage := st, log := log n @ [e]\<rparr>)"
    and "store_ok (codec_of V) st"
    and "restore_wal_log (codec_of V) st = restore_wal_log (codec_of V) (storage n) @ [e]"
    and "read_meta (codec_of V) st = read_meta (codec_of V) (storage n)"
proof -
  from append_wal_log_good [OF assms, of e] obtain st where
    st: "append_wal_log (codec_of V) e (storage n) = (Inr (), st)" "store_ok (codec_of V) st"
      "restore_wal_log (codec_of V) st = restore_wal_log (codec_of V) (storage n) @ [e]" by blast
  have "read_meta (codec_of V) st = read_meta (codec_of V) (storage n)"
    using read_meta_append [of "codec_of V" e "storage n"] st(1) by simp
  with st show ?thesis by (intro that [of st]) (simp_all add: append_entry_def)
qed

text \<open>Appending the first phase of a change from \<open>old\<close> to \<open>new\<close>.\<close>

definition joint_proposed :: "server_id list \<Rightarrow> server_id list \<Rightarrow> ('b, 'w, 'c) raft_node \<Rightarrow> ('b, 'w, 'c) raft_node \<Rightarrow> bool" where
  "joint_proposed old new n m \<longleftrightarrow>
     log m = log n @ [next_entry n (CmdInstallConfiguration (Joint old new))] \<and>
     pending_post_joint_simple m = Some (Simple new) \<and>
     current_config m = current_config n \<and> current_term m = current_term n \<and> vote_for m = vote_for n \<and>
     state m = state n \<and> node_id m = node_id n \<and> state_machine_of m = state_machine_of n \<and>
     adjacent (Simple old) (Joint old new) \<and> adjacent (Joint old new) (Simple new) \<and>
     config_wf (Joint old new) \<and> config_wf (Simple new)"

lemma propose_joint_good:
  assumes "store_ok (codec_of V) (storage n)" and "distinct (ids old)" and "distinct (ids new)"
  obtains m where "propose_joint V old new n = (Inr (length (log n) + 1), m)" and "joint_proposed old new n m"
proof -
  from append_entry_good [OF assms(1), of "next_entry n (CmdInstallConfiguration (Joint old new))"]
  obtain st where "append_entry V (next_entry n (CmdInstallConfiguration (Joint old new))) n =
    (Inr (), n\<lparr>storage := st, log := log n @ [next_entry n (CmdInstallConfiguration (Joint old new))]\<rparr>)" by blast
  then show ?thesis
    using assms(2,3)
    by (intro that [of "n\<lparr>storage := st, log := log n @ [next_entry n (CmdInstallConfiguration (Joint old new))],
          pending_post_joint_simple := Some (Simple new)\<rparr>"])
      (auto simp: propose_joint_def joint_proposed_def adjacent_def)
qed

text \<open>A leader whose configuration is a simple one turns a request to add an absent server, or to
  remove another server that is present, into the joint entry from the old to the new server
  list. Both lists have distinct ids and the joint configuration is adjacent to the old and to
  the new simple one, so that quorums overlap along the change; the second phase is remembered.
  A node that is not the leader, an existing member, the leader itself and an unknown server are
  refused with their errors, and nothing changes.\<close>

theorem membership_proposals:
  assumes "store_ok (codec_of V) (storage n)" and "current_config n = Simple old" and "config_wf (Simple old)"
  shows "((\<exists>m. propose_add_node V srv n = (Inr (length (log n) + 1), m) \<and> joint_proposed old (old @ [srv]) n m) \<or>
      propose_add_node V srv n = (Inl (if state n \<noteq> Leader then MembershipNotLeader else AlreadyMember (node_id_of srv)), n) \<and>
        (state n \<noteq> Leader \<or> node_id_of srv \<in> set (ids old))) \<and>
     ((\<exists>m. propose_remove_node V nid n = (Inr (length (log n) + 1), m) \<and>
           joint_proposed old (filter (\<lambda>s. node_id_of s \<noteq> nid) old) n m) \<or>
      (\<exists>e. propose_remove_node V nid n = (Inl e, n)) \<and>
        (state n \<noteq> Leader \<or> nid = node_id n \<or> nid \<notin> set (ids old) \<or> set (ids old) \<subseteq> {nid}))"
    (is "?add \<and> ?remove")
proof
  have d: "distinct (ids old)" using assms(3) by simp
  have c: "config_contains (current_config n) i \<longleftrightarrow> i \<in> set (ids old)" for i
    by (simp add: config_contains_iff assms(2))
  show ?add
  proof (cases "state n = Leader \<and> node_id_of srv \<notin> set (ids old)")
    case True
    then have "distinct (ids (old @ [srv]))" using d by simp
    from propose_joint_good [OF assms(1) d this] True c show ?thesis
      by (simp add: propose_add_node_def assms(2) Let_def) metis
  next
    case False
    then show ?thesis using c by (auto simp: propose_add_node_def)
  qed
  let ?new = "filter (\<lambda>s. node_id_of s \<noteq> nid) old"
  show ?remove
  proof (cases "state n = Leader \<and> nid \<noteq> node_id n \<and> nid \<in> set (ids old) \<and> ?new \<noteq> []")
    case True
    have "distinct (ids ?new)" using d by (simp add: distinct_map_filter)
    from propose_joint_good [OF assms(1) d this] True c show ?thesis
      by (simp add: propose_remove_node_def assms(2) Let_def) metis
  next
    case False
    then show ?thesis using c by (auto simp: propose_remove_node_def assms(2) Let_def filter_empty_conv)
  qed
qed

text \<open>The second phase follows by itself: when the leader installs the joint configuration whose
  change it started, it appends the simple configuration with the new servers to its log and on
  disk, forgets the pending phase and dials exactly the other servers of both lists; a follower
  installs the configuration without touching its log.\<close>

theorem joint_install_completes:
  assumes "store_ok (codec_of V) (storage n)"
  shows "(state n = Leader \<and> pending_post_joint_simple n = Some (Simple new) \<longrightarrow>
      log (install_configuration V (Joint old new) n)
        = log n @ [next_entry n (CmdInstallConfiguration (Simple new))] \<and>
      restore_wal_log (codec_of V) (storage (install_configuration V (Joint old new) n))
        = restore_wal_log (codec_of V) (storage n) @ [next_entry n (CmdInstallConfiguration (Simple new))] \<and>
      pending_post_joint_simple (install_configuration V (Joint old new) n) = None) \<and>
    (state n \<noteq> Leader \<longrightarrow> log (install_configuration V c n) = log n) \<and>
    current_config (install_configuration V c n) = c \<and>
    peers (install_configuration V c n) = peer_addrs_of (node_id n) c"
proof -
  let ?n = "n\<lparr>current_config := Joint old new, peers := peer_addrs_of (node_id n) (Joint old new),
    pending_post_joint_simple := None\<rparr>"
  have e: "next_entry ?n (CmdInstallConfiguration (Simple new)) = next_entry n (CmdInstallConfiguration (Simple new))"
    by (simp add: next_entry_def)
  have "store_ok (codec_of V) (storage ?n)" using assms by simp
  from append_entry_good [OF this, of "next_entry n (CmdInstallConfiguration (Simple new))"]
  obtain st where "append_entry V (next_entry n (CmdInstallConfiguration (Simple new))) ?n =
      (Inr (), ?n\<lparr>storage := st, log := log ?n @ [next_entry n (CmdInstallConfiguration (Simple new))]\<rparr>)"
    "restore_wal_log (codec_of V) st =
      restore_wal_log (codec_of V) (storage ?n) @ [next_entry n (CmdInstallConfiguration (Simple new))]" by blast
  then have "state n = Leader \<and> pending_post_joint_simple n = Some (Simple new) \<longrightarrow>
      log (install_configuration V (Joint old new) n)
        = log n @ [next_entry n (CmdInstallConfiguration (Simple new))] \<and>
      restore_wal_log (codec_of V) (storage (install_configuration V (Joint old new) n))
        = restore_wal_log (codec_of V) (storage n) @ [next_entry n (CmdInstallConfiguration (Simple new))] \<and>
      pending_post_joint_simple (install_configuration V (Joint old new) n) = None"
    by (simp add: install_configuration_def post_joint_matches_def e Let_def)
  moreover have "current_config (install_configuration V c n) = c \<and>
      peers (install_configuration V c n) = peer_addrs_of (node_id n) c"
    by (auto simp: install_configuration_def frame_simps Let_def split: option.splits)
  ultimately show ?thesis using install_configuration_log(2) [of n V c] by blast
qed

section \<open>The invariant of a running node\<close>

definition node_inv :: "('b, 'w, 'c) node_env \<Rightarrow> ('b, 'w, 'c) raft_node \<Rightarrow> bool" where
  "node_inv V n \<longleftrightarrow>
     store_ok (codec_of V) (storage n) \<and> meta_synced V n \<and> sm_ok (sm_env_of V) (state_machine_of n) \<and>
     (\<forall>p. next_index n p \<noteq> Some 0) \<and> peers n = peer_addrs_of (node_id n) (current_config n)"

lemma node_invD:
  assumes "node_inv V n"
  shows "store_ok (codec_of V) (storage n)" "meta_synced V n" "sm_ok (sm_env_of V) (state_machine_of n)"
    "next_index n p \<noteq> Some 0" "peers n = peer_addrs_of (node_id n) (current_config n)"
  using assms by (simp_all add: node_inv_def)

lemma node_inv_cong:
  assumes "node_inv V n" and "storage m = storage n" and "current_term m = current_term n"
    and "vote_for m = vote_for n" and "state_machine_of m = state_machine_of n"
    and "next_index m = next_index n" and "peers m = peers n" and "node_id m = node_id n"
    and "current_config m = current_config n"
  shows "node_inv V m"
  using assms by (simp add: node_inv_def meta_synced_def)

lemma node_inv_update [inv_intros]:
  "node_inv V n \<Longrightarrow> node_inv V (n\<lparr>last_heartbeat := t\<rparr>)" "node_inv V n \<Longrightarrow> node_inv V (n\<lparr>state := st\<rparr>)"
  "node_inv V n \<Longrightarrow> node_inv V (n\<lparr>commit_index := i\<rparr>)" "node_inv V n \<Longrightarrow> node_inv V (n\<lparr>last_applied := i\<rparr>)"
  "node_inv V n \<Longrightarrow> node_inv V (n\<lparr>log := l\<rparr>)" "node_inv V n \<Longrightarrow> node_inv V (n\<lparr>pending_post_joint_simple := pc\<rparr>)"
  "node_inv V n \<Longrightarrow> node_inv V (n\<lparr>match_index := mi\<rparr>)"
  "node_inv V n \<Longrightarrow> node_inv V (n\<lparr>last_quorum_heartbeat_at := q\<rparr>)"
  "node_inv V n \<Longrightarrow> sm_ok (sm_env_of V) s \<Longrightarrow> node_inv V (n\<lparr>state_machine_of := s\<rparr>)"
  "node_inv V n \<Longrightarrow> node_inv V (n\<lparr>current_config := c, peers := peer_addrs_of (node_id n) c\<rparr>)"
  "node_inv V n \<Longrightarrow> 0 < i \<Longrightarrow> node_inv V (n\<lparr>next_index := (next_index n)(p \<mapsto> i)\<rparr>)"
  by (auto simp: node_inv_def meta_synced_def)

text \<open>Adopting a term and a vote, and writing both to disk.\<close>

lemma node_inv_persist [inv_intros]:
  assumes "node_inv V n" and "storage m = storage n" and "state_machine_of m = state_machine_of n"
    and "next_index m = next_index n" and "peers m = peers n" and "node_id m = node_id n"
    and "current_config m = current_config n"
  shows "node_inv V (persist_meta V m)"
proof -
  have "store_ok (codec_of V) (storage m)" using node_invD(1) [OF assms(1)] assms(2) by simp
  from persist_meta_good(1,2) [OF this] show ?thesis
    using assms by (simp add: node_inv_def frame_simps)
qed

lemma node_inv_append_entry [inv_intros]:
  assumes "node_inv V n"
  shows "node_inv V (snd (append_entry V e n))"
proof -
  from append_entry_good [OF node_invD(1) [OF assms], of e] obtain st where
    "append_entry V e n = (Inr (), n\<lparr>storage := st, log := log n @ [e]\<rparr>)" "store_ok (codec_of V) st"
    "read_meta (codec_of V) st = read_meta (codec_of V) (storage n)" by blast
  then show ?thesis using assms by (simp add: node_inv_def meta_synced_def)
qed

lemma node_inv_install_configuration [inv_intros]:
  assumes "node_inv V n"
  shows "node_inv V (install_configuration V cfg n)"
proof -
  have "node_inv V (n\<lparr>current_config := cfg, peers := peer_addrs_of (node_id n) cfg\<rparr>)"
    using assms by (intro inv_intros)
  then show ?thesis
    by (auto simp: install_configuration_def Let_def split: option.splits intro!: inv_intros)
qed

lemma node_inv_apply_command [inv_intros]: "node_inv V n \<Longrightarrow> node_inv V (apply_command V c n)"
  using lsm.exec_ok [OF node_invD(3), of V n c]
  by (cases c) (auto intro!: inv_intros)

lemma node_inv_apply_logs [inv_intros]: "node_inv V n \<Longrightarrow> node_inv V (apply_logs V n)"
  by (rule apply_logs_rule [where P = "node_inv V"]) (simp_all add: apply_step_def inv_intros)

lemma node_inv_maybe_commit [inv_intros]: "node_inv V n \<Longrightarrow> node_inv V (maybe_commit V n)"
  by (cases V n rule: maybe_commit_cases) (simp_all add: inv_intros)

lemma node_inv_append_loop [inv_intros]: "node_inv V n \<Longrightarrow> node_inv V (append_loop V es n)"
proof (induction V es n rule: append_loop.induct)
  case (2 V e es n)
  have "node_inv V (n\<lparr>log := l, storage := snd (append_wal_log (codec_of V) e (storage n))\<rparr>)" for l
    using "2.prems" raft_wal.append_snd [OF node_invD(1) [OF "2.prems"], of e]
    by (simp add: node_inv_def meta_synced_def frame_simps)
  then show ?case using 2 by (simp add: Let_def)
qed simp

lemma node_inv_stepped_down [inv_intros]:
  assumes "node_inv V n"
  shows "node_inv V (vote_stepped_down V t n)"
  using assms node_inv_persist [OF assms, of "n\<lparr>current_term := t, state := Follower, vote_for := None\<rparr>"]
  by (simp add: vote_stepped_down_def)

lemma node_inv_request_vote [inv_intros]:
  assumes "node_inv V n"
  shows "node_inv V (snd (handle_request_vote V now args n))"
proof -
  note s = node_inv_stepped_down [OF assms, of "rv_term args"]
  have "node_inv V (persist_meta V ((vote_stepped_down V (rv_term args) n)\<lparr>vote_for := Some (candidate_id args)\<rparr>))"
    by (rule node_inv_persist [OF s]) simp_all
  then show ?thesis
    using assms s by (simp add: handle_request_vote_eq node_inv_update)
qed

lemma node_inv_append_entries [inv_intros]:
  assumes "node_inv V n"
  shows "node_inv V (snd (handle_append_entries V now args n))"
proof -
  have "node_inv V (if current_term n < ae_term args
      then persist_meta V (n\<lparr>current_term := ae_term args, vote_for := None\<rparr>) else n)"
    using assms by (auto intro!: node_inv_persist [OF assms])
  then have "node_inv V (ae_follower V now args n)"
    unfolding ae_follower_def by (intro node_inv_update(1,2))
  then show ?thesis
    using assms by (auto simp: handle_append_entries_eq ae_commit_def intro!: inv_intros)
qed

lemma record_vote_ok: "sm_ok E s \<Longrightarrow> sm_ok E (snd (record_vote i voter v s))"
  by (auto simp: record_vote_def sm_ok_def no_faults_def sm_inv_def split: option.splits)

lemma node_inv_tx_vote [inv_intros]:
  assumes "node_inv V n"
  shows "node_inv V (snd (handle_tx_vote_request V req n))"
proof -
  have a: "node_inv V (apply_logs V (if commit_index n < tv_last_log_index req \<and> tv_last_log_index req \<le> length (log n)
                 then n\<lparr>commit_index := tv_last_log_index req\<rparr> else n))"
    using assms by (auto intro!: inv_intros)
  have "node_inv V (persist_meta V (n\<lparr>current_term := tv_term req, state := Follower, vote_for := None\<rparr>))"
    by (rule node_inv_persist [OF assms]) simp_all
  then show ?thesis
    using assms a record_vote_ok [OF node_invD(3) [OF a]]
    by (simp add: handle_tx_vote_request_def Let_def node_inv_update)
qed

lemma node_inv_propose_loop [inv_intros]:
  "node_inv V n \<Longrightarrow> node_inv V (snd (propose_loop V i cs n))"
proof (induction V i cs n rule: propose_loop.induct)
  case (2 V i c cs n)
  let ?e = "\<lparr>le_term = current_term n, le_index = i, le_command = c\<rparr>"
  obtain m r where "append_entry V ?e n = (r, m)" by fastforce
  then show ?case using 2 node_inv_append_entry [OF "2.prems", of ?e] by (cases r) auto
qed simp

lemma node_inv_proposals [inv_intros]:
  assumes "node_inv V n"
  shows "node_inv V (snd (propose V c n))" "node_inv V (snd (propose_batch V cs n))"
    "node_inv V (snd (propose_add_node V srv n))" "node_inv V (snd (propose_remove_node V nid n))"
    "node_inv V (snd (propose_abort_tx V tx n))"
proof -
  have a: "node_inv V (snd (append_entry V e n))" for e by (rule node_inv_append_entry [OF assms])
  have j: "node_inv V (snd (propose_joint V old new n))" for old new
    using a [of "next_entry n (CmdInstallConfiguration (Joint old new))"]
    by (auto simp: propose_joint_def intro!: inv_intros split: prod.splits sum.splits)
  show "node_inv V (snd (propose V c n))" "node_inv V (snd (propose_abort_tx V tx n))"
    using assms a [of "next_entry n c"] a [of "next_entry n (CmdDecideTx tx Abort)"]
    by (auto simp: propose_def propose_abort_tx_def split: prod.splits sum.splits)
  show "node_inv V (snd (propose_batch V cs n))"
    using assms node_inv_propose_loop [OF assms] by (simp add: propose_batch_def)
  show "node_inv V (snd (propose_add_node V srv n))" "node_inv V (snd (propose_remove_node V nid n))"
    using assms j by (simp_all add: propose_add_node_def propose_remove_node_def Let_def)
qed

lemma node_inv_become_leader [inv_intros]: "node_inv V n \<Longrightarrow> node_inv V (become_leader now n)"
  by (auto simp: become_leader_def node_inv_def meta_synced_def map_of_map_restrict restrict_map_def split: if_splits)

lemma node_inv_promote [inv_intros]:
  assumes "node_inv V n"
  shows "node_inv V (promote_to_candidate_locked V now n)"
  unfolding promote_to_candidate_locked_def by (intro node_inv_update(1) node_inv_persist [OF assms]) simp_all

lemma node_inv_request_votes [inv_intros]: "node_inv V n \<Longrightarrow> node_inv V (snd (snd (request_votes now n)))"
  by (auto simp: request_votes_def Let_def intro!: inv_intros)

lemma node_inv_vote_reply [inv_intros]:
  assumes "node_inv V n"
  shows "node_inv V (snd (vote_reply_handler V now reply (r, n)))"
proof -
  have "node_inv V (persist_meta V (n\<lparr>current_term := vr_term reply, state := Follower, vote_for := None\<rparr>))"
    by (rule node_inv_persist [OF assms]) simp_all
  then show ?thesis
    using assms by (auto simp: vote_reply_handler_def Let_def intro!: node_inv_become_leader)
qed

lemma node_inv_append_reply [inv_intros]:
  assumes "node_inv V n"
  shows "node_inv V (append_reply_handler V now peer args reply n)"
proof -
  have "node_inv V (persist_meta V (n\<lparr>current_term := ar_term reply, state := Follower, vote_for := None\<rparr>))"
    by (rule node_inv_persist [OF assms]) simp_all
  moreover have "node_inv V (n\<lparr>match_index := mi, next_index := (next_index n)(peer \<mapsto> i + 1),
      last_quorum_heartbeat_at := q\<rparr>)" for mi i q
    using assms by (auto simp: node_inv_def meta_synced_def)
  ultimately show ?thesis
    using assms by (simp add: append_reply_handler_def Let_def node_inv_maybe_commit node_inv_update)
qed

lemma node_inv_elections [inv_intros]:
  assumes "node_inv V n"
  shows "node_inv V (snd (snd (become_candidate V now n)))" "node_inv V (snd (become_pre_candidate V now n))"
    "node_inv V (snd (snd (process_pre_vote_reply V now reply r n)))"
proof -
  have p: "node_inv V m \<Longrightarrow> node_inv V (snd (snd (request_votes now (promote_to_candidate_locked V now m))))" for m
    by (intro inv_intros)
  then show "node_inv V (snd (snd (become_candidate V now n)))" using assms by (simp add: become_candidate_def)
  have "node_inv V (n\<lparr>state := PreCandidate\<rparr>)" using assms by (rule node_inv_update)
  then show "node_inv V (snd (become_pre_candidate V now n))"
    using assms by (simp add: become_pre_candidate_def become_leader_checked_def Let_def inv_intros)
  show "node_inv V (snd (snd (process_pre_vote_reply V now reply r n)))"
    using assms p [OF assms]
    by (auto simp: process_pre_vote_reply_def Let_def intro: node_inv_update split: prod.splits)
qed

end
