(* ===== verification/Node_Steps.thy ===== *)
theory Node_Steps
  imports Node_Inv
begin

text \<open>
  Snapshots of a node, and the steps of a running node as an inductive relation: every handler,
  every proposal, every reply and a restart. Invariants are proved by induction over runs.
\<close>

section \<open>Installing a snapshot\<close>

lemma clear_for_snapshot_ok:
  assumes "sm_ok E s"
  obtains t where "clear_for_snapshot s = (Inr (), t)" and "sm_ok E t" and "sm_view E t = Map.empty"
    and "sm_staged t = Map.empty"
proof -
  have "no_faults s" using assms by (simp add: sm_ok_def)
  from install_snapshot_spec [OF this, of "[]" E] obtain s' where
    s': "install_snapshot [] s = (Inr (), s')" "no_faults s'" "sm_inv E s'" "sm_view E s' = Map.empty"
      "pending_txs s' = []" by (simp, metis)
  then obtain t where t: "clear_for_snapshot s = (Inr (), t)" "s' = t\<lparr>memtable_bytes := 0\<rparr>"
    by (auto simp: install_snapshot_def try_then_def split: prod.splits sum.splits)
  show ?thesis
    by (rule that [OF t(1)])
      (use s' assms t(2) in \<open>simp_all add: sm_ok_def no_faults_def sm_inv_def sm_view_def sm_staged_def fun_eq_iff\<close>)
qed

definition load_pairs :: "'b sm_env \<Rightarrow> (string \<times> string) list \<Rightarrow> 'b state_machine \<Rightarrow> 'b state_machine" where
  "load_pairs E data s = fold (\<lambda>(k, v) sm. snd (sm_set E k v sm)) data s"

lemma load_pairs_run: "load_pairs E data s = fold (sm_apply E) (map (\<lambda>(k, v). CmdSet k v) data) s"
  by (induction data arbitrary: s) (auto simp: load_pairs_def)

lemma kv_spec_sets:
  assumes "distinct (map fst data)"
  shows "fold kv_spec (map (\<lambda>(k, v). CmdSet k v) data) (m, st) = (m ++ map_of data, st)"
  using assms
proof (induction data arbitrary: m)
  case (Cons d data)
  obtain k v where d: "d = (k, v)" by fastforce
  have "map_of data k = None" using Cons.prems by (simp add: d map_of_eq_None_iff)
  then have eq: "m(k \<mapsto> v) ++ map_of data = m ++ map_of (d # data)"
    by (auto simp: d map_add_def fun_eq_iff split: option.splits)
  have "fold kv_spec (map (\<lambda>(k, v). CmdSet k v) data) (m(k \<mapsto> v), st) = (m(k \<mapsto> v) ++ map_of data, st)"
    by (rule Cons.IH) (use Cons.prems in simp)
  then have "fold kv_spec (map (\<lambda>(k, v). CmdSet k v) (d # data)) (m, st) = (m(k \<mapsto> v) ++ map_of data, st)"
    by (simp add: d)
  then show ?case by (simp only: eq)
qed simp

text \<open>The node after it has accepted the leader's term.\<close>

definition is_follower :: "('b, 'w, 'c) node_env \<Rightarrow> nat \<Rightarrow> install_snapshot_args \<Rightarrow> ('b, 'w, 'c) raft_node
    \<Rightarrow> ('b, 'w, 'c) raft_node" where
  "is_follower V now args n =
     (vote_stepped_down V (is_term args) n)\<lparr>state := Follower, last_heartbeat := now\<rparr>"

definition snapshot_installed :: "('b, 'w, 'c) node_env \<Rightarrow> install_snapshot_args \<Rightarrow> 'b state_machine
    \<Rightarrow> ('b, 'w, 'c) raft_node \<Rightarrow> ('b, 'w, 'c) raft_node" where
  "snapshot_installed V args sm n =
     n\<lparr>state_machine_of := load_pairs (sm_env_of V) (snap_data (is_snapshot args)) sm,
       log := filter (\<lambda>e. is_last_included_index args < le_index e) (log n),
       storage := snd (rewrite_wal_after_snapshot (codec_of V) (is_last_included_index args)
         (snd (save_snapshot (codec_of V) (is_snapshot args) (storage n)))),
       commit_index := max (commit_index n) (is_last_included_index args),
       last_applied := max (last_applied n) (is_last_included_index args)\<rparr>"

lemma handle_install_snapshot_eq:
  assumes "\<not> is_term args < current_term n" and "\<not> (is_term args = current_term n \<and> state n = Leader)"
    and "clear_for_snapshot (state_machine_of n) = (Inr (), sm)"
  shows "handle_install_snapshot V now args n =
    Some (\<lparr>isr_term = is_term args\<rparr>, snapshot_installed V args sm (is_follower V now args n))"
proof -
  have c: "state_machine_of (is_follower V now args n) = state_machine_of n"
    by (simp add: is_follower_def frame_simps)
  have t: "current_term (is_follower V now args n) = is_term args"
    using assms(1) by (simp add: is_follower_def frame_simps)
  show ?thesis
    using assms(3) t
    unfolding handle_install_snapshot_def Let_def vote_stepped_down_def [symmetric]
      if_not_P [OF assms(1)] if_not_P [OF assms(2)]
    by (simp add: is_follower_def snapshot_installed_def load_pairs_def max_def frame_simps)
qed

text \<open>An accepted snapshot replaces the map: the handler returns, the state machine holds exactly
  the pairs of the snapshot and no staged transactions, entries up to the snapshot's index are
  gone from memory and from the log file, the snapshot is on disk, and commit index and applied
  index reach at least the snapshot's index.\<close>

theorem install_snapshot_replaces_state:
  assumes "node_inv V n" and "current_term n \<le> is_term args" and "is_term args = current_term n \<longrightarrow> state n \<noteq> Leader"
    and "distinct (map fst (snap_data (is_snapshot args)))"
  shows "\<exists>m. handle_install_snapshot V now args n = Some (\<lparr>isr_term = is_term args\<rparr>, m) \<and>
    sm_view (sm_env_of V) (state_machine_of m) = map_of (snap_data (is_snapshot args)) \<and>
    sm_staged (state_machine_of m) = Map.empty \<and>
    log m = filter (\<lambda>e. is_last_included_index args < le_index e) (log n) \<and>
    restore_wal_log (codec_of V) (storage m)
      = filter (\<lambda>e. is_last_included_index args < le_index e) (restore_wal_log (codec_of V) (storage n)) \<and>
    load_snapshot (codec_of V) (storage m) = Some (is_snapshot args) \<and>
    is_last_included_index args \<le> commit_index m \<and> is_last_included_index args \<le> last_applied m \<and>
    node_inv V m"
proof -
  let ?E = "sm_env_of V" and ?C = "codec_of V" and ?d = "snap_data (is_snapshot args)"
  let ?f = "is_follower V now args n"
  from clear_for_snapshot_ok [OF node_invD(3) [OF assms(1)]] obtain t where
    t: "clear_for_snapshot (state_machine_of n) = (Inr (), t)" "sm_ok ?E t" "sm_view ?E t = Map.empty"
      "sm_staged t = Map.empty" by metis
  have f: "node_inv V ?f" unfolding is_follower_def using assms(1) by (intro inv_intros)
  have wal: "restore_wal_log ?C (storage ?f) = restore_wal_log ?C (storage n)" and l: "log ?f = log n"
    by (simp_all add: is_follower_def vote_stepped_down_def persist_meta_def frame_simps)
  let ?m = "snapshot_installed V args t ?f"
  have eq: "handle_install_snapshot V now args n = Some (\<lparr>isr_term = is_term args\<rparr>, ?m)"
    using assms(2,3) t(1) by (intro handle_install_snapshot_eq) auto
  have sm: "(sm_view ?E (load_pairs ?E ?d t), sm_staged (load_pairs ?E ?d t)) = (map_of ?d, Map.empty)"
    using lsm.run_kv [OF t(2), of "map (\<lambda>(k, v). CmdSet k v) ?d"] kv_spec_sets [OF assms(4)] t(3,4)
    by (simp add: load_pairs_run)
  have smok: "sm_ok ?E (load_pairs ?E ?d t)" by (simp add: load_pairs_run lsm.run_ok [OF t(2)])
  note sv = save_snapshot_good [OF node_invD(1) [OF f], of "is_snapshot args"]
  note rw = rewrite_wal_good [of ?C "snd (save_snapshot ?C (is_snapshot args) (storage ?f))" "is_last_included_index args"]
  have "node_inv V ?m"
    using f sv rw smok by (simp add: node_inv_def meta_synced_def snapshot_installed_def)
  with eq sm sv rw wal l show ?thesis by (simp add: snapshot_installed_def)
qed

lemma node_inv_install_snapshot:
  assumes "node_inv V n" and "handle_install_snapshot V now args n = Some (r, m)"
  shows "node_inv V m"
proof (cases "is_term args < current_term n \<or> is_term args = current_term n \<and> state n = Leader")
  case True
  then show ?thesis using assms by (auto simp: handle_install_snapshot_def)
next
  case False
  from clear_for_snapshot_ok [OF node_invD(3) [OF assms(1)]] obtain t where
    t: "clear_for_snapshot (state_machine_of n) = (Inr (), t)" "sm_ok (sm_env_of V) t" by metis
  have f: "node_inv V (is_follower V now args n)" unfolding is_follower_def using assms(1) by (intro inv_intros)
  have m: "m = snapshot_installed V args t (is_follower V now args n)"
    using handle_install_snapshot_eq [of args n t V now] False t(1) assms(2) by auto
  note sv = save_snapshot_good [OF node_invD(1) [OF f], of "is_snapshot args"]
  note rw = rewrite_wal_good [of "codec_of V"
      "snd (save_snapshot (codec_of V) (is_snapshot args) (storage (is_follower V now args n)))" "is_last_included_index args"]
  show ?thesis
    using f sv rw lsm.run_ok [OF t(2)] unfolding m
    by (simp add: node_inv_def meta_synced_def snapshot_installed_def load_pairs_run)
qed

lemma node_inv_maybe_snapshot:
  assumes "node_inv V n" and "maybe_snapshot V th n = Some (b, m)"
  shows "node_inv V m"
proof (cases "m = n")
  case True
  then show ?thesis using assms by simp
next
  case False
  let ?C = "codec_of V"
  from False assms(2) obtain sn where
    m: "m = n\<lparr>storage := snd (save_snapshot ?C sn (storage n))\<rparr> \<or>
      m = n\<lparr>storage := snd (rewrite_wal_after_snapshot ?C (commit_index n) (snd (save_snapshot ?C sn (storage n))))\<rparr>"
    unfolding maybe_snapshot_def Let_def by (auto split: if_splits sum.splits prod.splits) (metis snd_conv)+
  note sv = save_snapshot_good [OF node_invD(1) [OF assms(1)], of sn]
  note rw = rewrite_wal_good [of ?C "snd (save_snapshot ?C sn (storage n))" "commit_index n"]
  from m show ?thesis using assms(1) sv rw by (auto simp: node_inv_def meta_synced_def)
qed

section \<open>Replay and restore\<close>

abbreviation commands :: "log_entry list \<Rightarrow> command list" where
  "commands l \<equiv> map le_command l"

lemma replay_command_frame:
  "storage (replay_command V c n) = storage n" "log (replay_command V c n) = log n" "current_term (replay_command V c n) = current_term n"
  "vote_for (replay_command V c n) = vote_for n" "commit_index (replay_command V c n) = commit_index n"
  "state (replay_command V c n) = state n" "node_id (replay_command V c n) = node_id n" "next_index (replay_command V c n) = next_index n"
  by (cases c; simp)+

lemma replay_command_sm:
  "state_machine_of (replay_command V c n) = sm_apply (sm_env_of V) c (state_machine_of n)"
  by (cases c) simp_all

lemma replay_command_inv: "node_inv V n \<Longrightarrow> node_inv V (replay_command V c n)"
  using sm_apply_effect(1) [of "sm_env_of V" "state_machine_of n" c]
  by (cases c) (simp_all add: node_inv_def meta_synced_def)

lemma replay_fold:
  fixes V :: "('b, 'w, 'c) node_env" and es :: "log_entry list"
  defines "r \<equiv> fold (\<lambda>e. replay_command V (le_command e)) es"
  shows "state_machine_of (r n) = fold (sm_apply (sm_env_of V)) (commands es) (state_machine_of n)"
    "storage (r n) = storage n" "log (r n) = log n" "current_term (r n) = current_term n" "vote_for (r n) = vote_for n"
    "commit_index (r n) = commit_index n" "state (r n) = state n" "node_id (r n) = node_id n"
    "node_inv V n \<Longrightarrow> node_inv V (r n)"
  unfolding r_def by (induction es arbitrary: n) (simp_all add: replay_command_frame replay_command_sm replay_command_inv)

lemma replay_logs_eq:
  "replay_logs V n = (fold (\<lambda>e. replay_command V (le_command e)) (log n) n)\<lparr>last_applied := length (log n)\<rparr>"
  by (simp add: replay_logs_def)

lemma node_inv_replay: "node_inv V n \<Longrightarrow> node_inv V (replay_logs V n)"
  by (simp add: replay_logs_eq replay_fold(9) node_inv_update)

lemma install_snapshot_ok:
  assumes "sm_ok E s"
  obtains s' where "install_snapshot data s = (Inr (), s')" and "sm_ok E s'"
proof -
  from clear_for_snapshot_ok [OF assms] obtain t where
    t: "clear_for_snapshot s = (Inr (), t)" "sm_ok E t" by metis
  have "sm_ok E (load_memtable data (t\<lparr>memtable_bytes := 0\<rparr>))"
    using t(2) load_memtable_wf [of "t\<lparr>memtable_bytes := 0\<rparr>" data] by (simp add: sm_ok_def no_faults_def sm_inv_def frame_simps)
  then show ?thesis using t(1) by (intro that) (simp_all add: install_snapshot_def)
qed

lemma restore_cases:
  assumes "node_inv V n"
  obtains (none) "restore_from_snapshot V n = Some (None, n)"
  | (snap) r sm i where "restore_from_snapshot V n =
      Some (r, n\<lparr>state_machine_of := sm, commit_index := max (commit_index n) i, last_applied := max (last_applied n) i\<rparr>)"
    and "sm_ok (sm_env_of V) sm"
proof (cases "load_snapshot (codec_of V) (storage n)")
  case None
  then show ?thesis using none by (simp add: restore_from_snapshot_def)
next
  case (Some s)
  from install_snapshot_ok [OF node_invD(3) [OF assms], of "snap_data s"] obtain sm where
    "install_snapshot (snap_data s) (state_machine_of n) = (Inr (), sm)" "sm_ok (sm_env_of V) sm" by metis
  then show ?thesis using Some snap by (simp add: restore_from_snapshot_def)
qed

lemma node_inv_restore:
  assumes "node_inv V n" and "restore_from_snapshot V n = Some (r, m)"
  shows "node_inv V m"
  using assms(1)
proof (cases rule: restore_cases)
  case none
  then show ?thesis using assms by simp
next
  case (snap r' sm i)
  then show ?thesis using assms by (auto intro: node_inv_update)
qed

lemma node_inv_coordinator:
  "node_inv V n \<Longrightarrow> node_inv V (record_yes tx voter n)" "node_inv V n \<Longrightarrow> node_inv V (step_down_on V t n)"
  by (auto simp: record_yes_def step_down_on_def intro!: node_inv_update node_inv_persist record_vote_ok dest: node_invD(3))

section \<open>The steps of a node\<close>

text \<open>
  The steps that do not start or decide an election (\<open>local_step\<close>), and all steps with a
  label (\<open>node_step\<close>). The label is \<open>False\<close> for the two steps that may take a term back: a
  refused vote, and a vote on a transaction answered from a higher term, when the reply is handled
  by a node that is already in the term of the reply or beyond. A restart keeps the storage and starts
  with a recovered state machine; the snapshot file and the log may then be read into it.
\<close>

definition fresh_reply :: "vote_round \<Rightarrow> vote_response_args \<Rightarrow> ('b, 'w, 'c) raft_node \<Rightarrow> bool" where
  "fresh_reply r reply n \<longleftrightarrow> vote_granted reply \<or> vr_term reply \<le> round_term r \<or> current_term n < vr_term reply"

inductive local_step :: "('b, 'w, 'c) node_env \<Rightarrow> ('b, 'w, 'c) raft_node \<Rightarrow> ('b, 'w, 'c) raft_node \<Rightarrow> bool"
  for V :: "('b, 'w, 'c) node_env" where
  pre_vote: "local_step V n (snd (handle_pre_vote now vargs n))"
| request_vote: "local_step V n (snd (handle_request_vote V now vargs n))"
| tx_vote: "local_step V n (snd (handle_tx_vote_request V req n))"
| append: "local_step V n (snd (handle_append_entries V now args n))"
| snapshot: "handle_install_snapshot V now sargs n = Some (r, m) \<Longrightarrow> local_step V n m"
| proposal: "local_step V n (snd (propose V c n))"
| batch: "local_step V n (snd (propose_batch V cs n))"
| add_node: "local_step V n (snd (propose_add_node V srv n))"
| remove_node: "local_step V n (snd (propose_remove_node V nid n))"
| abort_tx: "local_step V n (snd (propose_abort_tx V tx n))"
| sync: "local_step V n (snd (sync_logs V n))"
| append_reply: "local_step V n (append_reply_handler V now peer args areply n)"
| compaction: "maybe_snapshot V th n = Some (b, m) \<Longrightarrow> local_step V n m"
| probe: "local_step V n (snd (become_pre_candidate V now n))"
| probe_reply: "process_pre_vote_reply V now reply r n = (r', None, m) \<Longrightarrow> local_step V n m"
| tx_yes: "local_step V n (record_yes tx voter n)"
| tx_step_down: "current_term n < t \<Longrightarrow> local_step V n (step_down_on V t n)"
| restore: "restore_from_snapshot V n = Some (r, m) \<Longrightarrow> local_step V n m"
| replay: "local_step V n (replay_logs V n)"
| restart: "sm_ok (sm_env_of V) sm \<Longrightarrow> node_id n \<notin> set ps \<Longrightarrow>
    local_step V n (new_node V now (node_id n) ps sm (storage n))"

inductive node_step :: "('b, 'w, 'c) node_env \<Rightarrow> bool \<Rightarrow> ('b, 'w, 'c) raft_node \<Rightarrow> ('b, 'w, 'c) raft_node \<Rightarrow> bool"
  for V :: "('b, 'w, 'c) node_env" where
  local: "local_step V n m \<Longrightarrow> node_step V True n m"
| candidate: "node_step V True n (snd (snd (become_candidate V now n)))"
| probe_won: "node_step V True n (snd (snd (process_pre_vote_reply V now reply r n)))"
| vote_reply: "node_step V (fresh_reply r reply n) n (snd (vote_reply_handler V now reply (r, n)))"
| tx_vote_reply: "node_step V (state n = Leader \<longrightarrow> current_term n < t) n (step_down_on V t n)"

inductive node_run :: "('b, 'w, 'c) node_env \<Rightarrow> bool \<Rightarrow> ('b, 'w, 'c) raft_node \<Rightarrow> ('b, 'w, 'c) raft_node \<Rightarrow> bool"
  for V :: "('b, 'w, 'c) node_env" where
  stay: "node_run V True n n"
| step: "node_run V b n m \<Longrightarrow> node_step V b' m k \<Longrightarrow> node_run V (b \<and> b') n k"

lemma peer_addrs_of_simple:
  "a \<notin> set ps \<Longrightarrow> peer_addrs_of a (Simple (server a # map server ps)) = ps"
  by (induction ps) (auto simp: peer_addrs_of_def server_def)

lemma node_inv_new [inv_intros]:
  assumes "store_ok (codec_of V) st" and "sm_ok (sm_env_of V) sm" and "a \<notin> set ps"
  shows "node_inv V (new_node V now a ps sm st)"
  using assms peer_addrs_of_simple [OF assms(3)]
  by (simp add: new_node_def load_initial_state_def node_inv_def meta_synced_def)

lemma node_inv_sync [inv_intros]: "node_inv V n \<Longrightarrow> node_inv V (snd (sync_logs V n))"
  by (auto simp: sync_logs_def intro: node_inv_maybe_commit)

lemma node_inv_pre_vote [inv_intros]: "node_inv V n \<Longrightarrow> node_inv V (snd (handle_pre_vote now args n))"
  by (simp add: handle_pre_vote_def Let_def node_inv_update)

lemma node_inv_local: "local_step V n m \<Longrightarrow> node_inv V n \<Longrightarrow> node_inv V m"
proof (induction rule: local_step.induct)
  case (restart sm n ps now)
  then show ?case using node_inv_new [OF node_invD(1) [OF restart(3)] restart(1,2)] by simp
next
  case (snapshot now sargs n r m)
  show ?case by (rule node_inv_install_snapshot [OF snapshot(2,1)])
next
  case (compaction th n b m)
  show ?case by (rule node_inv_maybe_snapshot [OF compaction(2,1)])
next
  case (probe_reply now reply r n r' m)
  then show ?case using node_inv_elections(3) [OF probe_reply(2), of now reply r] by simp
next
  case (restore n r m)
  show ?case by (rule node_inv_restore [OF restore(2,1)])
qed (simp_all only: node_inv_replay node_inv_coordinator node_inv_pre_vote node_inv_request_vote node_inv_tx_vote node_inv_append_entries
    node_inv_proposals node_inv_sync node_inv_append_reply node_inv_elections)

lemma node_inv_step: "node_step V b n m \<Longrightarrow> node_inv V n \<Longrightarrow> node_inv V m"
  by (induction rule: node_step.induct) (simp_all only: node_inv_local node_inv_elections node_inv_vote_reply node_inv_coordinator)

text \<open>C10: Every step of a node, restarts included, keeps the invariant of a running node, so that it
  holds along every run from a fresh node: the term and the vote on disk are those in memory, the
  log file is readable, the state machine is consistent, the list of peers to dial is the one
  that the active configuration gives, and no peer's \<open>next_index\<close> is 0 (so that the
  subtraction in \<open>sync_logs\<close> cannot wrap).\<close>

theorem node_run_keeps_invariant:
  assumes "node_run V b (new_node V now a ps sm st) n"
    and "store_ok (codec_of V) st" and "sm_ok (sm_env_of V) sm" and "a \<notin> set ps"
  shows "node_inv V n"
  using assms
proof (induction "new_node V now a ps sm st" n rule: node_run.induct)
  case stay
  then show ?case by (intro node_inv_new)
next
  case (step b m b' k)
  then show ?case using node_inv_step by blast
qed

section \<open>Terms and votes\<close>

text \<open>A later state of the persistent pair: a higher term, or the same term with the vote kept once given.\<close>

definition vote_le :: "('b, 'w, 'c) raft_node \<Rightarrow> ('b, 'w, 'c) raft_node \<Rightarrow> bool" where
  "vote_le n m \<longleftrightarrow> current_term n < current_term m \<or>
     current_term n = current_term m \<and> (vote_for n = None \<or> vote_for m = vote_for n)"

lemma vote_le_refl: "current_term m = current_term n \<Longrightarrow> vote_for m = vote_for n \<Longrightarrow> vote_le n m"
  by (simp add: vote_le_def)

lemma vote_le_trans: "vote_le n m \<Longrightarrow> vote_le m k \<Longrightarrow> vote_le n k"
  by (auto simp: vote_le_def)

lemma propose_loop_meta [frame_simps]:
  "current_term (snd (propose_loop V i cs n)) = current_term n"
  "vote_for (snd (propose_loop V i cs n)) = vote_for n"
  by (induction V i cs n rule: propose_loop.induct)
    (auto split: prod.splits sum.splits dest: arg_cong [where f = snd] simp: append_entry_def)

lemma append_entry_meta:
  "append_entry V e n = (r, m) \<Longrightarrow> current_term m = current_term n \<and> vote_for m = vote_for n"
  using append_entry_frame(4,5) [of V e n] by simp

lemma proposals_meta [frame_simps]:
  "current_term (snd (propose V c n)) = current_term n" "vote_for (snd (propose V c n)) = vote_for n"
  "current_term (snd (propose_joint V old new n)) = current_term n"
  "vote_for (snd (propose_joint V old new n)) = vote_for n"
  "current_term (snd (propose_abort_tx V tx n)) = current_term n"
  "vote_for (snd (propose_abort_tx V tx n)) = vote_for n"
  by (auto simp: propose_def propose_joint_def propose_abort_tx_def split: prod.splits sum.splits
      dest: append_entry_meta)

lemma become_leader_frame [frame_simps]:
  "current_term (become_leader now n) = current_term n" "vote_for (become_leader now n) = vote_for n"
  "log (become_leader now n) = log n" "node_id (become_leader now n) = node_id n"
  "commit_index (become_leader now n) = commit_index n" "storage (become_leader now n) = storage n"
  by (simp_all add: become_leader_def)

lemma promote_frame [frame_simps]:
  "current_term (promote_to_candidate_locked V now n) = current_term n + 1"
  "vote_for (promote_to_candidate_locked V now n) = Some (node_id n)"
  "node_id (promote_to_candidate_locked V now n) = node_id n"
  "log (promote_to_candidate_locked V now n) = log n"
  "state (promote_to_candidate_locked V now n) = Candidate"
  "peers (promote_to_candidate_locked V now n) = peers n"
  by (simp_all add: promote_to_candidate_locked_def frame_simps)

lemma request_votes_meta [frame_simps]:
  "current_term (snd (snd (request_votes now n))) = current_term n"
  "vote_for (snd (snd (request_votes now n))) = vote_for n"
  by (auto simp: request_votes_def Let_def frame_simps)

lemma vote_le_request_vote: "vote_le n (snd (handle_request_vote V now args n))"
  by (auto simp: handle_request_vote_eq vote_le_def grants_vote_def frame_simps)

lemma vote_le_append_entries: "vote_le n (snd (handle_append_entries V now args n))"
proof -
  have "vote_for (ae_follower V now args n) = (if current_term n < ae_term args then None else vote_for n)"
    by (simp add: ae_follower_def frame_simps)
  then show ?thesis
    by (auto simp: handle_append_entries_eq ae_commit_def vote_le_def frame_simps)
qed

lemma vote_le_tx_vote: "vote_le n (snd (handle_tx_vote_request V req n))"
  by (auto simp: handle_tx_vote_request_def vote_le_def frame_simps Let_def)

lemma vote_le_stepped_down: "vote_le n (vote_stepped_down V t n)"
  by (auto simp: vote_le_def frame_simps)

lemma vote_le_install_snapshot:
  assumes "handle_install_snapshot V now args n = Some (r, m)"
  shows "vote_le n m"
proof (cases "is_term args < current_term n \<or> is_term args = current_term n \<and> state n = Leader")
  case True
  then show ?thesis using assms by (auto simp: handle_install_snapshot_def intro: vote_le_refl)
next
  case False
  then obtain sm u where c: "clear_for_snapshot (state_machine_of n) = (Inr u, sm)"
    using assms unfolding handle_install_snapshot_def Let_def vote_stepped_down_def [symmetric]
    by (auto simp: frame_simps split: prod.splits sum.splits)
  then have "m = snapshot_installed V args sm (is_follower V now args n)"
    using handle_install_snapshot_eq [of args n sm V now] False assms by auto
  then have "current_term m = current_term (vote_stepped_down V (is_term args) n)"
    and "vote_for m = vote_for (vote_stepped_down V (is_term args) n)"
    by (simp_all add: snapshot_installed_def is_follower_def)
  then show ?thesis using vote_le_stepped_down [of n V "is_term args"] by (simp add: vote_le_def)
qed

lemma vote_le_maybe_snapshot: "maybe_snapshot V th n = Some (b, m) \<Longrightarrow> vote_le n m"
  by (auto simp: maybe_snapshot_def Let_def intro!: vote_le_refl split: if_splits sum.splits prod.splits)

lemma vote_le_append_reply: "vote_le n (append_reply_handler V now peer args reply n)"
  by (auto simp: append_reply_handler_def vote_le_def frame_simps Let_def)

lemma vote_le_vote_reply:
  "fresh_reply r reply n \<Longrightarrow> vote_le n (snd (vote_reply_handler V now reply (r, n)))"
  by (auto simp: vote_reply_handler_def fresh_reply_def vote_le_def frame_simps Let_def)

lemma vote_le_elections:
  "vote_le n (snd (snd (become_candidate V now n)))" "vote_le n (snd (become_pre_candidate V now n))"
  "vote_le n (snd (snd (process_pre_vote_reply V now reply r n)))"
  by (auto simp: become_candidate_def become_pre_candidate_def become_leader_checked_def process_pre_vote_reply_def
      vote_le_def frame_simps Let_def split: prod.splits)
    (metis less_irrefl lessI snd_conv request_votes_meta(1) promote_frame(1) Suc_eq_plus1)+

lemma vote_le_proposals:
  "vote_le n (snd (propose V c n))" "vote_le n (snd (propose_batch V cs n))"
  "vote_le n (snd (propose_add_node V srv n))" "vote_le n (snd (propose_remove_node V nid n))"
  "vote_le n (snd (propose_abort_tx V tx n))" "vote_le n (snd (sync_logs V n))"
  "vote_le n (snd (handle_pre_vote now args n))"
  by (auto simp: propose_batch_def propose_add_node_def propose_remove_node_def sync_logs_def
      handle_pre_vote_def Let_def frame_simps intro!: vote_le_refl)

lemma vote_le_restart:
  assumes "node_inv V n"
  shows "vote_le n (new_node V now (node_id n) ps sm (storage n))"
  using node_invD(2) [OF assms]
  by (intro vote_le_refl) (simp_all add: new_node_def load_initial_state_def meta_synced_def)

lemma vote_le_coordinator:
  "vote_le n (record_yes tx voter n)" "(state n = Leader \<longrightarrow> current_term n < t) \<Longrightarrow> vote_le n (step_down_on V t n)"
  by (auto simp: record_yes_def step_down_on_def vote_le_def frame_simps)

lemma vote_le_recovery:
  "restore_from_snapshot V n = Some (r, m) \<Longrightarrow> vote_le n m" "vote_le n (replay_logs V n)"
  by (auto simp: restore_from_snapshot_def replay_logs_eq replay_fold intro!: vote_le_refl split: option.splits prod.splits sum.splits)

lemma vote_le_local: "local_step V n m \<Longrightarrow> node_inv V n \<Longrightarrow> vote_le n m"
proof (induction rule: local_step.induct)
  case (probe_reply now reply r n r' m)
  then show ?case using vote_le_elections(3) [of n V now reply r] by simp
qed (simp_all add: vote_le_request_vote vote_le_append_entries vote_le_tx_vote vote_le_append_reply
    vote_le_coordinator vote_le_recovery vote_le_elections vote_le_proposals vote_le_restart vote_le_install_snapshot vote_le_maybe_snapshot)

lemma vote_le_step: "node_step V b n m \<Longrightarrow> b \<Longrightarrow> node_inv V n \<Longrightarrow> vote_le n m"
  by (induction rule: node_step.induct) (simp_all add: vote_le_local vote_le_elections vote_le_vote_reply vote_le_coordinator)

text \<open>C9: A node's term never decreases and it never changes a vote within a term, along every run in
  which no vote refusal and no answer to a vote on a transaction is handled too late, restarts included: what was promised to one candidate
  is not promised to another in the same term.\<close>

theorem votes_are_kept:
  assumes "node_run V b n m" and "b" and "node_inv V n"
  shows "current_term n \<le> current_term m \<and>
    (current_term m = current_term n \<and> vote_for n \<noteq> None \<longrightarrow> vote_for m = vote_for n)"
proof -
  have "b \<longrightarrow> vote_le n m \<and> node_inv V m"
    using assms(1,3)
  proof (induction n m rule: node_run.induct)
    case (step b n m b' k)
    then show ?case using vote_le_step [of V b' m k] node_inv_step vote_le_trans by blast
  qed (simp add: vote_le_refl)
  then show ?thesis using assms(2) by (auto simp: vote_le_def)
qed

end
