(* ===== verification/StateMachine_Read.thy ===== *)
theory StateMachine_Read
  imports ReferenceModel
begin

text \<open>
  The lookup \<open>get\<close> of the LSM against the abstract map, concrete runs of the state machine on
  a small in-memory disk, and the properties of the state machine as a whole.
\<close>

section \<open>Lookup\<close>

text \<open>The table is non-empty and the key lies between its first and its last key.\<close>

definition covers :: "'b sm_env \<Rightarrow> 'b lsm_disk \<Rightarrow> string \<Rightarrow> sst_handle \<Rightarrow> bool" where
  "covers E d key h \<longleftrightarrow> table_of E d h \<noteq> [] \<and> first_key (h_meta h) \<le> key \<and> key \<le> last_key (h_meta h)"

lemma scan_sst_sorted:
  assumes "sorted_wrt (<) (map se_key es)"
  shows "scan_sst es key = (case sst_map es key of
      Some v \<Rightarrow> Some v
    | None \<Rightarrow> if \<exists>e \<in> set es. key < se_key e then Some None else None)"
  using assms
proof (induction es)
  case Nil
  then show ?case by (simp add: sst_map_def)
next
  case (Cons e es)
  have fresh: "key < se_key e \<Longrightarrow> sst_map es key = None"
    using Cons.prems by (intro sst_map_fresh) auto
  consider "se_key e = key" | "key < se_key e" | "se_key e < key" by fastforce
  then show ?case
  proof cases
    case 1
    then show ?thesis by (simp add: sst_map_Cons entry_val_def)
  next
    case 2
    then show ?thesis using fresh by (auto simp: sst_map_Cons)
  next
    case 3
    then show ?thesis using Cons by (auto simp: sst_map_Cons dest: less_asym split: option.splits)
  qed
qed

lemma sst_map_range:
  assumes "sorted_wrt (<) (map se_key es)" and "sst_map es key \<noteq> None"
  shows "es \<noteq> [] \<and> se_key (hd es) \<le> key \<and> key \<le> se_key (last es)"
proof -
  from assms(2) have "key \<in> set (map se_key es)" by (metis sst_map_fresh)
  then obtain i where i: "i < length es" "key = se_key (es ! i)" by (auto simp: in_set_conv_nth)
  have "sorted (map se_key es)" using assms(1) by (rule strict_sorted_imp_sorted)
  moreover have "0 < length es" "i \<le> length es - 1" using i by auto
  ultimately have "se_key (es ! 0) \<le> key \<and> key \<le> se_key (es ! (length es - 1))"
    using i sorted_nth_mono [of "map se_key es" 0 i] sorted_nth_mono [of "map se_key es" i "length es - 1"]
    by simp
  moreover have "es \<noteq> []" using i by auto
  ultimately show ?thesis by (simp add: hd_conv_nth last_conv_nth)
qed

lemma table_ok_range:
  assumes "table_ok E d h" and "table_of E d h \<noteq> []"
  shows "first_key (h_meta h) = se_key (hd (table_of E d h))"
    and "last_key (h_meta h) = se_key (last (table_of E d h))"
  using assms unfolding table_ok_def Let_def by simp_all

lemma get_tables_Cons:
  assumes "table_ok E d h"
  shows "get_tables E d (h # hs) key =
    (if covers E d key h then flat (sst_map (table_of E d h)) key else get_tables E d hs key)"
proof (cases "covers E d key h")
  case True
  let ?es = "table_of E d h"
  have ne: "?es \<noteq> []" and "key \<le> se_key (last ?es)" "\<not> key < first_key (h_meta h)" "\<not> last_key (h_meta h) < key"
    using True table_ok_range [OF assms] by (auto simp: covers_def)
  have "sst_map ?es key = None \<Longrightarrow> \<exists>e \<in> set ?es. key < se_key e"
  proof (rule bexI)
    show "last ?es \<in> set ?es" using ne by simp
    assume absent: "sst_map ?es key = None"
    have "sst_map ?es (se_key (last ?es)) \<noteq> None"
      using ne by (auto simp: sst_map_def map_of_eq_None_iff image_image split: prod.splits)
    with absent have "key \<noteq> se_key (last ?es)" by metis
    then show "key < se_key (last ?es)" using \<open>key \<le> se_key (last ?es)\<close> by simp
  qed
  then show ?thesis
    using True table_okD(1) [OF assms] scan_sst_sorted [OF table_okD(4) [OF assms], of key]
      \<open>\<not> key < first_key (h_meta h)\<close> \<open>\<not> last_key (h_meta h) < key\<close>
    by (auto simp: flat_def split: option.splits)
next
  case False
  then show ?thesis
    using table_okD(1) [OF assms] by (cases "table_of E d h = []") (auto simp: covers_def not_le)
qed

lemma covers_if_present:
  assumes "table_ok E d h" and "sst_map (table_of E d h) key \<noteq> None"
  shows "covers E d key h"
  using sst_map_range [OF table_okD(4) [OF assms(1)] assms(2)] table_ok_range [OF assms(1)]
  by (auto simp: covers_def)

lemma get_tables_agrees:
  assumes "\<forall>h \<in> set hs. table_ok E d h"
    and "\<forall>h \<in> set hs. covers E d key h \<longrightarrow> sst_map (table_of E d h) key \<noteq> None"
  shows "get_tables E d (rev hs) key = flat (tables_map E d hs) key"
  using assms
proof (induction hs rule: rev_induct)
  case Nil
  then show ?case by (simp add: flat_def)
next
  case (snoc h hs)
  have h: "table_ok E d h" using snoc.prems by simp
  show ?case
    using snoc get_tables_Cons [OF h, of "rev hs" key] covers_if_present [OF h, of key]
    by (auto simp: tables_map_append flat_add flat_def [of "sst_map _"] split: option.splits)
qed

lemma get_tables_single:
  assumes "\<forall>h \<in> set hs. table_ok E d h" and "length hs \<le> 1"
  shows "get_tables E d (rev hs) key = flat (tables_map E d hs) key"
proof (cases hs)
  case Nil
  then show ?thesis by (simp add: flat_def)
next
  case (Cons h hs')
  then have [simp]: "hs' = []" and h: "table_ok E d h" using assms by simp_all
  show ?thesis
    using get_tables_Cons [OF h, of "[]" key] covers_if_present [OF h, of key]
    by (auto simp: Cons flat_def split: option.splits)
qed

lemma sm_get_lookup:
  "sm_get E s key = (case mem_map (memtable s) key of
      Some v \<Rightarrow> v | None \<Rightarrow> get_tables E (disk s) (rev (sstables s)) key)"
  by (simp add: sm_get_def mem_map_def split: option.splits)

lemma sm_get_view:
  assumes "sm_inv E s"
    and "mem_map (memtable s) key \<noteq> None \<or> length (sstables s) \<le> 1 \<or>
      list_all (\<lambda>h. covers E (disk s) key h \<longrightarrow> sst_map (table_of E (disk s) h) key \<noteq> None) (sstables s)"
  shows "sm_get E s key = sm_view E s key"
proof (cases "mem_map (memtable s) key")
  case (Some v)
  then show ?thesis by (simp add: sm_get_lookup sm_view_def flat_add)
next
  case None
  have "\<forall>h \<in> set (sstables s). table_ok E (disk s) h" using assms(1) by (simp add: sm_inv_def)
  then have "get_tables E (disk s) (rev (sstables s)) key = flat (tables_map E (disk s) (sstables s)) key"
    using assms(2) None get_tables_agrees get_tables_single by (simp add: list_all_iff) blast
  then show ?thesis by (simp add: sm_get_lookup sm_view_def flat_add None)
qed

text \<open>\<open>get\<close> returns what the abstract map (and so \<open>snapshot_data\<close>) holds whenever the key is
  in the memtable, or there is at most one table, or every table whose key range covers the key
  contains it.\<close>

theorem get_agrees_with_view:
  assumes "sm_inv E s"
    and "mem_map (memtable s) key \<noteq> None \<or> length (sstables s) \<le> 1 \<or>
      list_all (\<lambda>h. covers E (disk s) key h \<longrightarrow> sst_map (table_of E (disk s) h) key \<noteq> None) (sstables s)"
  shows "sm_get E s key = sm_view E s key"
  using assms by (rule sm_get_view)

text \<open>The exact answer. Newest first, the first table whose range covers the key decides: when it does not hold the
  key, a value in an older table is shadowed.\<close>

fun shadowed_in :: "'b sm_env \<Rightarrow> 'b lsm_disk \<Rightarrow> sst_handle list \<Rightarrow> string \<Rightarrow> bool" where
  "shadowed_in E d [] key = False"
| "shadowed_in E d (h # hs) key =
     (if covers E d key h then sst_map (table_of E d h) key = None \<and> flat (tables_map E d (rev hs)) key \<noteq> None
      else shadowed_in E d hs key)"

definition shadowed :: "'b sm_env \<Rightarrow> 'b state_machine \<Rightarrow> string \<Rightarrow> bool" where
  "shadowed E s key \<longleftrightarrow> mem_map (memtable s) key = None \<and> shadowed_in E (disk s) (rev (sstables s)) key"

lemma get_tables_exact:
  assumes "\<forall>h \<in> set hs. table_ok E d h"
  shows "get_tables E d (rev hs) key = (if shadowed_in E d (rev hs) key then None else flat (tables_map E d hs) key)"
  using assms
proof (induction hs rule: rev_induct)
  case Nil
  then show ?case by (simp add: flat_def)
next
  case (snoc h hs)
  have h: "table_ok E d h" using snoc.prems by simp
  show ?case
    using snoc get_tables_Cons [OF h, of "rev hs" key] covers_if_present [OF h, of key]
    by (auto simp: tables_map_append flat_add flat_def [of "sst_map _"] split: option.splits)
qed

lemma sm_get_exact:
  assumes "sm_inv E s"
  shows "sm_get E s key = (if shadowed E s key then None else sm_view E s key)"
proof (cases "mem_map (memtable s) key")
  case None
  have "\<forall>h \<in> set (sstables s). table_ok E (disk s) h" using assms by (simp add: sm_inv_def)
  from get_tables_exact [OF this, of key] show ?thesis
    by (simp add: sm_get_lookup sm_view_def flat_add None shadowed_def)
qed (simp add: sm_get_lookup sm_view_def flat_add shadowed_def)

text \<open>A key that has just been written is not shadowed: it is in the memtable, or the write has flushed it into the
  newest table.\<close>

lemma write_not_shadowed:
  assumes "sm_ok E s"
  shows "\<not> shadowed E (snd (sm_write E op s)) (wal_key op)"
proof -
  have ok: "sm_env_ok E" "no_faults s" "sm_inv E s" using assms by (simp_all add: sm_ok_def)
  from sm_write_ok [OF ok(2), of E op] obtain fl where fl: "True \<notin> set fl"
    and eq: "sm_write E op s = (if memtable_size_threshold (config s) \<le> written_bytes op s
           then sm_flush E (mem_written E op (written_bytes op s) fl s) else (Inr (), mem_written E op (written_bytes op s) fl s))"
    by blast
  let ?m = "mem_written E op (written_bytes op s) fl s"
  have m: "no_faults ?m" "memtable ?m \<noteq> []" using fl by (simp_all add: mem_written_def no_faults_def)
  have mi: "sm_inv E ?m" by (rule mem_written_inv [OF ok(3)])
  have k: "mem_map (memtable ?m) (wal_key op) \<noteq> None" using ok(3) by (simp add: mem_written_def sm_inv_def)
  from sm_flush_ok [OF m, of E] obtain fl' where f: "sm_flush E ?m = (Inr (), flushed E ?m fl')" by blast
  have "table_of E (disk (flushed E ?m fl')) (flush_handle E ?m) = entries_of_memtable (memtable ?m)"
    "table_ok E (disk (flushed E ?m fl')) (flush_handle E ?m)"
    by (rule flushed_new_table [OF ok(1) mi m(2)])+
  then have "covers E (disk (flushed E ?m fl')) (wal_key op) (flush_handle E ?m)"
    "sst_map (table_of E (disk (flushed E ?m fl')) (flush_handle E ?m)) (wal_key op) \<noteq> None"
    using k by (auto simp: sst_map_memtable intro: covers_if_present)
  moreover have "sstables (flushed E ?m fl') = sstables ?m @ [flush_handle E ?m]" by (simp add: flushed_def Let_def)
  ultimately have "\<not> shadowed E (flushed E ?m fl') (wal_key op)" by (simp add: shadowed_def)
  then show ?thesis using k eq f by (auto simp: shadowed_def)
qed

section \<open>Concrete runs\<close>

text \<open>A disk whose files hold the stored values themselves.\<close>

datatype doc = WalDoc wal_op | SstDoc "sst_entry list" | MetaDoc sst_meta

definition doc_env :: "nat \<Rightarrow> doc sm_env" where
  "doc_env t = \<lparr>enc_wal = WalDoc, dec_wal = (\<lambda>d. case d of WalDoc x \<Rightarrow> Some x | _ \<Rightarrow> None),
     blank_line = (\<lambda>_. False),
     enc_sst = SstDoc, dec_sst = (\<lambda>d. case d of SstDoc x \<Rightarrow> Some x | _ \<Rightarrow> None),
     enc_meta = MetaDoc, dec_meta = (\<lambda>d. case d of MetaDoc x \<Rightarrow> Some x | _ \<Rightarrow> None),
     wall_clock_ms = t\<rparr>"

definition fresh_sm :: "nat \<Rightarrow> doc state_machine" where
  "fresh_sm threshold =
     \<lparr>config = \<lparr>data_dir = ''data'', memtable_size_threshold = threshold\<rparr>, memtable = [], memtable_bytes = 0,
      disk = \<lparr>wal_lines = [], files = [], faults = []\<rparr>, sstables = [], next_sst_id = 0, pending_txs = []\<rparr>"

lemma doc_env_ok: "sm_env_ok (doc_env t)"
  by (simp add: sm_env_ok_def doc_env_def)

lemma fresh_sm_ok: "sm_ok (doc_env t) (fresh_sm n)"
  by (simp add: sm_ok_def doc_env_ok no_faults_def sm_inv_def fresh_sm_def)

lemma fresh_sm_durable: "durable (doc_env t) (fresh_sm n)"
  by (simp add: durable_def wal_synced_iff dir_synced_def fresh_sm_def)

lemma fresh_sm_empty: "sm_view E (fresh_sm n) = Map.empty" "sm_staged (fresh_sm n) = Map.empty"
  by (simp_all add: sm_view_def sm_staged_def fresh_sm_def flat_def mem_map_def fun_eq_iff)

text \<open>Two flushed tables: the first holds \<open>b\<close>, the second \<open>a\<close> and \<open>c\<close>.\<close>

definition shadow_run :: "doc state_machine" where
  "shadow_run =
     (let E = doc_env 0;
          s = snd (sm_set E ''b'' ''1'' (fresh_sm 1000)); s = snd (sm_flush E s);
          s = snd (sm_set E ''a'' ''2'' s); s = snd (sm_set E ''c'' ''3'' s)
      in snd (sm_flush E s))"

text \<open>A key that was set and never deleted can be invisible to \<open>get\<close> although \<open>snapshot_data\<close>
  lists it: the lookup stops at the newest table whose range covers the key, also when that table
  does not hold it.\<close>

theorem get_misses_older_table:
  "sm_get (doc_env 0) shadow_run ''b'' = None \<and>
   (case snapshot_data (doc_env 0) shadow_run of Inr m \<Rightarrow> map_of m ''b'' = Some ''1'' | Inl _ \<Rightarrow> False)"
  by code_simp

section \<open>Maintenance and restart\<close>

text \<open>C30: Flush and compaction never change the abstract map. On a disk without faults they
  succeed and keep the invariant and the agreement with the disk, and a compaction of two or more
  tables leaves a single table without tombstones.\<close>

theorem maintenance_keeps_view:
  assumes "sm_env_ok E" and "no_faults s" and "sm_inv E s"
  shows "(\<exists>s'. sm_flush E s = (Inr (), s') \<and> sm_inv E s' \<and> sm_view E s' = sm_view E s \<and> memtable s' = [] \<and>
            (durable E s \<longrightarrow> durable E s')) \<and>
         (\<exists>s'. sm_compact E s = (Inr (), s') \<and> sm_inv E s' \<and> sm_view E s' = sm_view E s \<and>
            (durable E s \<longrightarrow> durable E s') \<and>
            (2 \<le> length (sstables s) \<longrightarrow> (\<exists>h. sstables s' = [h] \<and>
              list_all (\<lambda>e. \<not> se_tombstone e) (table_of E (disk s') h))))"
proof
  show "\<exists>s'. sm_flush E s = (Inr (), s') \<and> sm_inv E s' \<and> sm_view E s' = sm_view E s \<and> memtable s' = [] \<and>
      (durable E s \<longrightarrow> durable E s')"
  proof (cases "memtable s = []")
    case True
    then show ?thesis using assms by (simp add: sm_flush_def)
  next
    case False
    from sm_flush_ok [OF assms(2) False, of E] obtain fl where "sm_flush E s = (Inr (), flushed E s fl)" by blast
    moreover have "memtable (flushed E s fl) = []" by (simp add: flushed_def Let_def)
    moreover have "durable E s \<longrightarrow> durable E (flushed E s fl)"
      using flushed_durable by (simp only: durable_def [of E s]) blast
    ultimately show ?thesis
      using flushed_inv [OF assms(1,3) False] flushed_view [OF assms(1,3) False] by blast
  qed
  from compact_spec [OF assms] show "\<exists>s'. sm_compact E s = (Inr (), s') \<and> sm_inv E s' \<and>
      sm_view E s' = sm_view E s \<and> (durable E s \<longrightarrow> durable E s') \<and>
      (2 \<le> length (sstables s) \<longrightarrow> (\<exists>h. sstables s' = [h] \<and>
        list_all (\<lambda>e. \<not> se_tombstone e) (table_of E (disk s') h)))"
    by (simp only: list_all_iff) metis
qed

section \<open>Lives of a state machine\<close>

lemma sm_write_durable:
  assumes "sm_ok E s" and "durable E s"
  shows "durable E (snd (sm_write E op s))"
  using assms sm_write_spec [of E s op] by (metis sm_ok_def snd_conv)

lemma durable_pending [simp]: "durable E (s\<lparr>pending_txs := p\<rparr>) = durable E s"
  by (simp add: durable_def wal_synced_iff dir_synced_def)

lemma sm_ok_wf: "sm_ok E s \<Longrightarrow> bt_wf (pending_txs s)"
  by (simp add: sm_ok_def sm_inv_def)

lemma tx_ops_durable: "sm_ok E s \<Longrightarrow> durable E s \<Longrightarrow> durable E (fold (apply_tx_op E) ops s)"
proof (induction ops arbitrary: s)
  case (Cons op ops)
  have "apply_tx_op E op s = snd (sm_write E (op_wal op) s)" by (cases op) simp_all
  then show ?case
    using Cons.IH [OF apply_tx_op_effect(1) [OF Cons.prems(1), of op]] sm_write_durable [OF Cons.prems, of "op_wal op"] by simp
qed simp

lemma sm_apply_durable:
  assumes "sm_ok E s" and "durable E s"
  shows "durable E (sm_apply E c s)"
proof (cases c)
  case (CmdSet k v)
  then show ?thesis using sm_write_durable [OF assms, of "WalPut k v"] by simp
next
  case (CmdDelete k)
  then show ?thesis using sm_write_durable [OF assms, of "WalDelete k"] by simp
next
  case (CmdBeginTx i ops)
  then show ?thesis using assms(2) by (simp add: begin_tx_def begin_tx_at_def)
next
  case (CmdDecideTx i d)
  then show ?thesis
    using assms tx_ops_durable [of E "s\<lparr>pending_txs := bt_remove i (pending_txs s)\<rparr>"] sm_ok_wf [OF assms(1)]
    by (auto simp: decide_tx_def Let_def split: option.splits)
qed (use assms in simp_all)

lemma run_durable: "sm_ok E s \<Longrightarrow> durable E s \<Longrightarrow> durable E (fold (sm_apply E) cs s)"
  by (induction cs arbitrary: s) (simp_all add: sm_apply_durable sm_apply_effect(1))

text \<open>A state machine over several processes, with the map and the staged transactions it should have: it is opened on an
  empty directory, applies commands, is flushed and compacted, and may crash at any time between two operations; the next
  process opens the directory as it is.\<close>

inductive lives :: "'b sm_env \<Rightarrow> kv_abs \<Rightarrow> 'b state_machine \<Rightarrow> bool"
  for E :: "'b sm_env" where
  created: "wal_lines d = [] \<Longrightarrow> files d = [] \<Longrightarrow> True \<notin> set (faults d) \<Longrightarrow> fst (sm_open E cfg d) = Inr s \<Longrightarrow>
    lives E (Map.empty, Map.empty) s"
| applied: "lives E a s \<Longrightarrow> lives E (kv_spec c a) (sm_apply E c s)"
| flushed: "lives E a s \<Longrightarrow> lives E a (snd (sm_flush E s))"
| compacted: "lives E a s \<Longrightarrow> lives E a (snd (sm_compact E s))"
| reopened: "lives E a s \<Longrightarrow> next_sst_id s \<le> 2 ^ 64 \<Longrightarrow> fst (sm_open E cfg (disk s)) = Inr s' \<Longrightarrow>
    lives E (fst a, Map.empty) s'"

lemma open_empty:
  assumes "wal_lines d = []" and "files d = []" and "True \<notin> set (faults d)"
  obtains s where "fst (sm_open E cfg d) = Inr s" and "sm_inv E s" and "no_faults s" and "durable E s"
    and "sm_view E s = Map.empty" and "pending_txs s = []"
proof -
  let ?t = "\<lparr>config = cfg, memtable = [], memtable_bytes = 0, disk = d, sstables = [], next_sst_id = 0, pending_txs = []\<rparr>"
  have t: "sm_inv E ?t" "no_faults ?t" "durable E ?t" "next_sst_id ?t \<le> 2 ^ 64" "sm_view E ?t = Map.empty"
    using assms by (simp_all add: sm_inv_def no_faults_def durable_def wal_synced_iff dir_synced_def sm_view_def flat_def mem_map_def fun_eq_iff)
  obtain s where "fst (sm_open E cfg (disk ?t)) = Inr s" "sm_inv E s" "no_faults s" "sm_view E s = sm_view E ?t" "pending_txs s = []" "durable E s"
    by (rule open_recovers [OF t(1-4)])
  then show ?thesis using t(5) by (intro that) simp_all
qed

text \<open>What maintenance leaves alone.\<close>

lemma flush_keeps:
  assumes "sm_ok E s"
  shows "sm_ok E (snd (sm_flush E s))" "sm_view E (snd (sm_flush E s)) = sm_view E s" "pending_txs (snd (sm_flush E s)) = pending_txs s"
    "durable E s \<Longrightarrow> durable E (snd (sm_flush E s))"
proof -
  have ok: "sm_env_ok E" "no_faults s" "sm_inv E s" using assms by (simp_all add: sm_ok_def)
  have "sm_ok E (snd (sm_flush E s)) \<and> sm_view E (snd (sm_flush E s)) = sm_view E s \<and> pending_txs (snd (sm_flush E s)) = pending_txs s \<and>
    (durable E s \<longrightarrow> durable E (snd (sm_flush E s)))"
  proof (cases "memtable s = []")
    case True
    then show ?thesis using assms by (simp add: sm_flush_def)
  next
    case False
    from sm_flush_ok [OF ok(2) False, of E] obtain fl where "True \<notin> set fl" "sm_flush E s = (Inr (), flushed E s fl)" by blast
    then show ?thesis
      using flushed_inv [OF ok(1,3) False] flushed_view [OF ok(1,3) False] flushed_durable [of s E fl] ok(1)
      by (simp add: sm_ok_def no_faults_def durable_def [of E s]) (simp add: flushed_def Let_def)
  qed
  then show "sm_ok E (snd (sm_flush E s))" "sm_view E (snd (sm_flush E s)) = sm_view E s" "pending_txs (snd (sm_flush E s)) = pending_txs s"
    "durable E s \<Longrightarrow> durable E (snd (sm_flush E s))" by simp_all
qed

lemma compact_keeps:
  assumes "sm_ok E s"
  shows "sm_ok E (snd (sm_compact E s))" "sm_view E (snd (sm_compact E s)) = sm_view E s"
    "pending_txs (snd (sm_compact E s)) = pending_txs s" "durable E s \<Longrightarrow> durable E (snd (sm_compact E s))"
proof -
  have ok: "sm_env_ok E" "no_faults s" "sm_inv E s" using assms by (simp_all add: sm_ok_def)
  have "sm_ok E (snd (sm_compact E s)) \<and> sm_view E (snd (sm_compact E s)) = sm_view E s \<and>
    pending_txs (snd (sm_compact E s)) = pending_txs s \<and> (durable E s \<longrightarrow> durable E (snd (sm_compact E s)))"
    by (rule compact_spec [OF ok]) (use ok(1) in \<open>simp add: sm_ok_def\<close>)
  then show "sm_ok E (snd (sm_compact E s))" "sm_view E (snd (sm_compact E s)) = sm_view E s"
    "pending_txs (snd (sm_compact E s)) = pending_txs s" "durable E s \<Longrightarrow> durable E (snd (sm_compact E s))"
    by simp_all
qed

lemma lives_sound:
  assumes "lives E a s" and "sm_env_ok E"
  shows "sm_ok E s \<and> durable E s \<and> (sm_view E s, sm_staged s) = a"
  using assms
proof (induction rule: lives.induct)
  case (created d cfg s)
  obtain t where "fst (sm_open E cfg d) = Inr t" "sm_inv E t" "no_faults t" "durable E t" "sm_view E t = Map.empty" "pending_txs t = []"
    by (rule open_empty [OF created(1-3)])
  then show ?case using created(4,5) by (simp add: sm_ok_def sm_staged_def fun_eq_iff)
next
  case (applied a s c)
  then show ?case using sm_apply_effect [of E s c] sm_apply_durable [of E s c] by auto
next
  case (flushed a s)
  then show ?case using flush_keeps [of E s] by (auto simp: sm_staged_def fun_eq_iff)
next
  case (compacted a s)
  then show ?case using compact_keeps [of E s] by (auto simp: sm_staged_def fun_eq_iff)
next
  case (reopened a s cfg s')
  then have ok: "sm_inv E s" "no_faults s" "durable E s" by (simp_all add: sm_ok_def)
  obtain t where "fst (sm_open E cfg (disk s)) = Inr t" "sm_inv E t" "no_faults t" "sm_view E t = sm_view E s" "pending_txs t = []" "durable E t"
    by (rule open_recovers [OF ok reopened(2)])
  then show ?case using reopened(3-5) by (auto simp: sm_ok_def sm_staged_def fun_eq_iff)
qed

text \<open>C29: Restart loses nothing: whatever commands a state machine has applied since it was first opened on an empty
  directory of a disk that does not fail, with any flushes, compactions and earlier crashes (between two operations) in
  between, it holds the map and the staged transactions
  that the specification gives, and opening the directory it leaves behind succeeds and recovers the same memtable, the
  same tables and the same map, as long as the ids handed out fit in a \<open>u64\<close>. Staged transactions are
  dropped; they come back with the replay of the log.\<close>

theorem open_after_crash_recovers:
  assumes "sm_env_ok E" and "lives E a s" and "next_sst_id s \<le> 2 ^ 64"
  shows "(sm_view E s, sm_staged s) = a \<and>
    (\<exists>s'. fst (sm_open E cfg (disk s)) = Inr s' \<and> sm_inv E s' \<and> sm_view E s' = fst a \<and>
      memtable s' = memtable s \<and> sstables s' = sstables s \<and> pending_txs s' = [])"
proof -
  have l: "sm_inv E s" "no_faults s" "durable E s" "(sm_view E s, sm_staged s) = a"
    using lives_sound [OF assms(2,1)] by (simp_all add: sm_ok_def)
  obtain t where "fst (sm_open E cfg (disk s)) = Inr t" "sm_inv E t" "sm_view E t = sm_view E s" "memtable t = memtable s"
      "sstables t = sstables s" "pending_txs t = []"
    by (rule open_recovers [OF l(1-3) assms(3)])
  then show ?thesis using l(4) by auto
qed

text \<open>A snapshot transfers the map: \<open>snapshot_data\<close> lists every binding once, and installing
  the list on any other state machine gives it the same map, with no tables left.\<close>

theorem snapshot_transfers_view:
  assumes "sm_inv E s" and "no_faults t"
  shows "\<exists>m t'. snapshot_data E s = Inr m \<and> distinct (map fst m) \<and> map_of m = sm_view E s \<and>
    install_snapshot m t = (Inr (), t') \<and> sm_inv E t' \<and> sm_view E t' = sm_view E s \<and> sstables t' = [] \<and>
    pending_txs t' = []"
proof -
  from snapshot_data_spec [OF assms(1)] obtain m where m: "snapshot_data E s = Inr m" "distinct (map fst m)"
    "map_of m = sm_view E s" by blast
  from install_snapshot_spec [OF assms(2) m(2), of E] obtain t' where
    "install_snapshot m t = (Inr (), t')" "sm_inv E t'" "sm_view E t' = map_of m" "pending_txs t' = []"
    "sstables t' = []" by metis
  with m show ?thesis by metis
qed

definition torn_flush :: "(unit, doc state_machine) io_res" where
  "torn_flush =
     (let s = snd (sm_set (doc_env 0) ''k'' ''v'' (fresh_sm 1000))
      in sm_flush (doc_env 0) (s\<lparr>disk := (disk s)\<lparr>faults := [False, False, True]\<rparr>\<rparr>))"

lemma torn_flush_result:
  "fst torn_flush = Inl IoOther \<and>
   disk (snd torn_flush) = \<lparr>wal_lines = [WalDoc (WalPut ''k'' ''v'')],
     files = [(sst_path 0, SstDoc [\<lparr>se_key = ''k'', se_value = Some ''v'', se_tombstone = False\<rparr>])], faults = []\<rparr>"
  by code_simp

text \<open>A flush that fails between the table and its metadata leaves a directory that \<open>open\<close>
  refuses: the table file is there, its metadata file is not.\<close>

theorem torn_flush_blocks_open:
  "fst torn_flush = Inl IoOther \<and>
   fst (sm_open (doc_env 0) (config (snd torn_flush)) (disk (snd torn_flush))) = Inl NotFound"
  using torn_flush_result
  by (simp add: sm_open_def io_op_def parse_sst_path load_sst_meta_def)

section \<open>Witnesses\<close>

text \<open>A state with two tables, a tombstone, a non-empty memtable and a pending transaction.\<close>

definition sample_sm :: "doc state_machine" where
  "sample_sm = fold (sm_apply (doc_env 5))
     [CmdSet ''b'' ''22'', CmdSet ''a'' ''1'', CmdDelete ''b'', CmdSet ''c'' ''3'', CmdSet ''d'' ''4'',
      CmdSet ''e'' ''5'', CmdBeginTx ''t'' [TxPut ''a'' ''9'', TxDelete ''d'']] (fresh_sm 84)"

lemma sample_sm_ok: "sm_ok (doc_env 5) sample_sm"
  unfolding sample_sm_def by (rule lsm.run_ok [OF fresh_sm_ok])

lemma sample_sm_parts: "sm_env_ok (doc_env 5)" "no_faults sample_sm" "sm_inv (doc_env 5) sample_sm"
  using sample_sm_ok by (simp_all add: sm_ok_def)

lemma sample_sm_facts:
  "durable (doc_env 5) sample_sm \<and> length (sstables sample_sm) = 2 \<and> memtable_len sample_sm = 1 \<and>
   next_sst_id sample_sm = 2"
  by code_simp

theorem get_agrees_with_view_witness:
  "sm_get (doc_env 5) sample_sm ''c'' = sm_view (doc_env 5) sample_sm ''c'' \<and>
   sm_view (doc_env 5) sample_sm ''c'' = Some ''3''"
proof
  have "list_all (\<lambda>h. covers (doc_env 5) (disk sample_sm) ''c'' h \<longrightarrow>
      sst_map (table_of (doc_env 5) (disk sample_sm) h) ''c'' \<noteq> None) (sstables sample_sm)"
    by code_simp
  then show "sm_get (doc_env 5) sample_sm ''c'' = sm_view (doc_env 5) sample_sm ''c''"
    by (intro get_agrees_with_view [OF sample_sm_parts(3)] disjI2)
  show "sm_view (doc_env 5) sample_sm ''c'' = Some ''3''" by code_simp
qed

theorem maintenance_keeps_view_witness:
  "\<exists>s'. sm_compact (doc_env 5) sample_sm = (Inr (), s') \<and>
     sm_view (doc_env 5) s' = sm_view (doc_env 5) sample_sm \<and> durable (doc_env 5) s' \<and> length (sstables s') = 1"
  using maintenance_keeps_view [OF sample_sm_parts] sample_sm_facts by auto

text \<open>A life: opened on an empty directory, two writes and a deletion, a flush, one more write, a crash.\<close>

definition first_life :: "doc state_machine" where
  "first_life = (case fst (sm_open (doc_env 5) (config (fresh_sm 1000)) (disk (fresh_sm 1000))) of
      Inr s \<Rightarrow> sm_apply (doc_env 5) (CmdSet ''c'' ''3'') (snd (sm_flush (doc_env 5)
        (fold (sm_apply (doc_env 5)) [CmdSet ''b'' ''2'', CmdSet ''a'' ''1'', CmdDelete ''b''] s)))
    | Inl _ \<Rightarrow> fresh_sm 1000)"

lemma first_life_lives:
  "\<exists>a. lives (doc_env 5) a first_life \<and> a = fold kv_spec [CmdSet ''b'' ''2'', CmdSet ''a'' ''1'', CmdDelete ''b'', CmdSet ''c'' ''3''] (Map.empty, Map.empty)"
proof -
  have d: "wal_lines (disk (fresh_sm 1000)) = []" "files (disk (fresh_sm 1000)) = []" "True \<notin> set (faults (disk (fresh_sm 1000)))"
    by (simp_all add: fresh_sm_def)
  from open_empty [OF d, of "doc_env 5" "config (fresh_sm 1000)"] obtain s where
    s: "fst (sm_open (doc_env 5) (config (fresh_sm 1000)) (disk (fresh_sm 1000))) = Inr s" by blast
  note lives.applied [OF lives.flushed [OF lives.applied [OF lives.applied [OF lives.applied [OF lives.created [OF d s]]]]],
    of "CmdSet ''c'' ''3''" "CmdDelete ''b''" "CmdSet ''a'' ''1''" "CmdSet ''b'' ''2''"]
  then show ?thesis by (simp add: first_life_def s del: sm_apply.simps)
qed

theorem open_after_crash_recovers_witness:
  "\<exists>s'. fst (sm_open (doc_env 5) (config first_life) (disk first_life)) = Inr s' \<and>
     sm_view (doc_env 5) s' = [''a'' \<mapsto> ''1'', ''c'' \<mapsto> ''3''] \<and> sstables s' = sstables first_life \<and> length (sstables s') = 1"
proof -
  from first_life_lives obtain a where a: "lives (doc_env 5) a first_life"
    "a = fold kv_spec [CmdSet ''b'' ''2'', CmdSet ''a'' ''1'', CmdDelete ''b'', CmdSet ''c'' ''3''] (Map.empty, Map.empty)" by blast
  have f: "next_sst_id first_life = 1" "length (sstables first_life) = 1" by code_simp+
  have "fst a = [''a'' \<mapsto> ''1'', ''c'' \<mapsto> ''3'']" by (simp add: a(2) fun_eq_iff)
  moreover have "next_sst_id first_life \<le> 2 ^ 64" using f(1) by simp
  ultimately show ?thesis
    using open_after_crash_recovers [OF doc_env_ok a(1), of "config first_life"] f(2) by (metis fst_conv)
qed

theorem snapshot_transfers_view_witness:
  "\<exists>m t'. snapshot_data (doc_env 5) sample_sm = Inr m \<and> install_snapshot m (fresh_sm 10) = (Inr (), t') \<and>
     sm_view (doc_env 5) t' = sm_view (doc_env 5) sample_sm"
  using snapshot_transfers_view [OF sample_sm_parts(3), of "fresh_sm 10"] fresh_sm_ok [of 5 10]
  by (auto simp: sm_ok_def)

theorem set_delete_update_view_witness:
  "\<exists>s'. sm_delete (doc_env 5) ''c'' sample_sm = (Inr (), s') \<and>
     sm_view (doc_env 5) s' = (sm_view (doc_env 5) sample_sm)(''c'' := None) \<and> durable (doc_env 5) s'"
  using set_delete_update_view [OF sample_sm_parts, of "''c''"] sample_sm_facts by blast

theorem two_phase_commit_atomic_witness:
  "sm_view (doc_env 5) (sm_apply (doc_env 5) (CmdDecideTx ''x'' Commit)
      (fold (sm_apply (doc_env 5)) [CmdSet ''p'' ''1'', CmdDelete ''q'']
        (sm_apply (doc_env 5) (CmdBeginTx ''x'' [TxPut ''q'' ''2'']) (fresh_sm 100)))) = [''p'' \<mapsto> ''1'', ''q'' \<mapsto> ''2'']"
proof -
  have "\<forall>c \<in> set [CmdSet ''p'' ''1'', CmdDelete ''q'']. \<not> concerns_tx ''x'' c" by simp
  from two_phase_commit_atomic [OF fresh_sm_ok [of 5 100] this, of "[TxPut ''q'' ''2'']"]
  have "sm_view (doc_env 5) (sm_apply (doc_env 5) (CmdDecideTx ''x'' Commit)
      (fold (sm_apply (doc_env 5)) [CmdSet ''p'' ''1'', CmdDelete ''q'']
        (sm_apply (doc_env 5) (CmdBeginTx ''x'' [TxPut ''q'' ''2'']) (fresh_sm 100))))
    = fold apply_op [TxPut ''q'' ''2''] (sm_view (doc_env 5) (fold (sm_apply (doc_env 5)) [CmdSet ''p'' ''1'', CmdDelete ''q'']
        (sm_apply (doc_env 5) (CmdBeginTx ''x'' [TxPut ''q'' ''2'']) (fresh_sm 100))))" by blast
  moreover have "(sm_view (doc_env 5) (fresh_sm 100), sm_staged (fresh_sm 100)) = (Map.empty, Map.empty)"
    by (simp add: sm_view_def sm_staged_def fresh_sm_def flat_def mem_map_def fun_eq_iff)
  with lsm.run_kv [OF fresh_sm_ok [of 5 100], of
      "[CmdBeginTx ''x'' [TxPut ''q'' ''2''], CmdSet ''p'' ''1'', CmdDelete ''q'']"]
  have "sm_view (doc_env 5) (fold (sm_apply (doc_env 5)) [CmdSet ''p'' ''1'', CmdDelete ''q'']
        (sm_apply (doc_env 5) (CmdBeginTx ''x'' [TxPut ''q'' ''2'']) (fresh_sm 100))) = [''p'' \<mapsto> ''1'']"
    by (simp del: sm_apply.simps)
  ultimately show ?thesis by (simp del: sm_apply.simps)
qed

theorem lsm_refines_reference_witness:
  "rm_state (snd (replay_from_node
       [\<lparr>le_term = 1, le_index = 1, le_command = CmdSet ''k'' ''v''\<rparr>,
        \<lparr>le_term = 1, le_index = 2, le_command = CmdDelete ''k''\<rparr>] 1 rm_new))
     = sm_view (doc_env 5) (sm_apply (doc_env 5) (CmdSet ''k'' ''v'') (fresh_sm 100))"
proof -
  have "sm_view (doc_env 5) (fresh_sm 100) = Map.empty" and "sm_staged (fresh_sm 100) = Map.empty"
    by (simp_all add: sm_view_def sm_staged_def fresh_sm_def flat_def mem_map_def fun_eq_iff)
  from lsm_refines_reference [OF fresh_sm_ok this] show ?thesis by simp
qed

end
