(* ===== verification/Node_Examples.thy ===== *)
theory Node_Examples
  imports Node_Steps StateMachine_Read
begin

text \<open>
  A small concrete cluster: the nodes \<open>a\<close>, \<open>b\<close> and \<open>c\<close> on in-memory disks, with \<open>a\<close> elected in
  term 1. The properties of a node are applied to it.
\<close>

type_synonym ex_node = "(doc, wal_unit, raft_doc) raft_node"

definition V0 :: "(doc, wal_unit, raft_doc) node_env" where
  "V0 = \<lparr>sm_env_of = doc_env 0, codec_of = unit_codec\<rparr>"

definition ex_start :: "string \<Rightarrow> string list \<Rightarrow> ex_node" where
  "ex_start a ps = new_node V0 0 a ps (fresh_sm 1000) (empty_store [])"

definition node_a :: ex_node where "node_a = ex_start ''a'' [''b'', ''c'']"
definition node_b :: ex_node where "node_b = ex_start ''b'' [''a'', ''c'']"

definition leader_a :: ex_node where
  "leader_a = (case become_candidate V0 1 node_a of (r, _, n) \<Rightarrow>
     snd (vote_reply_handler V0 2 \<lparr>vr_term = 1, vote_granted = True\<rparr> (r, n)))"

definition leader_a1 :: ex_node where
  "leader_a1 = snd (propose V0 (CmdSet ''k'' ''v'') leader_a)"

definition args_b :: append_entries_args where
  "args_b = append_args_for leader_a1 ''b''"

lemma ex_start_inv: "a \<notin> set ps \<Longrightarrow> node_inv V0 (ex_start a ps)"
  unfolding ex_start_def using empty_store_ok fresh_sm_ok by (intro node_inv_new) (simp_all add: V0_def)

lemma ex_inv: "node_inv V0 node_a" "node_inv V0 node_b" "node_inv V0 leader_a" "node_inv V0 leader_a1"
proof -
  show a: "node_inv V0 node_a" and "node_inv V0 node_b"
    unfolding node_a_def node_b_def by (rule ex_start_inv, simp)+
  obtain r ms n where c: "become_candidate V0 1 node_a = (r, ms, n)" by (metis prod_cases3)
  then have "node_inv V0 n" using node_inv_elections(1) [OF a, of 1] by simp
  then show l: "node_inv V0 leader_a" unfolding leader_a_def c by (simp add: node_inv_vote_reply)
  show "node_inv V0 leader_a1" unfolding leader_a1_def by (rule node_inv_proposals(1) [OF l])
qed

lemma leader_facts:
  "state leader_a1 = Leader" "current_term leader_a1 = 1" "commit_index leader_a1 = 0" "last_applied leader_a1 = 0"
  "log leader_a1 = [entry 1 1 (CmdSet ''k'' ''v'')]" "next_index leader_a1 ''b'' = Some 1"
  "state leader_a = Leader" "current_config leader_a = Simple [server ''a'', server ''b'', server ''c'']"
  "log leader_a = []"
  by code_simp+

lemma follower_facts:
  "state node_b = Follower" "current_term node_b = 0" "vote_for node_b = None" "log node_b = []"
  "commit_index node_b = 0" "last_applied node_b = 0"
  by code_simp+

lemma ex_envs [simp]: "sm_env_of V0 = doc_env 0" "codec_of V0 = unit_codec"
  by (simp_all add: V0_def)

section \<open>Witnesses\<close>

definition committed_a :: ex_node where "committed_a = leader_a1\<lparr>commit_index := 1\<rparr>"
definition committed_b :: ex_node where "committed_b = node_b\<lparr>log := [entry 1 1 (CmdSet ''k'' ''v'')], commit_index := 1\<rparr>"

lemma committed_inv: "node_inv V0 committed_a" "node_inv V0 committed_b"
  unfolding committed_a_def committed_b_def using ex_inv by (auto intro: node_inv_update)

lemma committed_views:
  "(sm_view (doc_env 0) (state_machine_of committed_a), sm_staged (state_machine_of committed_a)) = (Map.empty, Map.empty)"
  "(sm_view (doc_env 0) (state_machine_of committed_b), sm_staged (state_machine_of committed_b)) = (Map.empty, Map.empty)"
proof -
  have "state_machine_of committed_a = fresh_sm 1000" "state_machine_of committed_b = fresh_sm 1000" by code_simp+
  then show "(sm_view (doc_env 0) (state_machine_of committed_a), sm_staged (state_machine_of committed_a)) = (Map.empty, Map.empty)"
    "(sm_view (doc_env 0) (state_machine_of committed_b), sm_staged (state_machine_of committed_b)) = (Map.empty, Map.empty)"
    by (simp_all add: fresh_sm_empty)
qed

theorem apply_logs_refines_spec_witness:
  "sm_view (doc_env 0) (state_machine_of (apply_logs V0 committed_a)) = [''k'' \<mapsto> ''v''] \<and>
   last_applied (apply_logs V0 committed_a) = 1"
proof -
  have "commit_index committed_a \<le> length (log committed_a)" by (simp add: committed_a_def leader_facts)
  with apply_logs_refines_spec [of V0 committed_a] node_invD(3) [OF committed_inv(1)] committed_views(1)
  show ?thesis by (simp add: committed_a_def leader_facts entry_def)
qed

theorem state_machine_safety_witness:
  "sm_view (doc_env 0) (state_machine_of (apply_logs V0 committed_a))
     = sm_view (doc_env 0) (state_machine_of (apply_logs V0 committed_b))"
proof -
  have "last_applied committed_a = last_applied committed_b" "commit_index committed_a = commit_index committed_b"
    "commit_index committed_a \<le> length (log committed_a)" "commit_index committed_b \<le> length (log committed_b)"
    "take (commit_index committed_a) (log committed_a) = take (commit_index committed_b) (log committed_b)"
    by (simp_all add: committed_a_def committed_b_def leader_facts follower_facts)
  with state_machine_safety [of V0 committed_a V0 committed_b] node_invD(3) [OF committed_inv(1)]
    node_invD(3) [OF committed_inv(2)] committed_views
  show ?thesis by simp
qed

theorem append_entries_merges_log_witness:
  "log (snd (handle_append_entries V0 3 args_b node_b)) = [entry 1 1 (CmdSet ''k'' ''v'')]"
proof -
  have f: "ar_success (fst (handle_append_entries V0 3 args_b node_b))" "prev_log_index args_b = 0"
    "ae_entries args_b = [entry 1 1 (CmdSet ''k'' ''v'')]" by code_simp+
  then have "indexed_from (prev_log_index args_b) (ae_entries args_b)" by (simp add: entry_def)
  with append_entries_merges_log [of node_b args_b V0 3] f show ?thesis by (simp add: follower_facts)
qed

theorem replication_step_witness:
  "take 1 (log (snd (handle_append_entries V0 3 (append_args_for leader_a1 ''b'') node_b))) = log leader_a1"
proof -
  have "ar_success (fst (handle_append_entries V0 3 (append_args_for leader_a1 ''b'') node_b))" by code_simp
  moreover have "log_wf (log leader_a1)" "log_matching (log node_b) (log leader_a1)"
    by (simp_all add: leader_facts follower_facts entry_def log_matching_def)
  ultimately show ?thesis
    using replication_step [of leader_a1 node_b "''b''" 1 V0 3] by (simp add: leader_facts)
qed

definition vote_a :: request_vote_args where
  "vote_a = \<lparr>rv_term = 1, candidate_id = ''a'', rv_last_log_index = 0, rv_last_log_term = 0\<rparr>"

lemma grants_vote_a: "grants_vote vote_a node_b"
  by code_simp

theorem request_vote_spec_witness:
  "vote_granted (fst (handle_request_vote V0 3 vote_a node_b)) \<and>
   vote_for (snd (handle_request_vote V0 3 vote_a node_b)) = Some ''a'' \<and>
   meta_synced V0 (snd (handle_request_vote V0 3 vote_a node_b))"
  using request_vote_spec [OF node_invD(1,2) [OF ex_inv(2)], of 3 vote_a] grants_vote_a
  by (simp add: vote_a_def)

theorem pre_vote_harmless_witness:
  "vote_granted (fst (handle_pre_vote 3 vote_a node_b)) \<and> vote_granted (fst (handle_request_vote V0 3 vote_a node_b))"
proof -
  have "vote_granted (fst (handle_pre_vote 3 vote_a node_b))" by code_simp
  with pre_vote_harmless [of 3 vote_a node_b V0] show ?thesis by (simp add: follower_facts vote_a_def)
qed

definition acked_a :: ex_node where "acked_a = leader_a1\<lparr>match_index := [''b'' \<mapsto> 1]\<rparr>"

theorem commit_needs_quorum_witness:
  "commit_index (maybe_commit V0 acked_a) = 1 \<and>
   config_quorum_reached (current_config acked_a) (match_index acked_a) (node_id acked_a) (length (log acked_a)) 1 \<and>
   last_applied (maybe_commit V0 acked_a) = 1"
proof -
  have "commit_index (maybe_commit V0 acked_a) = 1" "commit_index acked_a = 0" "last_applied acked_a = 0" by code_simp+
  with commit_needs_quorum [of acked_a V0] show ?thesis by simp
qed

theorem membership_proposals_witness:
  "\<exists>m. propose_add_node V0 (server ''d'') leader_a = (Inr 1, m) \<and>
     joint_proposed [server ''a'', server ''b'', server ''c''] [server ''a'', server ''b'', server ''c'', server ''d''] leader_a m"
proof -
  have "config_wf (Simple [server ''a'', server ''b'', server ''c''])" by (simp add: server_def)
  from membership_proposals [OF node_invD(1) [OF ex_inv(3)] leader_facts(8) this, of "server ''d''"]
  show ?thesis by (simp add: leader_facts server_def)
qed

theorem joint_install_completes_witness:
  "log (install_configuration V0 (Joint [server ''a''] [server ''a'', server ''d''])
       (leader_a\<lparr>pending_post_joint_simple := Some (Simple [server ''a'', server ''d''])\<rparr>))
   = [entry 1 1 (CmdInstallConfiguration (Simple [server ''a'', server ''d'']))]"
proof -
  let ?n = "leader_a\<lparr>pending_post_joint_simple := Some (Simple [server ''a'', server ''d''])\<rparr>"
  have "node_inv V0 ?n" using ex_inv(3) by (intro node_inv_update)
  from joint_install_completes [OF node_invD(1) [OF this], of "[server ''a'', server ''d'']" "[server ''a'']"]
  show ?thesis by (simp add: leader_facts next_entry_def entry_def) (code_simp)
qed

definition snap_args :: install_snapshot_args where
  "snap_args = \<lparr>is_term = 1, is_leader_id = ''a'', is_last_included_index = 4, is_last_included_term = 1,
     is_snapshot = \<lparr>last_included_index = 4, last_included_term = 1, snap_data = [(''x'', ''1''), (''y'', ''2'')]\<rparr>\<rparr>"

theorem install_snapshot_replaces_state_witness:
  "\<exists>m. handle_install_snapshot V0 5 snap_args node_b = Some (\<lparr>isr_term = 1\<rparr>, m) \<and>
     sm_view (doc_env 0) (state_machine_of m) = map_of [(''x'', ''1''), (''y'', ''2'')] \<and> 4 \<le> commit_index m"
  using install_snapshot_replaces_state [OF ex_inv(2), of snap_args 5]
  by (auto simp: snap_args_def follower_facts)

theorem node_run_keeps_invariant_witness:
  "node_inv V0 (snd (handle_request_vote V0 3 vote_a (ex_start ''b'' [''a''])))"
proof (rule node_run_keeps_invariant)
  show "node_run V0 (True \<and> True) (new_node V0 0 ''b'' [''a''] (fresh_sm 1000) (empty_store []))
     (snd (handle_request_vote V0 3 vote_a (ex_start ''b'' [''a''])))"
    unfolding ex_start_def by (rule node_run.step [OF node_run.stay node_step.local [OF local_step.request_vote]])
qed (use empty_store_ok fresh_sm_ok in simp_all)

theorem votes_are_kept_witness:
  "vote_for (snd (handle_request_vote V0 4 (vote_a\<lparr>candidate_id := ''c''\<rparr>) (snd (handle_request_vote V0 3 vote_a node_b)))) = Some ''a''"
proof -
  let ?n = "snd (handle_request_vote V0 3 vote_a node_b)" and ?args = "vote_a\<lparr>candidate_id := ''c''\<rparr>"
  have "node_inv V0 ?n" by (rule node_inv_request_vote [OF ex_inv(2)])
  moreover have "node_run V0 (True \<and> True) ?n (snd (handle_request_vote V0 4 ?args ?n))"
    by (rule node_run.step [OF node_run.stay node_step.local [OF local_step.request_vote]])
  moreover have "vote_for ?n = Some ''a''" "current_term (snd (handle_request_vote V0 4 ?args ?n)) = current_term ?n"
    by code_simp+
  ultimately show ?thesis using votes_are_kept [of V0 "True \<and> True" ?n] by simp
qed

end
