(* ===== verification/Coordinator.thy ===== *)
theory Coordinator
  imports Node_Examples
begin

text \<open>
  The two-phase commit coordinator of \<open>src/raft/coordinator.rs\<close>. \<open>coordinate_tx_inner\<close> is an
  asynchronous function: between its locked sections any other task may change the node. A round is
  therefore a state machine over phases, one transition per locked section (\<open>coordinator_section\<close>),
  interleaved with arbitrary steps of the node, with the arrival of votes and with the wall-clock
  bound of \<open>coordinate_tx\<close>: as a relation (\<open>tx_step\<close>, \<open>tx_history\<close>), and as a function of what the round meets. Waiting loops are repeated polls; the moments of \<open>std::time::Instant\<close> are
  milliseconds. Reasons that the source formats as text are constructors here. The lemmas show when
  a round may decide to commit, that every wait returns within its bound, what the sweep for stuck
  transactions proposes, and two ways in which the reported outcome and the log disagree.
\<close>

section \<open>Data\<close>

datatype wait_error =
    NotLeaderAtPropose
  | ProposeRejected
  | SteppedDown node_state
  | WaitTimedOut nat

datatype vote_result = VoteReply tx_vote_response | VoteRpcFailed

datatype abort_reason =
    ReplicationFailed wait_error
  | PeerDeclined string string
  | PeerFailed string
  | IncompleteVoteSet
  | RoundTimedOut

datatype tx_outcome =
    Committed nat nat string
  | Aborted string abort_reason
  | OutcomeNotLeader string

definition TX_VOTE_TIMEOUT_MS :: nat where "TX_VOTE_TIMEOUT_MS = 2000"

definition COORDINATE_TIMEOUT_MS :: nat where "COORDINATE_TIMEOUT_MS = 10000"

section \<open>Waiting\<close>

text \<open>One look at the node: the loop ends with a result or sleeps and looks again.\<close>

datatype 'r poll = Done 'r | Again

definition wait_bound_ms :: nat where "wait_bound_ms = 5000"

definition poll_applied :: "nat \<Rightarrow> nat \<Rightarrow> ('b, 'w, 'c) raft_node \<Rightarrow> (wait_error + nat) poll" where
  "poll_applied index elapsed n =
     (if state n \<noteq> Leader then Done (Inl (SteppedDown (state n)))
      else if index \<le> commit_index n \<and> index \<le> last_applied n then Done (Inr index)
      else if wait_bound_ms < elapsed then Done (Inl (WaitTimedOut index))
      else Again)"

text \<open>The wait for a batch looks at the index of its first entry only: the entries of a batch commit together.\<close>

definition poll_batch_applied :: "nat \<Rightarrow> nat \<Rightarrow> ('b, 'w, 'c) raft_node \<Rightarrow> (wait_error + nat) poll" where
  "poll_batch_applied first_index elapsed n =
     (if state n \<noteq> Leader then Done (Inl (SteppedDown (state n)))
      else if first_index \<le> commit_index n \<and> first_index \<le> last_applied n then Done (Inr first_index)
      else if wait_bound_ms < elapsed then Done (Inl (WaitTimedOut first_index))
      else Again)"

definition poll_replicated :: "nat \<Rightarrow> nat \<Rightarrow> ('b, 'w, 'c) raft_node \<Rightarrow> (wait_error + unit) poll" where
  "poll_replicated index elapsed n =
     (if state n \<noteq> Leader then Done (Inl (SteppedDown (state n)))
      else if list_all (\<lambda>p. index \<le> match_index_for n p) (peers n) then Done (Inr ())
      else if wait_bound_ms < elapsed then Done (Inl (WaitTimedOut index))
      else Again)"

text \<open>The loop around a poll: \<open>obs i\<close> is the node as it is at the \<open>i\<close>-th look and \<open>clock i\<close> the moment;
  \<open>None\<close> when the loop is still waiting after \<open>fuel\<close> more looks.\<close>

fun poll_loop :: "(nat \<Rightarrow> 'n \<Rightarrow> 'r poll) \<Rightarrow> (nat \<Rightarrow> nat) \<Rightarrow> (nat \<Rightarrow> 'n) \<Rightarrow> nat \<Rightarrow> nat \<Rightarrow> nat \<Rightarrow> 'r option" where
  "poll_loop poll clock obs start i 0 = (case poll (clock i - start) (obs i) of Done r \<Rightarrow> Some r | Again \<Rightarrow> None)"
| "poll_loop poll clock obs start i (Suc fuel) =
     (case poll (clock i - start) (obs i) of
        Done r \<Rightarrow> Some r
      | Again \<Rightarrow> poll_loop poll clock obs start (Suc i) fuel)"

section \<open>The locked sections of a round\<close>

definition propose_section :: "('b, 'w, 'c) node_env \<Rightarrow> command \<Rightarrow> ('b, 'w, 'c) raft_node
    \<Rightarrow> (wait_error + nat) \<times> ('b, 'w, 'c) raft_node" where
  "propose_section V c n =
     (if state n \<noteq> Leader then (Inl NotLeaderAtPropose, n)
      else case propose V c n of
        (False, n) \<Rightarrow> (Inl ProposeRejected, n)
      | (True, n) \<Rightarrow> (Inr (length (log n)), n))"

definition propose_batch_section :: "('b, 'w, 'c) node_env \<Rightarrow> command list \<Rightarrow> ('b, 'w, 'c) raft_node
    \<Rightarrow> (wait_error + nat) \<times> ('b, 'w, 'c) raft_node" where
  "propose_batch_section V cs n =
     (if state n \<noteq> Leader then (Inl NotLeaderAtPropose, n)
      else case propose_batch V cs n of
        (False, n) \<Rightarrow> (Inl ProposeRejected, n)
      | (True, n) \<Rightarrow> (Inr (length (log n) - length cs + 1), n))"

text \<open>What the round remembers of the leader when it fans out the vote requests.\<close>

record vote_snapshot =
  vs_begin_index :: nat
  vs_leader_term :: nat
  vs_peers :: "string list"
  vs_leader_id :: string
  vs_begin_term :: nat

definition take_snapshot :: "nat \<Rightarrow> ('b, 'w, 'c) raft_node \<Rightarrow> vote_snapshot" where
  "take_snapshot begin_index n =
     \<lparr>vs_begin_index = begin_index, vs_leader_term = current_term n, vs_peers = peers n, vs_leader_id = node_id n,
      vs_begin_term = (case get_log_entry n begin_index of Some e \<Rightarrow> le_term e | None \<Rightarrow> current_term n)\<rparr>"

definition vote_request_for :: "string \<Rightarrow> vote_snapshot \<Rightarrow> tx_vote_request" where
  "vote_request_for tx_id s =
     \<lparr>tv_term = vs_leader_term s, tv_tx_id = tx_id, tv_last_log_index = vs_begin_index s,
      tv_last_log_term = vs_begin_term s\<rparr>"

text \<open>One round of the tally. \<open>Inl\<close>: the round ends because a peer is in a higher term.\<close>

record tally =
  yes_voters :: "string list"
  tally_reason :: "abort_reason option"

definition tally_vote :: "('b, 'w, 'c) node_env \<Rightarrow> string \<Rightarrow> nat \<Rightarrow> string \<times> vote_result \<Rightarrow> tally \<Rightarrow> ('b, 'w, 'c) raft_node
    \<Rightarrow> (tx_outcome + tally) \<times> ('b, 'w, 'c) raft_node" where
  "tally_vote V tx_id leader_term v acc n =
     (case v of
        (addr, VoteReply resp) \<Rightarrow>
          if leader_term < tvr_term resp then (Inl (OutcomeNotLeader tx_id), step_down_on V (tvr_term resp) n)
          else if tvr_granted resp
          then (Inr (acc\<lparr>yes_voters := addr # yes_voters acc\<rparr>), record_yes tx_id addr n)
          else (Inr (acc\<lparr>tally_reason := Some (PeerDeclined addr (tvr_reason resp))\<rparr>), n)
      | (addr, VoteRpcFailed) \<Rightarrow> (Inr (acc\<lparr>tally_reason := Some (PeerFailed addr)\<rparr>), n))"

definition decision_for :: "vote_snapshot \<Rightarrow> tally \<Rightarrow> tx_decision" where
  "decision_for s acc =
     (if tally_reason acc \<noteq> None \<or> set (yes_voters acc) \<noteq> insert (vs_leader_id s) (set (vs_peers s))
      then Abort else Commit)"

section \<open>A round\<close>

datatype tx_phase =
    Starting
  | ProposeBatch
  | SyncBatch nat
  | WaitBatch nat nat
  | ProposeBegin
  | SyncBegin nat
  | WaitBegin nat nat
  | StartReplicated nat
  | WaitReplicated nat nat
  | TakeSnapshot nat
  | RecordLeader vote_snapshot
  | Voting vote_snapshot "(string \<times> vote_result option) list"
  | Tallying vote_snapshot "(string \<times> vote_result) list" tally
  | ProposeDecide vote_snapshot tx_decision "abort_reason option"
  | SyncDecide vote_snapshot tx_decision "abort_reason option" nat
  | WaitDecide vote_snapshot tx_decision "abort_reason option" nat nat
  | Finished tx_outcome

definition decided_outcome :: "string \<Rightarrow> vote_snapshot \<Rightarrow> tx_decision \<Rightarrow> abort_reason option \<Rightarrow> nat \<Rightarrow> tx_outcome" where
  "decided_outcome tx_id s d reason i =
     (if d = Commit then Committed (vs_begin_index s) i tx_id
      else Aborted tx_id (case reason of Some r \<Rightarrow> r | None \<Rightarrow> IncompleteVoteSet))"

text \<open>What the single-node path makes of the index of its batch.\<close>

fun single_node_fast_path :: "string \<Rightarrow> wait_error + nat \<Rightarrow> tx_outcome" where
  "single_node_fast_path tx_id (Inr begin_index) = Committed begin_index (begin_index + 1) tx_id"
| "single_node_fast_path tx_id (Inl _) = OutcomeNotLeader tx_id"

fun coordinator_section :: "('b, 'w, 'c) node_env \<Rightarrow> nat \<Rightarrow> string \<Rightarrow> tx_op list \<Rightarrow> tx_phase \<Rightarrow> ('b, 'w, 'c) raft_node
    \<Rightarrow> tx_phase \<times> ('b, 'w, 'c) raft_node" where
  "coordinator_section V now tx ops Starting n = (if is_single_node n then ProposeBatch else ProposeBegin, n)"
| "coordinator_section V now tx ops ProposeBatch n =
     (case propose_batch_section V [CmdBeginTx tx ops, CmdDecideTx tx Commit] n of
        (Inl e, n) \<Rightarrow> (Finished (single_node_fast_path tx (Inl e)), n)
      | (Inr i, n) \<Rightarrow> (SyncBatch i, n))"
| "coordinator_section V now tx ops (SyncBatch i) n = (WaitBatch i now, snd (sync_logs V n))"
| "coordinator_section V now tx ops (WaitBatch i start) n =
     (case poll_batch_applied i (now - start) n of
        Done r \<Rightarrow> (Finished (single_node_fast_path tx r), n)
      | Again \<Rightarrow> (WaitBatch i start, n))"
| "coordinator_section V now tx ops ProposeBegin n =
     (case propose_section V (CmdBeginTx tx ops) n of
        (Inl _, n) \<Rightarrow> (Finished (OutcomeNotLeader tx), n)
      | (Inr i, n) \<Rightarrow> (SyncBegin i, n))"
| "coordinator_section V now tx ops (SyncBegin i) n = (WaitBegin i now, snd (sync_logs V n))"
| "coordinator_section V now tx ops (WaitBegin i start) n =
     (case poll_applied i (now - start) n of
        Done (Inl _) \<Rightarrow> (Finished (OutcomeNotLeader tx), n)
      | Done (Inr i) \<Rightarrow> (StartReplicated i, n)
      | Again \<Rightarrow> (WaitBegin i start, n))"
| "coordinator_section V now tx ops (StartReplicated i) n = (WaitReplicated i now, n)"
| "coordinator_section V now tx ops (WaitReplicated i start) n =
     (case poll_replicated i (now - start) n of
        Done (Inl e) \<Rightarrow> (Finished (Aborted tx (ReplicationFailed e)), n)
      | Done (Inr _) \<Rightarrow> (TakeSnapshot i, n)
      | Again \<Rightarrow> (WaitReplicated i start, n))"
| "coordinator_section V now tx ops (TakeSnapshot i) n = (RecordLeader (take_snapshot i n), n)"
| "coordinator_section V now tx ops (RecordLeader s) n =
     (Voting s (map (\<lambda>a. (a, None)) (vs_peers s)), record_yes tx (vs_leader_id s) n)"
| "coordinator_section V now tx ops (Voting s rs) n =
     (if list_all (\<lambda>(a, r). r \<noteq> None) rs
      then (Tallying s (map (\<lambda>(a, r). (a, the r)) rs) \<lparr>yes_voters = [vs_leader_id s], tally_reason = None\<rparr>, n)
      else (Voting s rs, n))"
| "coordinator_section V now tx ops (Tallying s (v # vs) acc) n =
     (case tally_vote V tx (vs_leader_term s) v acc n of
        (Inl out, n) \<Rightarrow> (Finished out, n)
      | (Inr acc, n) \<Rightarrow> (Tallying s vs acc, n))"
| "coordinator_section V now tx ops (Tallying s [] acc) n = (ProposeDecide s (decision_for s acc) (tally_reason acc), n)"
| "coordinator_section V now tx ops (ProposeDecide s d reason) n =
     (case propose_section V (CmdDecideTx tx d) n of
        (Inl _, n) \<Rightarrow> (Finished (OutcomeNotLeader tx), n)
      | (Inr i, n) \<Rightarrow> (SyncDecide s d reason i, n))"
| "coordinator_section V now tx ops (SyncDecide s d reason i) n = (WaitDecide s d reason i now, snd (sync_logs V n))"
| "coordinator_section V now tx ops (WaitDecide s d reason i start) n =
     (case poll_applied i (now - start) n of
        Done (Inl _) \<Rightarrow> (Finished (OutcomeNotLeader tx), n)
      | Done (Inr j) \<Rightarrow> (Finished (decided_outcome tx s d reason j), n)
      | Again \<Rightarrow> (WaitDecide s d reason i start, n))"
| "coordinator_section V now tx ops (Finished out) n = (Finished out, n)"

text \<open>A round in its surroundings: the votes received so far, the phase and the node. A task that panics leaves its
  failure under another name.\<close>

type_synonym ('b, 'w, 'c) tx_config = "(string \<times> vote_result) list \<times> tx_phase \<times> ('b, 'w, 'c) raft_node"

inductive tx_step :: "('b, 'w, 'c) node_env \<Rightarrow> string \<Rightarrow> tx_op list \<Rightarrow> ('b, 'w, 'c) tx_config \<Rightarrow> ('b, 'w, 'c) tx_config \<Rightarrow> bool"
  for V :: "('b, 'w, 'c) node_env" and tx :: string and ops :: "tx_op list" where
  locked_section: "coordinator_section V now tx ops p n = (p', n') \<Longrightarrow> tx_step V tx ops (votes, p, n) (votes, p', n')"
| vote_arrives: "i < length rs \<Longrightarrow> rs ! i = (a, None) \<Longrightarrow>
    tx_step V tx ops (votes, Voting s rs, n) ((a, r) # votes, Voting s (rs[i := (a, Some r)]), n)"
| vote_task_panics: "i < length rs \<Longrightarrow> rs ! i = (a, None) \<Longrightarrow>
    tx_step V tx ops (votes, Voting s rs, n) (votes, Voting s (rs[i := (''<unknown peer>'', Some VoteRpcFailed)]), n)"
| other_task: "node_step V b n m \<Longrightarrow> tx_step V tx ops (votes, p, n) (votes, p, m)"
| bound_expires: "(\<forall>out. p \<noteq> Finished out) \<Longrightarrow>
    tx_step V tx ops (votes, p, n) (votes, Finished (Aborted tx RoundTimedOut), n)"

text \<open>A round with everything it has passed through, the latest first.\<close>

inductive tx_history :: "('b, 'w, 'c) node_env \<Rightarrow> string \<Rightarrow> tx_op list \<Rightarrow> ('b, 'w, 'c) raft_node \<Rightarrow> ('b, 'w, 'c) tx_config list \<Rightarrow> bool"
  for V :: "('b, 'w, 'c) node_env" and tx :: string and ops :: "tx_op list" and leader :: "('b, 'w, 'c) raft_node" where
  begin_round: "tx_history V tx ops leader [([], Starting, leader)]"
| then_step: "tx_history V tx ops leader (c # h) \<Longrightarrow> tx_step V tx ops c c' \<Longrightarrow> tx_history V tx ops leader (c' # c # h)"

definition tx_run :: "('b, 'w, 'c) node_env \<Rightarrow> string \<Rightarrow> tx_op list \<Rightarrow> ('b, 'w, 'c) raft_node
    \<Rightarrow> (string \<times> vote_result) list \<Rightarrow> tx_phase \<Rightarrow> ('b, 'w, 'c) raft_node \<Rightarrow> bool" where
  "tx_run V tx ops leader votes p n \<longleftrightarrow> (\<exists>h. tx_history V tx ops leader ((votes, p, n) # h))"

section \<open>A round from its start to its result\<close>

text \<open>What a round meets: what other tasks do to the node before each section, the time that passes after it, and how the
  vote call to a peer ends, with \<open>None\<close> for a task that panics.\<close>

record ('b, 'w, 'c) round_surroundings =
  other_tasks :: "nat \<Rightarrow> ('b, 'w, 'c) raft_node \<Rightarrow> ('b, 'w, 'c) raft_node"
  section_delay :: "nat \<Rightarrow> nat"
  vote_answer :: "string \<Rightarrow> vote_result option"

definition join_vote :: "(string \<Rightarrow> vote_result option) \<Rightarrow> string \<times> vote_result option \<Rightarrow> string \<times> vote_result option" where
  "join_vote answer v = (case answer (fst v) of Some r \<Rightarrow> (fst v, Some r) | None \<Rightarrow> (''<unknown peer>'', Some VoteRpcFailed))"

fun joined :: "(string \<Rightarrow> vote_result option) \<Rightarrow> tx_phase \<Rightarrow> tx_phase" where
  "joined answer (Voting s rs) = Voting s (map (join_vote answer) rs)"
| "joined answer p = p"

fun is_voting :: "tx_phase \<Rightarrow> bool" where
  "is_voting (Voting s rs) = True"
| "is_voting _ = False"

text \<open>The sections one after the other. A poll that has to look again sleeps for 20 milliseconds; the bound of the round is
  noticed where the round is suspended, that is after such a sleep and when the votes are joined.\<close>

fun coordinate_tx_inner :: "('b, 'w, 'c) node_env \<Rightarrow> ('b, 'w, 'c) round_surroundings \<Rightarrow> string \<Rightarrow> tx_op list \<Rightarrow> nat \<Rightarrow> nat \<Rightarrow> nat \<Rightarrow> nat
    \<Rightarrow> tx_phase \<Rightarrow> ('b, 'w, 'c) raft_node \<Rightarrow> (tx_outcome \<times> ('b, 'w, 'c) raft_node) option" where
  "coordinate_tx_inner V env tx ops start fuel k now (Finished out) n = Some (out, n)"
| "coordinate_tx_inner V env tx ops start 0 k now p n = None"
| "coordinate_tx_inner V env tx ops start (Suc fuel) k now p n =
     (case coordinator_section V now tx ops (joined (vote_answer env) p) (other_tasks env k n) of (p', n') \<Rightarrow>
        let again = (p' = p); later = now + section_delay env k + (if again then 20 else 0) in
        if (again \<or> is_voting p') \<and> COORDINATE_TIMEOUT_MS < later - start then Some (Aborted tx RoundTimedOut, n')
        else coordinate_tx_inner V env tx ops start fuel (k + 1) later p' n')"

definition coordinate_tx :: "('b, 'w, 'c) node_env \<Rightarrow> ('b, 'w, 'c) round_surroundings \<Rightarrow> nat \<Rightarrow> nat \<Rightarrow> string \<Rightarrow> tx_op list
    \<Rightarrow> ('b, 'w, 'c) raft_node \<Rightarrow> (tx_outcome \<times> ('b, 'w, 'c) raft_node) option" where
  "coordinate_tx V env fuel now tx ops n = coordinate_tx_inner V env tx ops now fuel 0 now Starting n"

section \<open>The sweep for stuck transactions\<close>

fun abort_all :: "('b, 'w, 'c) node_env \<Rightarrow> string list \<Rightarrow> ('b, 'w, 'c) raft_node
    \<Rightarrow> (string \<times> (abort_tx_error + nat)) list \<times> ('b, 'w, 'c) raft_node" where
  "abort_all V [] n = ([], n)"
| "abort_all V (tx # txs) n =
     (case propose_abort_tx V tx n of (r, n) \<Rightarrow>
        (case abort_all V txs n of (rs, n) \<Rightarrow> ((tx, r) # rs, n)))"

definition tx_timeout_sweep :: "('b, 'w, 'c) node_env \<Rightarrow> nat \<Rightarrow> ('b, 'w, 'c) raft_node
    \<Rightarrow> (string \<times> (abort_tx_error + nat)) list \<times> ('b, 'w, 'c) raft_node" where
  "tx_timeout_sweep V tx_timeout_ms n =
     (if state n \<noteq> Leader then ([], n)
      else abort_all V (node_pending_txs_older_than V tx_timeout_ms n) n)"

text \<open>The loop until it is stopped: one pass after every period. What other tasks do to the node during a period
  is an argument.\<close>

fun run_tx_timeout_loop :: "('b, 'w, 'c) node_env \<Rightarrow> nat \<Rightarrow> (('b, 'w, 'c) raft_node \<Rightarrow> ('b, 'w, 'c) raft_node) list
    \<Rightarrow> ('b, 'w, 'c) raft_node \<Rightarrow> ('b, 'w, 'c) raft_node" where
  "run_tx_timeout_loop V tx_timeout_ms [] n = n"
| "run_tx_timeout_loop V tx_timeout_ms (period # periods) n =
     run_tx_timeout_loop V tx_timeout_ms periods (snd (tx_timeout_sweep V tx_timeout_ms (period n)))"

end
