(* ===== verification/Coordinator_Props.thy ===== *)
theory Coordinator_Props
  imports Coordinator
begin

text \<open>
  Properties of the two-phase commit coordinator: the decision rule, the votes behind every commit,
  the bounds of the waits, the sweep, the single-node path, and two disagreements between the
  reported outcome or the term and what really happens.
\<close>

lemma poll_batch_applied_eq [simp]: "poll_batch_applied = poll_applied"
  by (simp add: fun_eq_iff poll_batch_applied_def poll_applied_def)

section \<open>Waiting ends\<close>

text \<open>A poll that gives up after a bound. What its loops promise holds for all of them.\<close>

locale bounded_poll =
  fixes poll :: "nat \<Rightarrow> 'n \<Rightarrow> 'r poll" and bound :: nat
  assumes gives_up: "bound < elapsed \<Longrightarrow> poll elapsed n \<noteq> Again"
begin

lemma loop_result:
  "poll_loop poll clock obs start i fuel = Some r \<Longrightarrow>
     \<exists>j \<ge> i. j \<le> i + fuel \<and> poll (clock j - start) (obs j) = Done r \<and> (\<forall>k. i \<le> k \<and> k < j \<longrightarrow> poll (clock k - start) (obs k) = Again)"
proof (induction fuel arbitrary: i)
  case 0
  then show ?case by (auto split: poll.splits)
next
  case (Suc fuel)
  show ?case
  proof (cases "poll (clock i - start) (obs i)")
    case (Done x)
    then show ?thesis using Suc.prems by (intro exI [of _ i]) auto
  next
    case Again
    then have "poll_loop poll clock obs start (Suc i) fuel = Some r" using Suc.prems by simp
    from Suc.IH [OF this] obtain j where j: "Suc i \<le> j" "j \<le> Suc i + fuel" "poll (clock j - start) (obs j) = Done r"
        "\<forall>k. Suc i \<le> k \<and> k < j \<longrightarrow> poll (clock k - start) (obs k) = Again" by blast
    have "poll (clock k - start) (obs k) = Again" if "i \<le> k" "k < j" for k
      using j(4) that Again by (cases "k = i") auto
    then show ?thesis using j by (intro exI [of _ j]) auto
  qed
qed

lemma loop_returns:
  assumes "bound < clock (i + fuel) - start"
  shows "\<exists>r. poll_loop poll clock obs start i fuel = Some r"
  using assms
proof (induction fuel arbitrary: i)
  case 0
  then show ?case using gives_up [of "clock i - start" "obs i"] by (auto split: poll.splits)
next
  case (Suc fuel)
  then show ?case using Suc.IH [of "Suc i"] by (auto split: poll.splits)
qed

text \<open>With a pause of \<open>d\<close> between the looks, \<open>bound div d + 1\<close> looks after the first are enough.\<close>

lemma paced_loop_returns:
  assumes "0 < d" and "\<And>i. start + d * i \<le> clock i"
  shows "\<exists>r. poll_loop poll clock obs start 0 (bound div d + 1) = Some r"
proof (rule loop_returns)
  have "bound < d * (bound div d + 1)" using assms(1) dividend_less_times_div [of d bound] by simp
  then show "bound < clock (0 + (bound div d + 1)) - start" using assms(2) [of "bound div d + 1"] by simp
qed

end

interpretation applied_wait: bounded_poll "poll_applied index" wait_bound_ms for index
  by unfold_locales (simp add: poll_applied_def)

interpretation replicated_wait: bounded_poll "poll_replicated index" wait_bound_ms for index
  by unfold_locales (simp add: poll_replicated_def)

text \<open>C20: The waits of the coordinator terminate: when every pause lasts at least 20 milliseconds, the
  loop has returned after at most 252 looks at the node, whatever other tasks do. It reports
  success only if at some look the node was leader and had committed and applied the entry, or
  had the entry replicated on every peer.\<close>

theorem waits_terminate:
  assumes "\<And>i. start + 20 * i \<le> clock i"
  shows "(\<exists>r. poll_loop (poll_applied index) clock obs start 0 251 = Some r) \<and>
    (\<exists>r. poll_loop (poll_replicated index) clock obs start 0 251 = Some r) \<and>
    (poll_loop (poll_applied index) clock obs start 0 251 = Some (Inr j) \<longrightarrow>
      j = index \<and> (\<exists>i \<le> 251. state (obs i) = Leader \<and> index \<le> commit_index (obs i) \<and> index \<le> last_applied (obs i))) \<and>
    (poll_loop (poll_replicated index) clock obs start 0 251 = Some (Inr u) \<longrightarrow>
      (\<exists>i \<le> 251. state (obs i) = Leader \<and> (\<forall>p \<in> set (peers (obs i)). index \<le> match_index_for (obs i) p)))"
proof -
  have b: "wait_bound_ms div 20 + 1 = 251" by (simp add: wait_bound_ms_def)
  have r: "\<exists>r. poll_loop (poll_applied index) clock obs start 0 251 = Some r"
    "\<exists>r. poll_loop (poll_replicated index) clock obs start 0 251 = Some r"
    using applied_wait.paced_loop_returns [of 20 start clock index obs, unfolded b, OF _ assms]
      replicated_wait.paced_loop_returns [of 20 start clock index obs, unfolded b, OF _ assms] by simp_all
  moreover have "j = index \<and> (\<exists>i \<le> 251. state (obs i) = Leader \<and> index \<le> commit_index (obs i) \<and> index \<le> last_applied (obs i))"
    if "poll_loop (poll_applied index) clock obs start 0 251 = Some (Inr j)"
    using applied_wait.loop_result [OF that] by (auto simp: poll_applied_def split: if_splits)
  moreover have "\<exists>i \<le> 251. state (obs i) = Leader \<and> (\<forall>p \<in> set (peers (obs i)). index \<le> match_index_for (obs i) p)"
    if "poll_loop (poll_replicated index) clock obs start 0 251 = Some (Inr u)"
    using replicated_wait.loop_result [OF that] by (auto simp: poll_replicated_def list_all_iff split: if_splits)
  ultimately show ?thesis by blast
qed

section \<open>The decision\<close>

abbreviation run_sections :: "nat \<Rightarrow> ('b, 'w, 'c) node_env \<Rightarrow> nat \<Rightarrow> string \<Rightarrow> tx_op list \<Rightarrow> tx_phase \<times> ('b, 'w, 'c) raft_node
    \<Rightarrow> tx_phase \<times> ('b, 'w, 'c) raft_node" where
  "run_sections k V now tx ops \<equiv> (\<lambda>(p, n). coordinator_section V now tx ops p n) ^^ k"

definition says_yes :: "nat \<Rightarrow> vote_result \<Rightarrow> bool" where
  "says_yes t r = (case r of VoteReply resp \<Rightarrow> tvr_granted resp \<and> tvr_term resp \<le> t | VoteRpcFailed \<Rightarrow> False)"

definition higher_term :: "nat \<Rightarrow> vote_result \<Rightarrow> bool" where
  "higher_term t r = (case r of VoteReply resp \<Rightarrow> t < tvr_term resp | VoteRpcFailed \<Rightarrow> False)"

definition tally_start :: "vote_snapshot \<Rightarrow> tally" where
  "tally_start s = \<lparr>yes_voters = [vs_leader_id s], tally_reason = None\<rparr>"

lemma tally_vote_cases:
  assumes "\<not> higher_term t (snd v)"
  obtains (yes) m where "says_yes t (snd v)" "tally_vote V tx t v acc n = (Inr (acc\<lparr>yes_voters := fst v # yes_voters acc\<rparr>), m)"
  | (no) r where "\<not> says_yes t (snd v)" "tally_vote V tx t v acc n = (Inr (acc\<lparr>tally_reason := Some r\<rparr>), n)"
proof (cases "snd v")
  case (VoteReply resp)
  then show ?thesis using assms yes no
    by (cases v) (auto simp: higher_term_def says_yes_def tally_vote_def split: if_splits)
next
  case VoteRpcFailed
  then show ?thesis using no by (cases v) (auto simp: says_yes_def tally_vote_def)
qed

lemma tally_all:
  assumes "\<forall>v \<in> set vs. \<not> higher_term (vs_leader_term s) (snd v)"
  shows "\<exists>acc' m. run_sections (length vs) V now tx ops (Tallying s vs acc, n) = (Tallying s [] acc', m) \<and>
    (tally_reason acc' = None \<longleftrightarrow> tally_reason acc = None \<and> (\<forall>v \<in> set vs. says_yes (vs_leader_term s) (snd v))) \<and>
    (tally_reason acc' = None \<longrightarrow> set (yes_voters acc') = set (yes_voters acc) \<union> fst ` set vs)"
  using assms
proof (induction vs arbitrary: acc n)
  case (Cons v vs)
  then have h: "\<not> higher_term (vs_leader_term s) (snd v)" "\<forall>v \<in> set vs. \<not> higher_term (vs_leader_term s) (snd v)" by auto
  from h(1) show ?case
  proof (cases rule: tally_vote_cases [of _ v V tx acc n])
    case (yes m)
    from Cons.IH [OF h(2), of "acc\<lparr>yes_voters := fst v # yes_voters acc\<rparr>" m] show ?thesis
      by (elim exE conjE) (auto simp: yes funpow_swap1 simp del: funpow.simps(2) simp add: funpow_Suc_right)
  next
    case (no r)
    from Cons.IH [OF h(2), of "acc\<lparr>tally_reason := Some r\<rparr>" n] show ?thesis
      by (elim exE conjE) (auto simp: no simp del: funpow.simps(2) simp add: funpow_Suc_right)
  qed
qed simp

text \<open>A vote belongs to the peer that was asked, unless its task panicked.\<close>

abbreviation vote_of :: "string \<Rightarrow> string \<times> vote_result \<Rightarrow> bool" where
  "vote_of a v \<equiv> fst v = a \<or> snd v = VoteRpcFailed"

text \<open>The rule of the decision, all-yes: when no peer reports a higher term, the tally of the votes
  ends in proposing a commit exactly if every peer granted its vote; otherwise it proposes an
  abort with a reason. The case of an incomplete vote set does not arise.\<close>

theorem unanimous_decision:
  assumes "list_all2 vote_of (vs_peers s) vs" and "\<forall>v \<in> set vs. \<not> higher_term (vs_leader_term s) (snd v)"
  shows "\<exists>reason m. run_sections (length vs + 1) V now tx ops (Tallying s vs (tally_start s), n) =
      (ProposeDecide s (if \<forall>v \<in> set vs. says_yes (vs_leader_term s) (snd v) then Commit else Abort) reason, m) \<and>
    (reason = None \<longleftrightarrow> (\<forall>v \<in> set vs. says_yes (vs_leader_term s) (snd v)))"
proof -
  note tally_all [OF assms(2), of V now tx ops "tally_start s" n]
  then obtain acc m where
    t: "run_sections (length vs) V now tx ops (Tallying s vs (tally_start s), n) = (Tallying s [] acc, m)"
      "tally_reason acc = None \<longleftrightarrow> tally_reason (tally_start s) = None \<and> (\<forall>v \<in> set vs. says_yes (vs_leader_term s) (snd v))"
      "tally_reason acc = None \<longrightarrow> set (yes_voters acc) = set (yes_voters (tally_start s)) \<union> fst ` set vs"
    by (elim exE conjE) (rule that)
  have "set (vs_peers s) = fst ` set vs" if "\<forall>v \<in> set vs. says_yes (vs_leader_term s) (snd v)"
  proof -
    have "snd v \<noteq> VoteRpcFailed" if "v \<in> set vs" for v
      using \<open>\<forall>v \<in> set vs. says_yes (vs_leader_term s) (snd v)\<close> that by (auto simp: says_yes_def)
    then have "list_all2 (\<lambda>a v. fst v = a) (vs_peers s) vs"
      using assms(1) by (metis (mono_tags, lifting) list_all2_conv_all_nth nth_mem)
    then have "vs_peers s = map fst vs" by (auto simp: list_all2_conv_all_nth intro: nth_equalityI)
    then show ?thesis by simp
  qed
  then have "decision_for s acc = (if \<forall>v \<in> set vs. says_yes (vs_leader_term s) (snd v) then Commit else Abort)"
    using t(2,3) by (auto simp: decision_for_def tally_start_def)
  then show ?thesis using t(1,2) by (intro exI [of _ "tally_reason acc"] exI [of _ m]) (simp add: tally_start_def)
qed

lemma later_write_refuses_vote:
  assumes "log m = log n" and "current_term m = current_term n" and "log_wf (log n)" and "sorted (map le_term (log n))"
    and "1 \<le> i" and "i < length (log n)"
  shows "\<exists>why. handle_tx_vote_request V (vote_request_for tx (take_snapshot i n)) m =
    (\<lparr>tvr_term = current_term m, tvr_granted = False, tvr_reason = ''leader log stale: '' @ why\<rparr>, m)"
proof -
  let ?req = "vote_request_for tx (take_snapshot i n)"
  have ne: "log n \<noteq> []" using assms(6) by auto
  have "le_term (log n ! (i - 1)) \<le> le_term (last (log n))"
    using sorted_nth_mono [OF assms(4), of "i - 1" "length (log n) - 1"] assms(5,6) ne by (simp add: last_conv_nth)
  moreover have "le_index (last (log n)) = length (log n)" using assms(3) ne by (auto simp: last_conv_nth indexed_from_def)
  moreover have "tv_last_log_term ?req = le_term (log n ! (i - 1))" "tv_last_log_index ?req = i" "tv_term ?req = current_term n"
    using assms(5) less_imp_diff_less [OF assms(6), of 1]
    by (simp_all add: vote_request_for_def take_snapshot_def get_log_entry_def get_log_entry_of_def)
  ultimately have "\<not> log_up_to_date (tv_last_log_index ?req) (tv_last_log_term ?req) m" "tv_term ?req = current_term m"
    using assms(1,2,6) ne by (auto simp: log_up_to_date_def get_last_log_info_def)
  then show ?thesis by (simp add: handle_tx_vote_request_def)
qed

text \<open>C39: A write that follows the begin of a transaction aborts it: the coordinator asks for votes with the
  index of \<open>BeginTx\<close> in the place of its log tip, so a follower that has stored the whole log of the leader,
  with any entry behind \<open>BeginTx\<close>, refuses as if the leader's log were stale, and its answer makes the tally
  propose an abort.\<close>

theorem later_write_aborts_tx:
  assumes "log m = log n" and "current_term m = current_term n" and "log_wf (log n)" and "sorted (map le_term (log n))"
    and "1 \<le> i" and "i < length (log n)"
  defines "s \<equiv> take_snapshot i n"
  assumes "list_all2 vote_of (vs_peers s) vs" and "\<forall>v \<in> set vs. \<not> higher_term (vs_leader_term s) (snd v)"
    and "(p, VoteReply (fst (handle_tx_vote_request V (vote_request_for tx s) m))) \<in> set vs"
  shows "\<exists>reason k. run_sections (length vs + 1) W now tx ops (Tallying s vs (tally_start s), q) =
    (ProposeDecide s Abort (Some reason), k)"
proof -
  obtain why where "handle_tx_vote_request V (vote_request_for tx s) m =
      (\<lparr>tvr_term = current_term m, tvr_granted = False, tvr_reason = ''leader log stale: '' @ why\<rparr>, m)"
    unfolding s_def using later_write_refuses_vote [OF assms(1-6)] by blast
  then have no: "(\<forall>v \<in> set vs. says_yes (vs_leader_term s) (snd v)) = False" using assms(10) by (force simp: says_yes_def)
  show ?thesis using unanimous_decision [OF assms(8,9), of W now tx ops q] unfolding no by (metis option.exhaust)
qed

section \<open>The votes behind a commit\<close>



abbreviation received :: "(string \<times> vote_result) list \<Rightarrow> string \<Rightarrow> string \<times> vote_result \<Rightarrow> bool" where
  "received votes a v \<equiv> snd v = VoteRpcFailed \<or> v = (a, snd v) \<and> v \<in> set votes"



lemma received_mono: "received votes a v \<Longrightarrow> received (x # votes) a v"
  by auto






























section \<open>A round returns\<close>

text \<open>Every section brings a round forward, or makes it look again. How many sections are left after the snapshot depends on
  the number of peers in it.\<close>

fun sections_left :: "tx_phase \<Rightarrow> nat" where
  "sections_left Starting = 8"
| "sections_left ProposeBegin = 7"
| "sections_left (SyncBegin i) = 6"
| "sections_left (WaitBegin i start) = 5"
| "sections_left (StartReplicated i) = 4"
| "sections_left (WaitReplicated i start) = 3"
| "sections_left (TakeSnapshot i) = 2"
| "sections_left (RecordLeader s) = length (vs_peers s) + 6"
| "sections_left (Voting s rs) = length rs + 5"
| "sections_left (Tallying s vs acc) = length vs + 4"
| "sections_left (ProposeDecide s d r) = 3"
| "sections_left (SyncDecide s d r i) = 2"
| "sections_left (WaitDecide s d r i start) = 1"
| "sections_left ProposeBatch = 3"
| "sections_left (SyncBatch i) = 2"
| "sections_left (WaitBatch i start) = 1"
| "sections_left (Finished out) = 0"

fun before_snapshot :: "tx_phase \<Rightarrow> bool" where
  "before_snapshot Starting = True"
| "before_snapshot ProposeBegin = True"
| "before_snapshot (SyncBegin i) = True"
| "before_snapshot (WaitBegin i start) = True"
| "before_snapshot (StartReplicated i) = True"
| "before_snapshot (WaitReplicated i start) = True"
| "before_snapshot (TakeSnapshot i) = True"
| "before_snapshot _ = False"

lemma section_progress:
  assumes "coordinator_section V now tx ops (joined answer p) n = (p', n')" and "\<nexists>out. p = Finished out"
  shows "p' = p \<or> sections_left p' < sections_left p \<or> before_snapshot p \<and> \<not> before_snapshot p'"
    and "\<not> before_snapshot p \<Longrightarrow> \<not> before_snapshot p'"
proof -
  have "(p' = p \<or> sections_left p' < sections_left p \<or> before_snapshot p \<and> \<not> before_snapshot p') \<and>
    (\<not> before_snapshot p \<longrightarrow> \<not> before_snapshot p')"
  proof (cases p)
    case (Voting s rs)
    have "list_all (\<lambda>(a, r). r \<noteq> None) (map (join_vote answer) rs)"
      by (auto simp: list_all_iff join_vote_def split: option.splits)
    then show ?thesis using assms(1) Voting by auto
  next
    case (Tallying s vs acc)
    then show ?thesis using assms(1) by (cases vs) (auto split: prod.splits sum.splits)
  qed (use assms in \<open>auto simp: take_snapshot_def split: prod.splits sum.splits poll.splits if_splits\<close>)
  then show "p' = p \<or> sections_left p' < sections_left p \<or> before_snapshot p \<and> \<not> before_snapshot p'"
    and "\<not> before_snapshot p \<Longrightarrow> \<not> before_snapshot p'" by blast+
qed

lemma sections_left_none: "sections_left p = 0 \<longleftrightarrow> (\<exists>out. p = Finished out)"
  by (cases p) simp_all

text \<open>The sections that are left and the looks for which there is time.\<close>

definition round_measure :: "nat \<Rightarrow> nat \<Rightarrow> tx_phase \<Rightarrow> nat" where
  "round_measure start now p = sections_left p + (COORDINATE_TIMEOUT_MS - (now - start)) div 20"

lemma round_measure_decreases:
  assumes "p' = p \<or> sections_left p' < sections_left p" and "start \<le> now"
    and "later = now + d + (if p' = p then 20 else 0)" and "p' = p \<Longrightarrow> later - start \<le> COORDINATE_TIMEOUT_MS"
  shows "round_measure start later p' < round_measure start now p"
proof (cases "p' = p")
  case True
  then have "COORDINATE_TIMEOUT_MS - (later - start) + 20 \<le> COORDINATE_TIMEOUT_MS - (now - start)"
    using assms by simp
  from div_le_mono [OF this, of 20]
  have "(COORDINATE_TIMEOUT_MS - (later - start)) div 20 + 1 \<le> (COORDINATE_TIMEOUT_MS - (now - start)) div 20"
    by (simp only: div_add_self2)
  then show ?thesis unfolding round_measure_def True by linarith
next
  case False
  have "(COORDINATE_TIMEOUT_MS - (later - start)) div 20 \<le> (COORDINATE_TIMEOUT_MS - (now - start)) div 20"
    by (intro div_le_mono) (simp add: assms(3))
  then show ?thesis using assms(1) False unfolding round_measure_def by linarith
qed

lemma coordinate_tx_inner_Suc:
  assumes "\<nexists>out. p = Finished out"
  shows "coordinate_tx_inner V env tx ops start (Suc fuel) k now p n =
     (case coordinator_section V now tx ops (joined (vote_answer env) p) (other_tasks env k n) of (p', n') \<Rightarrow>
        let again = (p' = p); later = now + section_delay env k + (if again then 20 else 0) in
        if (again \<or> is_voting p') \<and> COORDINATE_TIMEOUT_MS < later - start then Some (Aborted tx RoundTimedOut, n')
        else coordinate_tx_inner V env tx ops start fuel (k + 1) later p' n')"
  using assms by (cases p) (simp_all only: coordinate_tx_inner.simps, blast)

text \<open>One section: the round is over, or goes on with a smaller measure or from its snapshot.\<close>

lemma coordinate_tx_inner_cases:
  assumes "\<nexists>out. p = Finished out" and "start \<le> now"
  obtains (over) out m where "\<And>fuel. coordinate_tx_inner V env tx ops start (Suc fuel) k now p n = Some (out, m)"
  | (on) p' n' later where
      "\<And>fuel. coordinate_tx_inner V env tx ops start (Suc fuel) k now p n = coordinate_tx_inner V env tx ops start fuel (k + 1) later p' n'"
      "start \<le> later" "round_measure start later p' < round_measure start now p \<or> before_snapshot p \<and> \<not> before_snapshot p'"
      "\<not> before_snapshot p \<Longrightarrow> \<not> before_snapshot p'"
proof -
  obtain p' n' where s: "coordinator_section V now tx ops (joined (vote_answer env) p) (other_tasks env k n) = (p', n')" by fastforce
  define later where "later = now + section_delay env k + (if p' = p then 20 else 0)"
  have eq: "coordinate_tx_inner V env tx ops start (Suc fuel) k now p n =
      (if (p' = p \<or> is_voting p') \<and> COORDINATE_TIMEOUT_MS < later - start then Some (Aborted tx RoundTimedOut, n')
       else coordinate_tx_inner V env tx ops start fuel (k + 1) later p' n')" for fuel
    unfolding coordinate_tx_inner_Suc [OF assms(1)] s by (simp only: later_def prod.case Let_def)
  note pr = section_progress [OF s assms(1)]
  show ?thesis
  proof (cases "(p' = p \<or> is_voting p') \<and> COORDINATE_TIMEOUT_MS < later - start")
    case True
    then show ?thesis using eq over by simp
  next
    case False
    have "start \<le> later" using assms(2) by (simp add: later_def)
    moreover have "round_measure start later p' < round_measure start now p \<or> before_snapshot p \<and> \<not> before_snapshot p'"
      using pr(1) round_measure_decreases [OF _ assms(2) later_def] False by auto
    ultimately show ?thesis using eq False pr(2) by (intro on [of later p' n']) simp_all
  qed
qed

lemma voting_returns:
  assumes "\<not> before_snapshot p" and "start \<le> now" and "round_measure start now p \<le> fuel"
  shows "\<exists>out m. coordinate_tx_inner V env tx ops start fuel k now p n = Some (out, m)"
  using assms
proof (induction fuel arbitrary: k now p n)
  case 0
  then have "sections_left p = 0" by (simp add: round_measure_def)
  then show ?case by (auto simp: sections_left_none)
next
  case (Suc fuel)
  show ?case
  proof (cases "\<exists>out. p = Finished out")
    case False
    then show ?thesis using Suc.prems(2)
    proof (cases rule: coordinate_tx_inner_cases [of p start now V env tx ops k n])
      case (on p' n' later)
      then show ?thesis using Suc.IH [of p' later "k + 1" n'] Suc.prems(1,3) by auto
    qed auto
  qed auto
qed

text \<open>A round returns, whatever it meets.\<close>

lemma coordinate_tx_inner_returns:
  assumes "start \<le> now"
  shows "\<exists>bound. \<forall>fuel \<ge> bound. \<exists>out m. coordinate_tx_inner V env tx ops start fuel k now p n = Some (out, m)"
  using assms
proof (induction "round_measure start now p" arbitrary: k now p n rule: less_induct)
  case less
  show ?case
  proof (cases "\<exists>out. p = Finished out")
    case False
    then show ?thesis using less.prems
    proof (cases rule: coordinate_tx_inner_cases [of p start now V env tx ops k n])
      case (over out m)
      then have "\<forall>fuel \<ge> 1. coordinate_tx_inner V env tx ops start fuel k now p n = Some (out, m)" by (metis Suc_le_D One_nat_def)
      then show ?thesis by blast
    next
      case (on p' n' later)
      have "\<exists>bound. \<forall>fuel \<ge> bound. \<exists>out m. coordinate_tx_inner V env tx ops start fuel (k + 1) later p' n' = Some (out, m)"
        using on(3) less.hyps [OF _ on(2)] voting_returns [OF _ on(2)] by blast
      then obtain bound where "\<forall>fuel \<ge> bound. \<exists>out m. coordinate_tx_inner V env tx ops start fuel (k + 1) later p' n' = Some (out, m)" ..
      then have "\<forall>fuel \<ge> Suc bound. \<exists>out m. coordinate_tx_inner V env tx ops start fuel k now p n = Some (out, m)"
        using on(1) by (metis Suc_le_D Suc_le_mono)
      then show ?thesis by blast
    qed
  qed auto
qed

lemma coordinate_tx_returns: "\<exists>bound. \<forall>fuel \<ge> bound. \<exists>out m. coordinate_tx V env fuel now tx ops n = Some (out, m)"
  unfolding coordinate_tx_def by (rule coordinate_tx_inner_returns) simp

text \<open>The function follows the relation: when what other tasks do are steps of the node, every result of the function is
  the end of a run.\<close>

lemma tx_run_step: "tx_run V tx ops leader votes p n \<Longrightarrow> tx_step V tx ops (votes, p, n) (votes', p', n') \<Longrightarrow> tx_run V tx ops leader votes' p' n'"
  unfolding tx_run_def using tx_history.then_step by blast

lemma tx_run_others: "node_run V b n m \<Longrightarrow> tx_run V tx ops leader votes p n \<Longrightarrow> tx_run V tx ops leader votes p m"
proof (induction rule: node_run.induct)
  case (step b n m b' k)
  then show ?case using tx_run_step tx_step.other_task by blast
qed

lemma votes_joined:
  "tx_run V tx ops leader votes (Voting s (pre @ rs)) n \<Longrightarrow> \<forall>v \<in> set rs. snd v = None \<Longrightarrow>
   \<exists>votes'. tx_run V tx ops leader votes' (Voting s (pre @ map (join_vote answer) rs)) n"
proof (induction rs arbitrary: pre votes)
  case (Cons v rs)
  obtain a where v: "v = (a, None)" using Cons.prems(2) by (cases v) auto
  have i: "length pre < length (pre @ v # rs)" "(pre @ v # rs) ! length pre = (a, None)" by (simp_all add: v)
  have "\<exists>votes'. tx_run V tx ops leader votes' (Voting s ((pre @ [join_vote answer v]) @ rs)) n"
  proof (cases "answer a")
    case None
    then show ?thesis using tx_run_step [OF Cons.prems(1) tx_step.vote_task_panics [OF i]] by (auto simp: join_vote_def v)
  next
    case (Some r)
    then show ?thesis using tx_run_step [OF Cons.prems(1) tx_step.vote_arrives [OF i, of _ _ _ _ _ _ r]] by (auto simp: join_vote_def v)
  qed
  then show ?case using Cons.IH [of _ "pre @ [join_vote answer v]"] Cons.prems(2) by auto
qed auto

definition asking :: "tx_phase \<Rightarrow> bool" where
  "asking p \<longleftrightarrow> (\<forall>s rs. p = Voting s rs \<longrightarrow> (\<forall>v \<in> set rs. snd v = None))"

lemma asking_section:
  assumes "coordinator_section V now tx ops (joined answer p) n = (p', n')"
  shows "asking p'"
proof (cases p)
  case (Voting s rs)
  have "list_all (\<lambda>(a, r). r \<noteq> None) (map (join_vote answer) rs)"
    by (auto simp: list_all_iff join_vote_def split: option.splits)
  then show ?thesis using assms Voting by (auto simp: asking_def)
next
  case (Tallying s vs acc)
  then show ?thesis using assms by (cases vs) (auto simp: asking_def split: prod.splits sum.splits)
qed (use assms in \<open>auto simp: asking_def split: prod.splits sum.splits poll.splits if_splits\<close>)

lemma coordinate_tx_inner_run:
  assumes "\<And>k m. \<exists>b. node_run V b m (other_tasks env k m)"
    and "coordinate_tx_inner V env tx ops start fuel k now p n = Some (out, m)"
    and "tx_run V tx ops leader votes p n" and "asking p"
  shows "\<exists>votes. tx_run V tx ops leader votes (Finished out) m"
  using assms(2-4)
proof (induction fuel arbitrary: k now p n votes)
  case 0
  then show ?case by (cases p) auto
next
  case (Suc fuel)
  show ?case
  proof (cases "\<exists>out. p = Finished out")
    case False
    obtain p' n' where s: "coordinator_section V now tx ops (joined (vote_answer env) p) (other_tasks env k n) = (p', n')" by fastforce
    have j: "\<exists>votes. tx_run V tx ops leader votes (joined (vote_answer env) p) n"
      using Suc.prems(2,3) votes_joined [of V tx ops leader votes _ "[]"] by (cases p) (auto simp: asking_def)
    obtain b where "node_run V b n (other_tasks env k n)" using assms(1) by blast
    from tx_run_others [OF this] j obtain votes' where "tx_run V tx ops leader votes' (joined (vote_answer env) p) (other_tasks env k n)" by blast
    then have r: "tx_run V tx ops leader votes' p' n'" by (rule tx_run_step [OF _ tx_step.locked_section [OF s]])
    show ?thesis
    proof (cases "(p' = p \<or> is_voting p') \<and> out = Aborted tx RoundTimedOut \<and> m = n'")
      case True
      then have "\<forall>out. p' \<noteq> Finished out" using False by auto
      from tx_run_step [OF r tx_step.bound_expires [OF this]] show ?thesis using True by auto
    next
      case c: False
      then have "\<exists>later. coordinate_tx_inner V env tx ops start fuel (k + 1) later p' n' = Some (out, m)"
        using Suc.prems(1) s unfolding coordinate_tx_inner_Suc [OF False] by (auto simp: Let_def split: if_splits)
      then show ?thesis using Suc.IH r asking_section [OF s] by blast
    qed
  qed (use Suc.prems in auto)
qed

lemma coordinate_tx_run:
  assumes "\<And>k m. \<exists>b. node_run V b m (other_tasks env k m)" and "coordinate_tx V env fuel now tx ops n = Some (out, m)"
  shows "\<exists>votes. tx_run V tx ops n votes (Finished out) m"
  using coordinate_tx_inner_run [OF assms(1), of tx ops now fuel 0 now Starting n out m n "[]"] assms(2) tx_history.begin_round
  unfolding coordinate_tx_def tx_run_def asking_def by blast

section \<open>The single-node path\<close>

lemma single_quorum:
  assumes "cfg = Simple [s]" and "node_id_of s = me"
  shows "config_quorum_reached_index cfg mi me l = l"
proof -
  let ?q = "config_quorum_reached cfg mi me l" and ?r = "config_quorum_reached_index cfg mi me l"
  have q: "?q i \<longleftrightarrow> i \<le> l" for i using assms by (simp add: server_idx_def)
  have "\<forall>i j. ?q j \<longrightarrow> i \<le> j \<longrightarrow> ?q i" using quorum_reached_antimono by blast
  from quorum_search_spec [OF this, of 1 0 l l ?r] have "?r \<le> l \<and> (\<forall>j. ?r < j \<longrightarrow> j \<le> l \<longrightarrow> \<not> ?q j)"
    by (auto simp: config_quorum_reached_index_def)
  then show ?thesis using q by (metis le_eq_less_or_eq order_refl)
qed

lemma single_commit:
  assumes "state n = Leader" and "current_config n = Simple [s]" and "node_id_of s = node_id n"
    and "log n \<noteq> []" and "le_term (last (log n)) = current_term n" and "commit_index n < length (log n)"
  shows "maybe_commit V n = apply_logs V (n\<lparr>commit_index := length (log n)\<rparr>)"
  using assms single_quorum [OF assms(2,3)] by (simp add: maybe_commit_def last_conv_nth)

lemma propose_two:
  assumes "node_inv V n" and "state n = Leader"
  obtains m where "propose_batch V [c, d] n = (True, m)" and "node_inv V m"
    and "log m = log n @ [\<lparr>le_term = current_term n, le_index = length (log n) + 1, le_command = c\<rparr>,
           \<lparr>le_term = current_term n, le_index = length (log n) + 2, le_command = d\<rparr>]"
    and "state m = Leader" and "current_term m = current_term n" and "commit_index m = commit_index n"
    and "last_applied m = last_applied n" and "state_machine_of m = state_machine_of n" and "peers m = peers n"
    and "current_config m = current_config n" and "node_id m = node_id n"
proof -
  let ?c = "\<lparr>le_term = current_term n, le_index = length (log n) + 1, le_command = c\<rparr>"
  let ?d = "\<lparr>le_term = current_term n, le_index = length (log n) + 2, le_command = d\<rparr>"
  from append_entry_good [OF node_invD(1) [OF assms(1)], of ?c] obtain st where
    1: "append_entry V ?c n = (Inr (), n\<lparr>storage := st, log := log n @ [?c]\<rparr>)" "store_ok (codec_of V) st" by blast
  let ?n = "n\<lparr>storage := st, log := log n @ [?c]\<rparr>"
  from 1(2) have "store_ok (codec_of V) (storage ?n)" by simp
  from append_entry_good [OF this, of ?d] obtain st' where
    2: "append_entry V ?d ?n = (Inr (), ?n\<lparr>storage := st', log := log ?n @ [?d]\<rparr>)" by blast
  have "propose_batch V [c, d] n = (True, ?n\<lparr>storage := st', log := log ?n @ [?d]\<rparr>)"
    using 1(1) 2 assms(2) by (simp add: propose_batch_def)
  then show ?thesis
    using assms(2) node_inv_proposals(2) [OF assms(1), of "[c, d]"] by (intro that [of "?n\<lparr>storage := st', log := log ?n @ [?d]\<rparr>"]) simp_all
qed

text \<open>C21: A transaction on a single-node cluster: on a leader without peers that has applied its whole
  log, a round commits in four sections, returns the indices of its two entries, and the map has
  all operations of the transaction applied, in order.\<close>

theorem single_node_commits:
  assumes "node_inv V n" and "state n = Leader" and "current_config n = Simple [s]" and "node_id_of s = node_id n"
    and "commit_index n = length (log n)" and "last_applied n = length (log n)"
  shows "\<exists>m. run_sections 4 V now tx ops (Starting, n) =
      (Finished (Committed (length (log n) + 1) (length (log n) + 2) tx), m) \<and>
    sm_view (sm_env_of V) (state_machine_of m) = fold apply_op ops (sm_view (sm_env_of V) (state_machine_of n)) \<and>
    sm_staged (state_machine_of m) tx = None"
proof -
  have single: "is_single_node n"
    using node_invD(5) [OF assms(1)] assms(3,4) by (simp add: is_single_node_def peer_addrs_of_def)
  from propose_two [OF assms(1,2), of "CmdBeginTx tx ops" "CmdDecideTx tx Commit"] obtain m where
    p: "propose_batch V [CmdBeginTx tx ops, CmdDecideTx tx Commit] n = (True, m)" and
    m: "log m = log n @ [\<lparr>le_term = current_term n, le_index = length (log n) + 1, le_command = CmdBeginTx tx ops\<rparr>,
           \<lparr>le_term = current_term n, le_index = length (log n) + 2, le_command = CmdDecideTx tx Commit\<rparr>]"
      "state m = Leader" "current_term m = current_term n" "commit_index m = length (log n)"
      "last_applied m = length (log n)" "state_machine_of m = state_machine_of n" "peers m = []"
      "current_config m = Simple [s]" "node_id_of s = node_id m"
    using single assms(3-6) by (simp add: is_single_node_def) metis
  define k where "k = m\<lparr>commit_index := length (log m)\<rparr>"
  have sync: "snd (sync_logs V m) = apply_logs V k"
    using single_commit [of m s V] m by (simp add: sync_logs_def k_def)
  have un: "map le_command (unapplied k) = [CmdBeginTx tx ops, CmdDecideTx tx Commit]"
    using m by (simp add: unapplied_def k_def)
  have "state k \<noteq> Leader \<or> commit_index k \<le> length (log k)" by (simp add: k_def)
  note ap = apply_logs_applies [OF this, of V, unfolded un]
  have applied: "last_applied (apply_logs V k) = length (log n) + 2" "commit_index (apply_logs V k) = length (log n) + 2"
      "state (apply_logs V k) = Leader"
    using ap m by (simp_all add: k_def frame_simps)
  have ok: "sm_ok (sm_env_of V) (state_machine_of k)" using node_invD(3) [OF assms(1)] m(6) by (simp add: k_def)
  have kv: "(sm_view (sm_env_of V) (state_machine_of (apply_logs V k)), sm_staged (state_machine_of (apply_logs V k))) =
      fold kv_spec [CmdBeginTx tx ops, CmdDecideTx tx Commit] (sm_view (sm_env_of V) (state_machine_of k), sm_staged (state_machine_of k))"
    unfolding ap [THEN conjunct1] by (rule lsm.run_kv [OF ok])
  have "run_sections 4 V now tx ops (Starting, n) =
      (Finished (Committed (length (log n) + 1) (length (log n) + 2) tx), apply_logs V k)"
    using single p m sync applied assms(2)
    by (simp add: numeral_eq_Suc propose_batch_section_def poll_applied_def)
  moreover have "sm_view (sm_env_of V) (state_machine_of (apply_logs V k)) = fold apply_op ops (sm_view (sm_env_of V) (state_machine_of n))"
    "sm_staged (state_machine_of (apply_logs V k)) tx = None"
    using kv m(6) by (simp_all add: k_def)
  ultimately show ?thesis by blast
qed

section \<open>The sweep\<close>

lemma propose_abort_good:
  assumes "node_inv V n" and "state n = Leader" and "is_tx_pending tx (state_machine_of n)"
  obtains m where "propose_abort_tx V tx n = (Inr (length (log n) + 1), m)" and "node_inv V m"
    and "log m = log n @ [next_entry n (CmdDecideTx tx Abort)]" and "state m = Leader"
    and "current_term m = current_term n" and "state_machine_of m = state_machine_of n"
proof -
  from append_entry_good [OF node_invD(1) [OF assms(1)], of "next_entry n (CmdDecideTx tx Abort)"] obtain st where
    a: "append_entry V (next_entry n (CmdDecideTx tx Abort)) n =
      (Inr (), n\<lparr>storage := st, log := log n @ [next_entry n (CmdDecideTx tx Abort)]\<rparr>)" by blast
  let ?m = "n\<lparr>storage := st, log := log n @ [next_entry n (CmdDecideTx tx Abort)]\<rparr>"
  have "propose_abort_tx V tx n = (Inr (length (log n) + 1), ?m)" using a assms(2,3) by (simp add: propose_abort_tx_def)
  then show ?thesis using assms(2) node_inv_proposals(5) [OF assms(1), of tx] by (intro that [of ?m]) simp_all
qed

definition abort_entry :: "nat \<Rightarrow> nat \<times> string \<Rightarrow> log_entry" where
  "abort_entry t p = \<lparr>le_term = t, le_index = fst p, le_command = CmdDecideTx (snd p) Abort\<rparr>"

lemma abort_all_good:
  assumes "node_inv V n" and "state n = Leader" and "\<forall>tx \<in> set txs. is_tx_pending tx (state_machine_of n)"
  shows "fst (abort_all V txs n) = map (\<lambda>(i, tx). (tx, Inr i)) (enumerate (length (log n) + 1) txs) \<and>
    log (snd (abort_all V txs n)) = log n @ map (abort_entry (current_term n)) (enumerate (length (log n) + 1) txs) \<and>
    node_inv V (snd (abort_all V txs n))"
  using assms
proof (induction txs arbitrary: n)
  case (Cons tx txs)
  from propose_abort_good [OF Cons.prems(1,2), of tx] Cons.prems(3) obtain m where
    m: "propose_abort_tx V tx n = (Inr (length (log n) + 1), m)" "node_inv V m"
      "log m = log n @ [next_entry n (CmdDecideTx tx Abort)]" "state m = Leader"
      "current_term m = current_term n" "state_machine_of m = state_machine_of n" by auto
  have "\<forall>tx \<in> set txs. is_tx_pending tx (state_machine_of m)" using Cons.prems(3) m(6) by simp
  from Cons.IH [OF m(2,4) this] show ?case
    using m by (simp add: split_beta abort_entry_def next_entry_def)
qed simp

text \<open>The sweep for stuck transactions: a leader appends one abort decision per transaction that has
  been pending longer than the timeout, in the order of their ids, with consecutive indices in its
  current term, and reports those indices; any other node does nothing.\<close>

theorem sweep_aborts_stale:
  assumes "node_inv V n"
  shows "(state n \<noteq> Leader \<longrightarrow> tx_timeout_sweep V timeout n = ([], n)) \<and>
    (state n = Leader \<longrightarrow>
      (let stale = node_pending_txs_older_than V timeout n in
       fst (tx_timeout_sweep V timeout n) = map (\<lambda>(i, tx). (tx, Inr i)) (enumerate (length (log n) + 1) stale) \<and>
       log (snd (tx_timeout_sweep V timeout n)) =
         log n @ map (abort_entry (current_term n)) (enumerate (length (log n) + 1) stale) \<and>
       node_inv V (snd (tx_timeout_sweep V timeout n))))"
proof (intro conjI impI)
  assume l: "state n = Leader"
  have "\<forall>tx \<in> set (node_pending_txs_older_than V timeout n). is_tx_pending tx (state_machine_of n)"
    by (auto simp: node_pending_txs_older_than_def pending_txs_older_than_def is_tx_pending_def map_of_eq_None_iff)
  from abort_all_good [OF assms l this] show "let stale = node_pending_txs_older_than V timeout n in
       fst (tx_timeout_sweep V timeout n) = map (\<lambda>(i, tx). (tx, Inr i)) (enumerate (length (log n) + 1) stale) \<and>
       log (snd (tx_timeout_sweep V timeout n)) =
         log n @ map (abort_entry (current_term n)) (enumerate (length (log n) + 1) stale) \<and>
       node_inv V (snd (tx_timeout_sweep V timeout n))"
    using l by (simp add: tx_timeout_sweep_def Let_def)
qed (simp add: tx_timeout_sweep_def)

lemma sweep_inv: "node_inv V n \<Longrightarrow> node_inv V (snd (tx_timeout_sweep V timeout n))"
  using sweep_aborts_stale [of V n timeout] by (cases "state n = Leader") (simp_all add: Let_def)

text \<open>The loop keeps the invariant of the node, whatever other tasks do between its passes.\<close>

lemma timeout_loop_inv:
  assumes "node_inv V n" and "\<And>period m. period \<in> set periods \<Longrightarrow> node_inv V m \<Longrightarrow> node_inv V (period m)"
  shows "node_inv V (run_tx_timeout_loop V timeout periods n)"
  using assms by (induction V timeout periods n rule: run_tx_timeout_loop.induct) (simp_all add: sweep_inv)

section \<open>Runs of a three-node cluster\<close>

text \<open>The leader \<open>a\<close> of term 1 runs the transaction \<open>t\<close>, which sets \<open>k\<close>, among \<open>b\<close> and \<open>c\<close>.\<close>

type_synonym ex_round = "tx_phase \<times> ex_node"

abbreviation ops_t :: "tx_op list" where
  "ops_t \<equiv> [TxPut ''k'' ''v'']"

definition sec :: "nat \<Rightarrow> ex_round \<Rightarrow> ex_round" where
  "sec now r = coordinator_section V0 now ''t'' ops_t (fst r) (snd r)"

text \<open>The reply of a peer that has stored the first \<open>i\<close> entries.\<close>

definition ack :: "string \<Rightarrow> nat \<Rightarrow> ex_round \<Rightarrow> ex_round" where
  "ack peer i r = (fst r, append_reply_handler V0 3 peer
     \<lparr>ae_term = 1, ae_leader_id = ''a'', prev_log_index = 0, prev_log_term = 0, ae_entries = take i (log (snd r)), leader_commit = 0\<rparr>
     \<lparr>ar_term = 1, ar_success = True\<rparr> (snd r))"

definition arrive :: "nat \<Rightarrow> vote_result \<Rightarrow> ex_round \<Rightarrow> ex_round" where
  "arrive i v r = (case fst r of
      Voting s rs \<Rightarrow> (Voting s (rs[i := (fst (rs ! i), Some v)]), snd r)
    | p \<Rightarrow> (p, snd r))"

definition reached :: "(string \<times> vote_result) list \<Rightarrow> ex_round \<Rightarrow> bool" where
  "reached votes r \<longleftrightarrow> tx_run V0 ''t'' ops_t leader_a votes (fst r) (snd r)"

lemma reached_step: "reached votes r \<Longrightarrow> tx_step V0 ''t'' ops_t (votes, r) (votes', r') \<Longrightarrow> reached votes' r'"
  unfolding reached_def by (erule tx_run_step) simp

lemma reached_sec: "reached votes r \<Longrightarrow> reached votes (sec now r)"
  by (erule reached_step) (metis sec_def prod.collapse tx_step.locked_section)

lemma reached_task: "reached votes r \<Longrightarrow> node_step V0 b (snd r) m \<Longrightarrow> reached votes (fst r, m)"
  by (erule reached_step) (metis prod.collapse tx_step.other_task)

lemma reached_ack: "reached votes r \<Longrightarrow> reached votes (ack peer i r)"
  unfolding ack_def by (rule reached_task) (auto intro: node_step.local local_step.append_reply)

lemma reached_arrive:
  assumes "reached votes r" and "fst r = Voting s rs" and "i < length rs" and "rs ! i = (a, None)"
  shows "reached ((a, v) # votes) (arrive i v r)"
proof -
  have "tx_step V0 ''t'' ops_t (votes, r) ((a, v) # votes, arrive i v r)"
    using tx_step.vote_arrives [OF assms(3,4), of V0 "''t''" ops_t votes s "snd r" v] assms(2,4) by (cases r) (simp add: arrive_def)
  then show ?thesis using assms(1) reached_step by blast
qed

text \<open>Up to the fan-out of the votes: both peers have stored the first entry.\<close>

definition voting_t :: ex_round where
  "voting_t = (sec 1 ^^ 5) (ack ''c'' 1 (ack ''b'' 1 ((sec 1 ^^ 3) (Starting, leader_a))))"

lemma reached_funpow: "reached votes r \<Longrightarrow> reached votes ((sec now ^^ k) r)"
  by (induction k) (simp_all add: reached_sec)

lemma reached_voting: "reached [] voting_t"
proof -
  have "reached [] (Starting, leader_a)" unfolding reached_def tx_run_def by (auto intro: tx_history.begin_round)
  then show ?thesis unfolding voting_t_def by (intro reached_funpow reached_ack)
qed

definition yes_vote :: vote_result where
  "yes_vote = VoteReply \<lparr>tvr_term = 1, tvr_granted = True, tvr_reason = []\<rparr>"

definition late_vote :: vote_result where
  "late_vote = VoteReply \<lparr>tvr_term = 2, tvr_granted = False, tvr_reason = []\<rparr>"

text \<open>Both vote yes, the decision is proposed, the bound of the round expires, the peers store the decision.\<close>

definition deciding_t :: ex_round where
  "deciding_t = (sec 1 ^^ 6) (arrive 1 yes_vote (arrive 0 yes_vote voting_t))"

definition expired_t :: ex_round where
  "expired_t = ack ''c'' 2 (ack ''b'' 2 (Finished (Aborted ''t'' RoundTimedOut), snd deciding_t))"

lemma deciding_facts: "fst deciding_t = WaitDecide (take_snapshot 1 (snd voting_t)) Commit None 2 1"
  by code_simp

lemma voting_facts: "fst voting_t = Voting (take_snapshot 1 (snd voting_t)) [(''b'', None), (''c'', None)]"
  by code_simp

lemma reached_votes: "reached [(''c'', w), (''b'', v)] (arrive 1 w (arrive 0 v voting_t))"
proof (rule reached_arrive)
  show "reached [(''b'', v)] (arrive 0 v voting_t)"
    by (rule reached_arrive [OF reached_voting voting_facts]) simp_all
  show "fst (arrive 0 v voting_t) = Voting (take_snapshot 1 (snd voting_t)) [(''b'', Some v), (''c'', None)]"
    by (simp add: arrive_def voting_facts)
qed simp_all

text \<open>C38: A reported abort need not be one: the wall-clock bound of a round may expire after the
  commit decision has been proposed. The client is told that the transaction aborted; the decision
  is replicated and committed afterwards and the write becomes visible.\<close>

theorem reported_abort_commits:
  "\<exists>votes. tx_run V0 ''t'' ops_t leader_a votes (Finished (Aborted ''t'' RoundTimedOut)) (snd expired_t) \<and>
     last_applied (snd expired_t) = 2 \<and> map le_command (log (snd expired_t)) = [CmdBeginTx ''t'' ops_t, CmdDecideTx ''t'' Commit] \<and>
     sm_get (sm_env_of V0) (state_machine_of (snd expired_t)) ''k'' = Some ''v''"
proof -
  let ?votes = "[(''c'', yes_vote), (''b'', yes_vote)]"
  have "reached ?votes deciding_t" unfolding deciding_t_def by (intro reached_funpow reached_votes)
  moreover have "tx_step V0 ''t'' ops_t (?votes, deciding_t) (?votes, Finished (Aborted ''t'' RoundTimedOut), snd deciding_t)"
    using tx_step.bound_expires [of "fst deciding_t" V0 "''t''" ops_t ?votes "snd deciding_t"]
    by (simp only: prod.collapse) (simp add: deciding_facts)
  ultimately have "reached ?votes (Finished (Aborted ''t'' RoundTimedOut), snd deciding_t)" by (rule reached_step)
  then have "reached ?votes expired_t" unfolding expired_t_def by (intro reached_ack)
  moreover have "fst expired_t = Finished (Aborted ''t'' RoundTimedOut)" by (simp add: expired_t_def ack_def)
  moreover have "last_applied (snd expired_t) = 2"
    "map le_command (log (snd expired_t)) = [CmdBeginTx ''t'' ops_t, CmdDecideTx ''t'' Commit]"
    "sm_get (sm_env_of V0) (state_machine_of (snd expired_t)) ''k'' = Some ''v''" by code_simp+
  ultimately show ?thesis by (auto simp: reached_def)
qed

text \<open>While the votes are out, a candidate of term 2 makes \<open>a\<close> step down, and \<open>a\<close> wins term 3.\<close>

definition reelected_t :: ex_round where
  "reelected_t =
     (let r = arrive 1 yes_vote (arrive 0 late_vote voting_t);
          n = snd (handle_request_vote V0 5 \<lparr>rv_term = 2, candidate_id = ''c'', rv_last_log_index = 0, rv_last_log_term = 0\<rparr> (snd r))
      in case become_candidate V0 6 n of (round, _, m) \<Rightarrow>
           (fst r, snd (vote_reply_handler V0 7 \<lparr>vr_term = 3, vote_granted = True\<rparr> (round, m))))"

lemma reached_reelected: "reached [(''c'', yes_vote), (''b'', late_vote)] reelected_t"
proof -
  let ?r = "arrive 1 yes_vote (arrive 0 late_vote voting_t)"
  let ?n = "snd (handle_request_vote V0 5 \<lparr>rv_term = 2, candidate_id = ''c'', rv_last_log_index = 0, rv_last_log_term = 0\<rparr> (snd ?r))"
  obtain round msgs m where c: "become_candidate V0 6 ?n = (round, msgs, m)" by (metis prod_cases3)
  have "reached [(''c'', yes_vote), (''b'', late_vote)] (fst ?r, ?n)"
    by (rule reached_task [OF reached_votes]) (auto intro: node_step.local local_step.request_vote)
  from reached_task [OF this, of True m] have "reached [(''c'', yes_vote), (''b'', late_vote)] (fst ?r, m)"
    using node_step.candidate [of V0 ?n 6] c by simp
  from reached_task [OF this node_step.vote_reply [of V0 round "\<lparr>vr_term = 3, vote_granted = True\<rparr>" _ 7, simplified]]
  show ?thesis unfolding reelected_t_def Let_def c by simp
qed

text \<open>The step-down in the tally compares the reply with the term of the round, not with the node's
  current term, and lowers the term when the node has meanwhile been elected again: here from 3 to
  2, forgetting the vote.\<close>

theorem step_down_lowers_term:
  "\<exists>votes p n. tx_run V0 ''t'' ops_t leader_a votes p n \<and> state n = Leader \<and> current_term n = 3 \<and>
     fst (coordinator_section V0 8 ''t'' ops_t p n) = Finished (OutcomeNotLeader ''t'') \<and>
     current_term (snd (coordinator_section V0 8 ''t'' ops_t p n)) = 2 \<and>
     vote_for (snd (coordinator_section V0 8 ''t'' ops_t p n)) = None"
proof -
  let ?r = "sec 7 reelected_t"
  have "reached [(''c'', yes_vote), (''b'', late_vote)] ?r" by (rule reached_sec [OF reached_reelected])
  moreover have "state (snd ?r) = Leader" "current_term (snd ?r) = 3"
    "fst (coordinator_section V0 8 ''t'' ops_t (fst ?r) (snd ?r)) = Finished (OutcomeNotLeader ''t'')"
    "current_term (snd (coordinator_section V0 8 ''t'' ops_t (fst ?r) (snd ?r))) = 2"
    "vote_for (snd (coordinator_section V0 8 ''t'' ops_t (fst ?r) (snd ?r))) = None" by code_simp+
  ultimately show ?thesis unfolding reached_def by blast
qed

section \<open>Witnesses\<close>

theorem waits_terminate_witness:
  "\<exists>r. poll_loop (poll_applied 1) (\<lambda>i. 7 + 20 * i) (\<lambda>_. leader_a) 7 0 251 = Some r"
  using waits_terminate [of 7 "\<lambda>i. 7 + 20 * i" 1 "\<lambda>_. leader_a"] by simp

theorem unanimous_decision_witness:
  "\<exists>reason m. run_sections 3 V0 1 ''t'' ops_t (Tallying (take_snapshot 1 leader_a) [(''b'', yes_vote), (''c'', VoteRpcFailed)]
      (tally_start (take_snapshot 1 leader_a)), leader_a) = (ProposeDecide (take_snapshot 1 leader_a) Abort reason, m) \<and> reason \<noteq> None"
proof -
  have s: "vs_peers (take_snapshot 1 leader_a) = [''b'', ''c'']" "vs_leader_term (take_snapshot 1 leader_a) = 1" by code_simp+
  have "list_all2 vote_of (vs_peers (take_snapshot 1 leader_a)) [(''b'', yes_vote), (''c'', VoteRpcFailed)]" by (simp add: s del: One_nat_def)
  moreover have "\<forall>v \<in> set [(''b'', yes_vote), (''c'', VoteRpcFailed)]. \<not> higher_term (vs_leader_term (take_snapshot 1 leader_a)) (snd v)"
    by (simp add: s higher_term_def yes_vote_def del: One_nat_def)
  ultimately show ?thesis
    using unanimous_decision [of "take_snapshot 1 leader_a" "[(''b'', yes_vote), (''c'', VoteRpcFailed)]" V0 1 "''t''" ops_t leader_a]
    by (simp add: says_yes_def del: One_nat_def)
qed

text \<open>The leader has written once more after the begin of the transaction, and \<open>b\<close> has stored both entries.\<close>

definition busy_a :: ex_node where
  "busy_a = leader_a\<lparr>log := [entry 1 1 (CmdBeginTx ''t'' ops_t), entry 1 2 (CmdSet ''x'' ''y'')]\<rparr>"

theorem later_write_aborts_tx_witness:
  "\<exists>reason k. run_sections 3 V0 1 ''t'' ops_t (Tallying (take_snapshot 1 busy_a)
      [(''b'', VoteReply (fst (handle_tx_vote_request V0 (vote_request_for ''t'' (take_snapshot 1 busy_a)) (busy_a\<lparr>state := Follower\<rparr>)))),
       (''c'', VoteRpcFailed)] (tally_start (take_snapshot 1 busy_a)), busy_a) =
    (ProposeDecide (take_snapshot 1 busy_a) Abort (Some reason), k)"
proof -
  let ?r = "fst (handle_tx_vote_request V0 (vote_request_for ''t'' (take_snapshot 1 busy_a)) (busy_a\<lparr>state := Follower\<rparr>))"
  have s: "vs_peers (take_snapshot 1 busy_a) = [''b'', ''c'']" "tvr_term ?r = vs_leader_term (take_snapshot 1 busy_a)" by code_simp+
  have b: "log_wf (log busy_a)" "sorted (map le_term (log busy_a))" "length (log busy_a) = 2"
    by (simp_all add: busy_a_def entry_def indexed_from_def less_Suc_eq)
  have v: "list_all2 vote_of (vs_peers (take_snapshot 1 busy_a)) [(''b'', VoteReply ?r), (''c'', VoteRpcFailed)]"
    "\<forall>v \<in> set [(''b'', VoteReply ?r), (''c'', VoteRpcFailed)]. \<not> higher_term (vs_leader_term (take_snapshot 1 busy_a)) (snd v)"
    by (simp_all only: s) (simp_all add: higher_term_def s del: One_nat_def)
  show ?thesis
    using later_write_aborts_tx [OF _ _ b(1,2) _ _ v, of "busy_a\<lparr>state := Follower\<rparr>" "''b''" V0 "''t''" V0 1 ops_t busy_a] b(3)
    by (simp add: numeral_3_eq_3 del: One_nat_def)
qed




definition solo :: ex_node where
  "solo = snd (snd (become_candidate V0 1 (ex_start ''a'' [])))"

theorem single_node_commits_witness:
  "\<exists>m. run_sections 4 V0 2 ''t'' ops_t (Starting, solo) = (Finished (Committed 1 2 ''t''), m) \<and>
     sm_view (sm_env_of V0) (state_machine_of m) ''k'' = Some ''v''"
proof -
  have f: "state solo = Leader" "current_config solo = Simple [server ''a'']" "node_id_of (server ''a'') = node_id solo"
    "commit_index solo = length (log solo)" "last_applied solo = length (log solo)" "length (log solo) = 0" by code_simp+
  have "node_inv V0 solo" unfolding solo_def by (rule node_inv_elections(1)) (simp add: ex_start_inv)
  from single_node_commits [OF this f(1-5), of 2 "''t''" ops_t] show ?thesis by (auto simp: f(6) numeral_eq_Suc)
qed

text \<open>The leader nine milliseconds after a transaction began that was never decided, with a timeout of three.\<close>

definition late_env :: "(doc, wal_unit, raft_doc) node_env" where
  "late_env = \<lparr>sm_env_of = doc_env 9, codec_of = unit_codec\<rparr>"

definition stuck :: ex_node where
  "stuck = leader_a\<lparr>state_machine_of := (fresh_sm 1000)\<lparr>pending_txs := [(''t'', \<lparr>ptx_ops = ops_t, ptx_votes = [], ptx_decision = None, ptx_begin_unix_ms = 0\<rparr>)]\<rparr>\<rparr>"

lemma stuck_inv: "node_inv late_env stuck"
  using ex_inv(3) by (simp add: node_inv_def meta_synced_def late_env_def stuck_def fresh_sm_ok)

theorem sweep_aborts_stale_witness:
  "log (snd (tx_timeout_sweep late_env 3 stuck)) = [entry 1 1 (CmdDecideTx ''t'' Abort)] \<and>
   fst (tx_timeout_sweep late_env 3 stuck) = [(''t'', Inr 1)]"
proof -
  have "state stuck = Leader" "node_pending_txs_older_than late_env 3 stuck = [''t'']" "log stuck = []" "current_term stuck = 1"
    by code_simp+
  then show ?thesis using sweep_aborts_stale [OF stuck_inv, of 3] by (simp add: Let_def abort_entry_def entry_def)
qed

end
