(* ===== verification/Client.thy ===== *)
theory Client
  imports Coordinator_Props
begin

text \<open>
  The client front end of \<open>src/client.rs\<close>: one JSON object per request, dispatched by command on the
  leader, one JSON object per reply. A handler locks the node, proposes, starts replication and then
  looks at the node until what it waits for has happened or its time is up. What other tasks do
  meanwhile is an argument: the moments and the states of the node at the successive looks, and what a
  coordinator round meets (\<open>surroundings\<close>). The text of an error of the operating system and of the reason of an abort is an
  argument as well. The result of a handler is the reply and
  the node as the handler's own sections leave it, or \<open>None\<close> while it is still waiting after \<open>fuel\<close> looks.
\<close>

section \<open>JSON values\<close>

datatype json =
    JNull
  | JBool bool
  | JNum nat
  | JStr string
  | JArr "json list"
  | JObj "(string \<times> json) list"

fun json_get :: "json \<Rightarrow> string \<Rightarrow> json option" where
  "json_get (JObj m) k = map_of m k"
| "json_get _ k = None"

fun as_str :: "json \<Rightarrow> string option" where
  "as_str (JStr s) = Some s"
| "as_str _ = None"

fun as_u64 :: "json \<Rightarrow> nat option" where
  "as_u64 (JNum i) = Some i"
| "as_u64 _ = None"

text \<open>\<open>obj.insert(k, v)\<close> on the map of an object.\<close>

fun json_insert :: "string \<Rightarrow> json \<Rightarrow> json \<Rightarrow> json" where
  "json_insert k v (JObj m) = JObj (hm_insert k v m)"
| "json_insert k v j = j"

section \<open>Surroundings\<close>

record ('b, 'w, 'c) surroundings =
  look_clock :: "nat \<Rightarrow> nat"
  look_node :: "nat \<Rightarrow> ('b, 'w, 'c) raft_node"
  later_clock :: "nat \<Rightarrow> nat"
  later_node :: "nat \<Rightarrow> ('b, 'w, 'c) raft_node"
  tx_round :: "('b, 'w, 'c) round_surroundings"
  io_text :: "io_error \<Rightarrow> string"
  reason_text :: "abort_reason \<Rightarrow> string"

section \<open>Replies\<close>

definition not_leader_json :: json where
  "not_leader_json = JObj [(''error'', JStr ''Not a leader. Please connect to the leader node.'')]"

definition error_json :: "string \<Rightarrow> json" where
  "error_json msg = JObj [(''status'', JStr ''error''), (''message'', JStr msg)]"

definition value_json :: "string option \<Rightarrow> json" where
  "value_json v = (case v of
      Some val \<Rightarrow> JObj [(''status'', JStr ''ok''), (''data'', JStr val)]
    | None \<Rightarrow> JObj [(''status'', JStr ''not_found'')])"

fun membership_error_to_json :: "(io_error \<Rightarrow> string) \<Rightarrow> membership_error \<Rightarrow> json" where
  "membership_error_to_json txt MembershipNotLeader =
     JObj [(''status'', JStr ''error''), (''code'', JStr ''not_leader''),
           (''message'', JStr ''Not a leader. Please connect to the leader node.'')]"
| "membership_error_to_json txt (AlreadyMember i) =
     JObj [(''status'', JStr ''error''), (''code'', JStr ''already_member''), (''node_id'', JStr i)]"
| "membership_error_to_json txt (NotMember i) =
     JObj [(''status'', JStr ''error''), (''code'', JStr ''not_member''), (''node_id'', JStr i)]"
| "membership_error_to_json txt CannotRemoveSelf =
     JObj [(''status'', JStr ''error''), (''code'', JStr ''cannot_remove_self''),
           (''message'', JStr ''Refusing to remove the leader itself; do this on another node'')]"
| "membership_error_to_json txt CannotRemoveLastServer =
     JObj [(''status'', JStr ''error''), (''code'', JStr ''cannot_remove_last_server''),
           (''message'', JStr ''Refusing to remove the last server; the cluster would be unable to make progress'')]"
| "membership_error_to_json txt (MembershipStorageError e) =
     JObj [(''status'', JStr ''error''), (''code'', JStr ''storage_error''), (''message'', JStr (txt e))]"

fun abort_tx_error_to_json :: "(io_error \<Rightarrow> string) \<Rightarrow> abort_tx_error \<Rightarrow> json" where
  "abort_tx_error_to_json txt AbortNotLeader =
     JObj [(''status'', JStr ''error''), (''code'', JStr ''not_leader''),
           (''message'', JStr ''Not a leader. Please connect to the leader node.'')]"
| "abort_tx_error_to_json txt (AbortNotFound tx) =
     JObj [(''status'', JStr ''error''), (''code'', JStr ''tx_not_found''), (''tx_id'', JStr tx),
           (''message'', JStr ''tx_id is not in pending_txs; already committed/aborted or never existed'')]"
| "abort_tx_error_to_json txt (AbortStorageError e) =
     JObj [(''status'', JStr ''error''), (''code'', JStr ''storage_error''), (''message'', JStr (txt e))]"

section \<open>Handlers\<close>

definition apply_mutation :: "('b, 'w, 'c) node_env \<Rightarrow> command \<Rightarrow> ('b, 'w, 'c) raft_node \<Rightarrow> json \<times> ('b, 'w, 'c) raft_node" where
  "apply_mutation V c n =
     (case propose V c n of (success, n) \<Rightarrow>
        if success
        then (JObj [(''status'', JStr ''ok''), (''index'', JNum (length (log n)))], snd (sync_logs V n))
        else (JObj [(''status'', JStr ''error'')], n))"

definition poll_read :: "read_index \<Rightarrow> nat \<Rightarrow> nat \<times> ('b, 'w, 'c) raft_node \<Rightarrow> bool poll" where
  "poll_read ri elapsed look =
     (if confirm_read (fst look) ri (snd look) then Done True
      else if 2000 < elapsed then Done False
      else Again)"

definition linearizable_get :: "('b, 'w, 'c) node_env \<Rightarrow> ('b, 'w, 'c) surroundings \<Rightarrow> nat \<Rightarrow> nat \<Rightarrow> string
    \<Rightarrow> ('b, 'w, 'c) raft_node \<Rightarrow> (json \<times> ('b, 'w, 'c) raft_node) option" where
  "linearizable_get V env fuel now key n =
     (if is_single_node n then
        (if state n \<noteq> Leader then Some (not_leader_json, n)
         else let n = apply_logs V n
              in Some (value_json (sm_get (sm_env_of V) (state_machine_of n) key), n))
      else case begin_read V now n of
        (None, _, n) \<Rightarrow> Some (not_leader_json, n)
      | (Some ri, _, n) \<Rightarrow>
          (case poll_loop (poll_read ri) (look_clock env) (\<lambda>i. (look_clock env i, look_node env i)) now 0 fuel of
             None \<Rightarrow> None
           | Some False \<Rightarrow> Some (error_json ''read confirmation timeout (leader may have lost quorum)'', n)
           | Some True \<Rightarrow>
               Some (value_json (sm_get (sm_env_of V) (state_machine_of (later_node env 0)) key), n)))"

text \<open>The two waits of a membership change: for the commit of the joint entry, then for the entry after it.\<close>

definition poll_committed :: "nat \<Rightarrow> nat \<Rightarrow> ('b, 'w, 'c) raft_node \<Rightarrow> bool poll" where
  "poll_committed index elapsed n =
     (if index \<le> commit_index n then Done True else if 10000 \<le> elapsed then Done False else Again)"

definition poll_appended :: "nat \<Rightarrow> nat \<Rightarrow> ('b, 'w, 'c) raft_node \<Rightarrow> bool poll" where
  "poll_appended index elapsed n =
     (if index < length (log n) then Done True else if 10000 \<le> elapsed then Done False else Again)"

definition await_membership :: "('b, 'w, 'c) surroundings \<Rightarrow> nat \<Rightarrow> nat \<Rightarrow> string \<Rightarrow> string \<times> json \<Rightarrow> nat \<Rightarrow> json option" where
  "await_membership env fuel now what member joint_index =
     (case poll_loop (poll_committed joint_index) (look_clock env) (look_node env) now 0 fuel of
        None \<Rightarrow> None
      | Some False \<Rightarrow>
          Some (error_json (what @ '': Joint entry at index '' @ show_nat joint_index @ '' did not commit within 10s''))
      | Some True \<Rightarrow>
          (case poll_loop (poll_appended joint_index) (later_clock env) (later_node env) (later_clock env 0) 0 fuel of
             None \<Rightarrow> None
           | Some False \<Rightarrow>
               Some (JObj [(''status'', JStr ''ok''), (''joint_index'', JNum joint_index), (''simple_appended'', JBool False)])
           | Some True \<Rightarrow>
               Some (JObj [(''status'', JStr ''ok''), (''joint_index'', JNum joint_index),
                           (''simple_index'', JNum (joint_index + 1)), member])))"

definition add_node :: "('b, 'w, 'c) node_env \<Rightarrow> ('b, 'w, 'c) surroundings \<Rightarrow> nat \<Rightarrow> nat \<Rightarrow> server_id
    \<Rightarrow> ('b, 'w, 'c) raft_node \<Rightarrow> (json \<times> ('b, 'w, 'c) raft_node) option" where
  "add_node V env fuel now srv n =
     (case propose_add_node V srv n of
        (Inl e, n) \<Rightarrow> Some (membership_error_to_json (io_text env) e, n)
      | (Inr joint_index, n) \<Rightarrow>
          map_option (\<lambda>j. (j, snd (sync_logs V n)))
            (await_membership env fuel now ''AddNode'' (''new_member'', JStr (node_id_of srv)) joint_index))"

definition remove_node :: "('b, 'w, 'c) node_env \<Rightarrow> ('b, 'w, 'c) surroundings \<Rightarrow> nat \<Rightarrow> nat \<Rightarrow> string
    \<Rightarrow> ('b, 'w, 'c) raft_node \<Rightarrow> (json \<times> ('b, 'w, 'c) raft_node) option" where
  "remove_node V env fuel now nid n =
     (case propose_remove_node V nid n of
        (Inl e, n) \<Rightarrow> Some (membership_error_to_json (io_text env) e, n)
      | (Inr joint_index, n) \<Rightarrow>
          map_option (\<lambda>j. (j, snd (sync_logs V n)))
            (await_membership env fuel now ''RemoveNode'' (''removed_member'', JStr nid) joint_index))"

text \<open>The reply for the outcome of a coordinator round.\<close>

fun begin_tx_json :: "(abort_reason \<Rightarrow> string) \<Rightarrow> tx_outcome \<Rightarrow> json" where
  "begin_tx_json txt (Committed begin_index decide_index tx) =
     JObj [(''status'', JStr ''ok''), (''tx_id'', JStr tx), (''decision'', JStr ''commit''),
           (''begin_index'', JNum begin_index), (''decide_index'', JNum decide_index)]"
| "begin_tx_json txt (Aborted tx reason) =
     JObj [(''status'', JStr ''aborted''), (''tx_id'', JStr tx), (''reason'', JStr (txt reason))]"
| "begin_tx_json txt (OutcomeNotLeader tx) =
     JObj [(''status'', JStr ''error''), (''message'', JStr ''not leader''), (''tx_id'', JStr tx)]"

definition client_begin_tx :: "('b, 'w, 'c) node_env \<Rightarrow> ('b, 'w, 'c) surroundings \<Rightarrow> nat \<Rightarrow> nat \<Rightarrow> string \<Rightarrow> tx_op list
    \<Rightarrow> ('b, 'w, 'c) raft_node \<Rightarrow> (json \<times> ('b, 'w, 'c) raft_node) option" where
  "client_begin_tx V env fuel now tx ops n =
     map_option (\<lambda>(out, m). (begin_tx_json (reason_text env) out, m)) (coordinate_tx V (tx_round env) fuel now tx ops n)"

definition abort_tx :: "('b, 'w, 'c) node_env \<Rightarrow> ('b, 'w, 'c) surroundings \<Rightarrow> string \<Rightarrow> ('b, 'w, 'c) raft_node
    \<Rightarrow> json \<times> ('b, 'w, 'c) raft_node" where
  "abort_tx V env tx n =
     (case propose_abort_tx V tx n of
        (Inr decide_index, n) \<Rightarrow>
          (JObj [(''status'', JStr ''ok''), (''tx_id'', JStr tx), (''decision'', JStr ''abort''),
                 (''decide_index'', JNum decide_index)], n)
      | (Inl e, n) \<Rightarrow> (json_insert ''tx_id'' (JStr tx) (abort_tx_error_to_json (io_text env) e), n))"

fun dispatch_leader :: "('b, 'w, 'c) node_env \<Rightarrow> ('b, 'w, 'c) surroundings \<Rightarrow> nat \<Rightarrow> nat \<Rightarrow> command
    \<Rightarrow> ('b, 'w, 'c) raft_node \<Rightarrow> (json \<times> ('b, 'w, 'c) raft_node) option" where
  "dispatch_leader V env fuel now (CmdSet k v) n = Some (apply_mutation V (CmdSet k v) n)"
| "dispatch_leader V env fuel now (CmdDelete k) n = Some (apply_mutation V (CmdDelete k) n)"
| "dispatch_leader V env fuel now (CmdGet k) n = linearizable_get V env fuel now k n"
| "dispatch_leader V env fuel now (CmdBeginTx tx ops) n = client_begin_tx V env fuel now tx ops n"
| "dispatch_leader V env fuel now (CmdDecideTx tx d) n = Some (apply_mutation V (CmdDecideTx tx d) n)"
| "dispatch_leader V env fuel now CmdCompact n = Some (error_json ''compact not supported yet'', n)"
| "dispatch_leader V env fuel now (CmdAddNode srv) n = add_node V env fuel now srv n"
| "dispatch_leader V env fuel now (CmdRemoveNode i) n = remove_node V env fuel now i n"
| "dispatch_leader V env fuel now (CmdInstallConfiguration c) n =
     Some (error_json ''InstallConfiguration is a leader-internal log entry; not a valid client command'', n)"
| "dispatch_leader V env fuel now (CmdAbortTx tx) n = Some (abort_tx V env tx n)"

definition dispatch_command :: "('b, 'w, 'c) node_env \<Rightarrow> ('b, 'w, 'c) surroundings \<Rightarrow> nat \<Rightarrow> nat \<Rightarrow> command
    \<Rightarrow> ('b, 'w, 'c) raft_node \<Rightarrow> (json \<times> ('b, 'w, 'c) raft_node) option" where
  "dispatch_command V env fuel now c n =
     (if state n \<noteq> Leader then Some (not_leader_json, n) else dispatch_leader V env fuel now c n)"

text \<open>One line of a connection: the parser of the request is an argument.\<close>

definition handle_line :: "('l \<Rightarrow> string + command) \<Rightarrow> ('b, 'w, 'c) node_env \<Rightarrow> ('b, 'w, 'c) surroundings \<Rightarrow> nat \<Rightarrow> nat \<Rightarrow> 'l
    \<Rightarrow> ('b, 'w, 'c) raft_node \<Rightarrow> (json \<times> ('b, 'w, 'c) raft_node) option" where
  "handle_line parse V env fuel now line n =
     (case parse line of
        Inl e \<Rightarrow> Some (error_json (''Invalid JSON: '' @ e), n)
      | Inr c \<Rightarrow> dispatch_command V env fuel now c n)"

end
