(* ===== verification/Client_Props.thy ===== *)
theory Client_Props
  imports Client
begin

text \<open>
  Properties of the client front end: what each request does to the log, that requests to other nodes
  and internal commands change nothing, what a confirmed read rests on, and that all waits end.
\<close>

section \<open>Waiting\<close>

interpretation read_wait: bounded_poll "poll_read ri" 2000 for ri
  by unfold_locales (simp add: poll_read_def)

interpretation commit_wait: bounded_poll "poll_committed index" 9999 for index
  by unfold_locales (simp add: poll_committed_def)

interpretation append_wait: bounded_poll "poll_appended index" 9999 for index
  by unfold_locales (simp add: poll_appended_def)

lemma poll_loop_fuel: "poll_loop p c ob st i k = Some r \<Longrightarrow> k \<le> l \<Longrightarrow> poll_loop p c ob st i l = Some r"
proof (induction k arbitrary: i l)
  case 0
  then show ?case by (cases l) (auto split: poll.splits)
next
  case (Suc k)
  then obtain l' where "l = Suc l'" "k \<le> l'" by (cases l) auto
  then show ?case using Suc by (auto split: poll.splits)
qed

text \<open>The looks of a loop are at least \<open>d\<close> milliseconds apart.\<close>

abbreviation paced :: "nat \<Rightarrow> nat \<Rightarrow> (nat \<Rightarrow> nat) \<Rightarrow> bool" where
  "paced d start clock \<equiv> \<forall>i. start + d * i \<le> clock i"

lemma await_membership_returns:
  assumes "paced 20 now (look_clock env)" and "paced 20 (later_clock env 0) (later_clock env)" and "500 \<le> fuel"
  shows "\<exists>j. await_membership env fuel now what member index = Some j"
proof -
  have b: "9999 div 20 + 1 = (500 :: nat)" by simp
  obtain r where "poll_loop (poll_committed index) (look_clock env) (look_node env) now 0 500 = Some r"
    using commit_wait.paced_loop_returns [of 20 now "look_clock env" index "look_node env", unfolded b] assms(1) by auto
  moreover obtain r' where "poll_loop (poll_appended index) (later_clock env) (later_node env) (later_clock env 0) 0 500 = Some r'"
    using append_wait.paced_loop_returns [of 20 "later_clock env 0" "later_clock env" index "later_node env", unfolded b] assms(2) by auto
  ultimately show ?thesis using poll_loop_fuel [OF _ assms(3)] by (cases r; cases r') (fastforce simp: await_membership_def)+
qed

lemma linearizable_get_returns:
  assumes "paced 10 now (look_clock env)" and "201 \<le> fuel"
  shows "\<exists>r. linearizable_get V env fuel now key n = Some r"
proof -
  have loop: "\<exists>r. poll_loop (poll_read ri) (look_clock env) (\<lambda>i. (look_clock env i, look_node env i)) now 0 fuel = Some r" for ri
  proof -
    have b: "2000 div 10 + 1 = (201 :: nat)" by simp
    obtain r where "poll_loop (poll_read ri) (look_clock env) (\<lambda>i. (look_clock env i, look_node env i)) now 0 201 = Some r"
      using read_wait.paced_loop_returns [of 10 now "look_clock env" ri "\<lambda>i. (look_clock env i, look_node env i)", unfolded b] assms(1) by auto
    from poll_loop_fuel [OF this assms(2)] show ?thesis ..
  qed
  obtain start msgs m where b: "begin_read V now n = (start, msgs, m)" by (cases "begin_read V now n") auto
  show ?thesis
  proof (cases start)
    case None
    then show ?thesis by (simp add: linearizable_get_def b Let_def)
  next
    case (Some ri)
    from loop [of ri] obtain r where "poll_loop (poll_read ri) (look_clock env) (\<lambda>i. (look_clock env i, look_node env i)) now 0 fuel = Some r" ..
    then show ?thesis by (cases r) (simp_all add: linearizable_get_def b Let_def Some)
  qed
qed

text \<open>The requests that are answered without waiting.\<close>

fun at_once :: "command \<Rightarrow> bool" where
  "at_once (CmdGet key) = False"
| "at_once (CmdAddNode srv) = False"
| "at_once (CmdRemoveNode nid) = False"
| "at_once (CmdBeginTx tx ops) = False"
| "at_once _ = True"

text \<open>C19: Every request is answered, whatever other tasks do to the node. A read, which pauses for 10 milliseconds
  between its looks, has its reply after at most 202 looks; each of the two waits of a membership change, which pause for
  20 milliseconds, ends after at most 501 looks; the coordinator round of a transaction ends after finitely many
  locked sections, however other tasks change the node, however much time passes and however the vote calls end; all
  other requests are answered without a wait.\<close>

theorem requests_answered:
  "(paced 10 now (look_clock env) \<and> 201 \<le> fuel \<longrightarrow> (\<exists>reply m. dispatch_command V env fuel now (CmdGet key) n = Some (reply, m))) \<and>
   (paced 20 now (look_clock env) \<and> paced 20 (later_clock env 0) (later_clock env) \<and> 500 \<le> fuel \<longrightarrow>
     (\<exists>reply m. dispatch_command V env fuel now (CmdAddNode srv) n = Some (reply, m)) \<and>
     (\<exists>reply m. dispatch_command V env fuel now (CmdRemoveNode nid) n = Some (reply, m))) \<and>
   (\<exists>bound. \<forall>sections \<ge> bound. \<exists>reply m. dispatch_command V env sections now (CmdBeginTx tx ops) n = Some (reply, m)) \<and>
   (at_once c \<longrightarrow> (\<exists>reply m. dispatch_command V env 0 now c n = Some (reply, m)))"
proof (intro conjI impI)
  assume "paced 10 now (look_clock env) \<and> 201 \<le> fuel"
  then show "\<exists>reply m. dispatch_command V env fuel now (CmdGet key) n = Some (reply, m)"
    using linearizable_get_returns [of now env fuel V key n] by (auto simp: dispatch_command_def)
next
  assume "paced 20 now (look_clock env) \<and> paced 20 (later_clock env 0) (later_clock env) \<and> 500 \<le> fuel"
  then have w: "\<exists>j. await_membership env fuel now what member index = Some j" for what member index
    using await_membership_returns by blast
  show "\<exists>reply m. dispatch_command V env fuel now (CmdAddNode srv) n = Some (reply, m)"
    using w by (auto simp: dispatch_command_def add_node_def split: prod.splits sum.splits)
  show "\<exists>reply m. dispatch_command V env fuel now (CmdRemoveNode nid) n = Some (reply, m)"
    using w by (auto simp: dispatch_command_def remove_node_def split: prod.splits sum.splits)
next
  from coordinate_tx_returns [of V "tx_round env" now tx ops n] obtain bound where
    "\<forall>fuel \<ge> bound. \<exists>out m. coordinate_tx V (tx_round env) fuel now tx ops n = Some (out, m)" ..
  then show "\<exists>bound. \<forall>sections \<ge> bound. \<exists>reply m. dispatch_command V env sections now (CmdBeginTx tx ops) n = Some (reply, m)"
    by (intro exI [of _ bound]) (fastforce simp: dispatch_command_def client_begin_tx_def)
next
  assume "at_once c"
  then show "\<exists>reply m. dispatch_command V env 0 now c n = Some (reply, m)"
    by (cases c) (auto simp: dispatch_command_def)
qed

section \<open>Requests that change nothing\<close>

text \<open>What is refused leaves no trace: a line that does not parse, any command to a node that is
  not leader, the commands that clients may not send, an abort of an unknown transaction and a
  membership change that the configuration forbids are answered at once with an error, and the
  node is as before.\<close>

theorem refusals_change_nothing:
  shows "(parse line = Inl e \<longrightarrow>
      handle_line parse V env fuel now line n = Some (error_json (''Invalid JSON: '' @ e), n)) \<and>
    (parse line = Inr c \<and> state n \<noteq> Leader \<longrightarrow>
      handle_line parse V env fuel now line n = Some (not_leader_json, n)) \<and>
    (state n = Leader \<longrightarrow>
      (\<exists>m. dispatch_command V env fuel now CmdCompact n = Some (error_json m, n)) \<and>
      (\<exists>m. dispatch_command V env fuel now (CmdInstallConfiguration cfg) n = Some (error_json m, n)) \<and>
      (\<not> is_tx_pending tx (state_machine_of n) \<longrightarrow>
        dispatch_command V env fuel now (CmdAbortTx tx) n =
          Some (json_insert ''tx_id'' (JStr tx) (abort_tx_error_to_json (io_text env) (AbortNotFound tx)), n)) \<and>
      (config_contains (current_config n) (node_id_of srv) \<longrightarrow>
        dispatch_command V env fuel now (CmdAddNode srv) n =
          Some (membership_error_to_json (io_text env) (AlreadyMember (node_id_of srv)), n)) \<and>
      (nid \<noteq> node_id n \<and> \<not> config_contains (current_config n) nid \<longrightarrow>
        dispatch_command V env fuel now (CmdRemoveNode nid) n =
          Some (membership_error_to_json (io_text env) (NotMember nid), n)) \<and>
      dispatch_command V env fuel now (CmdRemoveNode (node_id n)) n =
        Some (membership_error_to_json (io_text env) CannotRemoveSelf, n))"
  by (intro conjI impI exI) (simp_all add: handle_line_def dispatch_command_def abort_tx_def propose_abort_tx_def add_node_def
      propose_add_node_def remove_node_def propose_remove_node_def)

section \<open>Writes\<close>

lemma propose_good:
  assumes "node_inv V n" and "state n = Leader"
  obtains st where "propose V c n = (True, n\<lparr>storage := st, log := log n @ [next_entry n c]\<rparr>)"
    and "node_inv V (n\<lparr>storage := st, log := log n @ [next_entry n c]\<rparr>)"
    and "restore_wal_log (codec_of V) st = restore_wal_log (codec_of V) (storage n) @ [next_entry n c]"
proof -
  from append_entry_good [OF node_invD(1) [OF assms(1)], of "next_entry n c"] obtain st where
    a: "append_entry V (next_entry n c) n = (Inr (), n\<lparr>storage := st, log := log n @ [next_entry n c]\<rparr>)"
      "restore_wal_log (codec_of V) st = restore_wal_log (codec_of V) (storage n) @ [next_entry n c]" by blast
  then have "propose V c n = (True, n\<lparr>storage := st, log := log n @ [next_entry n c]\<rparr>)"
    using assms(2) by (simp add: propose_def)
  then show ?thesis using that [of st] a(2) node_inv_proposals(1) [OF assms(1), of c] by simp
qed

lemma sync_logs_extends: "\<exists>ext. log (snd (sync_logs V n)) = log n @ ext"
proof -
  have "\<exists>ext. log (maybe_commit V n) = log n @ ext"
    by (cases V n rule: maybe_commit_cases) (use apply_logs_log(1) [of V "n\<lparr>commit_index := _\<rparr>"] in auto)
  then show ?thesis by (auto simp: sync_logs_def)
qed

text \<open>The commands that go to the log as they are.\<close>

fun mutation :: "command \<Rightarrow> bool" where
  "mutation (CmdSet k v) = True"
| "mutation (CmdDelete k) = True"
| "mutation (CmdDecideTx tx d) = True"
| "mutation _ = False"

definition ok_index :: "nat \<Rightarrow> json" where
  "ok_index i = JObj [(''status'', JStr ''ok''), (''index'', JNum i)]"

lemma apply_mutation_ok:
  assumes "node_inv V n" and "state n = Leader" and "mutation c"
  shows "map_option fst (dispatch_command V env fuel now c n) = Some (ok_index (length (log n) + 1))"
proof -
  from propose_good [OF assms(1,2)] obtain st where
    "propose V c n = (True, n\<lparr>storage := st, log := log n @ [next_entry n c]\<rparr>)" by metis
  then show ?thesis using assms(2,3) by (cases c) (simp_all add: dispatch_command_def apply_mutation_def ok_index_def)
qed

text \<open>A write to the leader is acknowledged with the index of its entry: the entry carries the
  leader's term and the command, follows the log in memory and in the log file at that index, and
  the node keeps its invariant. With peers, nothing else changes before their replies.\<close>

theorem write_acknowledged:
  assumes "node_inv V n" and "state n = Leader" and "mutation c"
  shows "\<exists>m. dispatch_command V env fuel now c n =
      Some (JObj [(''status'', JStr ''ok''), (''index'', JNum (length (log n) + 1))], m) \<and>
    node_inv V m \<and> (\<exists>ext. log m = log n @ [next_entry n c] @ ext) \<and>
    (peers n \<noteq> [] \<longrightarrow> log m = log n @ [next_entry n c] \<and> state_machine_of m = state_machine_of n \<and>
      restore_wal_log (codec_of V) (storage m) = restore_wal_log (codec_of V) (storage n) @ [next_entry n c])"
proof -
  from propose_good [OF assms(1,2), of c] obtain st where
    p: "propose V c n = (True, n\<lparr>storage := st, log := log n @ [next_entry n c]\<rparr>)"
      "node_inv V (n\<lparr>storage := st, log := log n @ [next_entry n c]\<rparr>)"
      "restore_wal_log (codec_of V) st = restore_wal_log (codec_of V) (storage n) @ [next_entry n c]" by blast
  let ?n = "n\<lparr>storage := st, log := log n @ [next_entry n c]\<rparr>"
  have d: "dispatch_command V env fuel now c n =
      Some (JObj [(''status'', JStr ''ok''), (''index'', JNum (length (log n) + 1))], snd (sync_logs V ?n))"
    using assms(2,3) p(1) by (cases c) (simp_all add: dispatch_command_def apply_mutation_def)
  have "node_inv V (snd (sync_logs V ?n))" using p(2) by (rule node_inv_sync)
  moreover have "\<exists>ext. log (snd (sync_logs V ?n)) = log n @ [next_entry n c] @ ext"
    using sync_logs_extends [of V ?n] by simp
  moreover have "snd (sync_logs V ?n) = ?n" if "peers n \<noteq> []" using that by (simp add: sync_logs_def)
  ultimately show ?thesis using d p(3) by simp
qed

section \<open>Reads\<close>

text \<open>C18: What a confirmed read rests on: when a leader with peers answers a read with a value (or with
  not found), there was a look at the node at which it was still leader, had applied everything
  that was committed when the read began, and had recorded a heartbeat acknowledgement no older than
  the read and younger than the largest election timeout; the reply is the value its state machine
  holds after that look. When no look confirms the read in time, the reply is an error.\<close>

theorem read_rests_on_confirmation:
  assumes "state n = Leader" and "peers n \<noteq> []"
    and "dispatch_command V env fuel now (CmdGet key) n = Some (reply, m)"
  shows "m = n \<and>
    ((\<exists>i \<le> fuel. \<exists>t. state (look_node env i) = Leader \<and> commit_index n \<le> last_applied (look_node env i) \<and>
        last_quorum_heartbeat_at (look_node env i) = Some t \<and> now \<le> t \<and> look_clock env i - t < max_election_timeout_ms) \<and>
      reply = value_json (sm_get (sm_env_of V) (state_machine_of (later_node env 0)) key) \<or>
     (\<exists>i \<le> fuel. 2000 < look_clock env i - now \<and> (\<forall>v. reply \<noteq> value_json v)))"
proof -
  let ?ri = "\<lparr>ri_index = commit_index n, ri_issued_at = now\<rparr>"
  let ?obs = "\<lambda>i. (look_clock env i, look_node env i)"
  have b: "begin_read V now n = (Some ?ri, fst (sync_logs V n), n)"
    using assms(1,2) by (simp add: begin_read_def sync_logs_def)
  then obtain r where r: "poll_loop (poll_read ?ri) (look_clock env) ?obs now 0 fuel = Some r" and "m = n"
    and reply: "reply = (if r then value_json (sm_get (sm_env_of V) (state_machine_of (later_node env 0)) key)
                         else error_json ''read confirmation timeout (leader may have lost quorum)'')"
    using assms by (auto simp: dispatch_command_def linearizable_get_def is_single_node_def split: option.splits bool.splits)
  from read_wait.loop_result [OF r] obtain i where "i \<le> fuel" "poll_read ?ri (look_clock env i - now) (?obs i) = Done r" by auto
  then show ?thesis using reply \<open>m = n\<close>
    by (auto simp: poll_read_def confirm_read_def value_json_def error_json_def split: if_splits option.splits)
qed

section \<open>A single-node cluster\<close>

text \<open>A leader without peers that has applied its whole log.\<close>

definition solo_ready :: "('b, 'w, 'c) node_env \<Rightarrow> ('b, 'w, 'c) raft_node \<Rightarrow> bool" where
  "solo_ready V n \<longleftrightarrow> node_inv V n \<and> state n = Leader \<and>
     (\<exists>s. current_config n = Simple [s] \<and> node_id_of s = node_id n) \<and>
     commit_index n \<le> length (log n) \<and> last_applied n = length (log n)"

abbreviation kv_of :: "('b, 'w, 'c) node_env \<Rightarrow> ('b, 'w, 'c) raft_node \<Rightarrow> (string \<rightharpoonup> string) \<times> (string \<rightharpoonup> tx_op list)" where
  "kv_of V n \<equiv> (sm_view (sm_env_of V) (state_machine_of n), sm_staged (state_machine_of n))"

lemma apply_mutating:
  assumes "mutation c"
  shows "apply_command V c n = n\<lparr>state_machine_of := sm_apply (sm_env_of V) c (state_machine_of n)\<rparr>"
  using assms by (cases c) simp_all

text \<open>A write is applied before it is acknowledged.\<close>

lemma solo_write:
  assumes "solo_ready V n" and "mutation c"
  obtains m where "dispatch_command V env fuel now c n = Some (ok_index (length (log n) + 1), m)"
    and "solo_ready V m" and "length (log m) = length (log n) + 1" and "kv_of V m = kv_spec c (kv_of V n)"
    and "log m = log n @ [next_entry n c]" and "storage m = storage (snd (propose V c n))"
    and "state_machine_of m = sm_apply (sm_env_of V) c (state_machine_of n)" and "node_id m = node_id n"
    and "commit_index m = length (log m)"
proof -
  from assms(1) obtain s where r: "node_inv V n" "state n = Leader" "current_config n = Simple [s]" "node_id_of s = node_id n"
      "commit_index n \<le> length (log n)" "last_applied n = length (log n)" by (auto simp: solo_ready_def)
  have pe: "peers n = []" using node_invD(5) [OF r(1)] r(3,4) by (simp add: peer_addrs_of_def)
  from propose_good [OF r(1,2), of c] obtain st where
    p: "propose V c n = (True, n\<lparr>storage := st, log := log n @ [next_entry n c]\<rparr>)"
      "node_inv V (n\<lparr>storage := st, log := log n @ [next_entry n c]\<rparr>)" by blast
  define m where "m = n\<lparr>storage := st, log := log n @ [next_entry n c]\<rparr>"
  define k where "k = m\<lparr>commit_index := length (log m)\<rparr>"
  have "snd (sync_logs V m) = apply_logs V k"
    using single_commit [of m s V] r pe by (simp add: sync_logs_def k_def m_def next_entry_def)
  also have "\<dots> = apply_step V k"
    by (subst apply_logs_unfold) (simp add: apply_logs_done frame_simps k_def m_def r)
  finally have sync: "snd (sync_logs V m) = apply_step V k" .
  have step: "apply_step V k = k\<lparr>state_machine_of := sm_apply (sm_env_of V) c (state_machine_of n), last_applied := length (log n) + 1\<rparr>"
    using r(6) assms(2) by (simp add: apply_step_def apply_mutating k_def m_def next_entry_def nth_append)
  show ?thesis
  proof (rule that [of "apply_step V k"])
    show "dispatch_command V env fuel now c n = Some (ok_index (length (log n) + 1), apply_step V k)"
      using r(2) assms(2) p(1) sync by (cases c) (simp_all add: dispatch_command_def apply_mutation_def m_def ok_index_def)
    have "node_inv V (apply_step V k)" using node_inv_sync [OF p(2)] sync by (simp add: m_def)
    then show "solo_ready V (apply_step V k)"
      unfolding solo_ready_def using r by (simp add: step) (simp add: k_def m_def)
    show "length (log (apply_step V k)) = length (log n) + 1" by (simp add: step) (simp add: k_def m_def)
    show "kv_of V (apply_step V k) = kv_spec c (kv_of V n)"
      using lsm.run_kv [OF node_invD(3) [OF r(1)], of "[c]"] by (simp add: step)
  qed (simp_all add: step, simp_all add: k_def m_def p(1))
qed

lemma solo_read:
  assumes "solo_ready V n"
  shows "dispatch_command V env fuel now (CmdGet key) n =
    Some (value_json (if shadowed (sm_env_of V) (state_machine_of n) key then None else fst (kv_of V n) key), n)"
proof -
  from assms(1) have r: "node_inv V n" "state n = Leader" "commit_index n \<le> last_applied n" "peers n = []"
    using node_invD(5) [of V n] by (auto simp: solo_ready_def peer_addrs_of_def)
  have "sm_get (sm_env_of V) (state_machine_of n) key =
      (if shadowed (sm_env_of V) (state_machine_of n) key then None else sm_view (sm_env_of V) (state_machine_of n) key)"
    using node_invD(3) [OF r(1)] by (intro sm_get_exact) (simp add: sm_ok_def)
  then show ?thesis using r by (simp add: dispatch_command_def linearizable_get_def is_single_node_def apply_logs_done)
qed

text \<open>Requests one after the other, each with its own surroundings.\<close>

fun dispatch_all :: "('b, 'w, 'c) node_env \<Rightarrow> nat \<Rightarrow> (('b, 'w, 'c) surroundings \<times> nat \<times> command) list \<Rightarrow> ('b, 'w, 'c) raft_node
    \<Rightarrow> (json list \<times> ('b, 'w, 'c) raft_node) option" where
  "dispatch_all V fuel [] n = Some ([], n)"
| "dispatch_all V fuel ((env, now, c) # rs) n =
     (case dispatch_command V env fuel now c n of None \<Rightarrow> None | Some (j, m) \<Rightarrow>
        map_option (\<lambda>(js, k). (j # js, k)) (dispatch_all V fuel rs m))"

lemma solo_writes:
  assumes "solo_ready V n" and "\<forall>(env, now, c) \<in> set rs. mutation c"
  shows "\<exists>m. dispatch_all V fuel rs n =
      Some (map ok_index [length (log n) + 1 ..< length (log n) + length rs + 1], m) \<and>
    solo_ready V m \<and> kv_of V m = fold (\<lambda>(env, now, c). kv_spec c) rs (kv_of V n)"
  using assms
proof (induction rs arbitrary: n)
  case (Cons a rs)
  obtain env now c where a: "a = (env, now, c)" by (cases a)
  with Cons.prems have c: "mutation c" "\<forall>(env, now, c) \<in> set rs. mutation c" by auto
  from solo_write [OF Cons.prems(1) c(1), of env fuel now] obtain k where
    k: "dispatch_command V env fuel now c n = Some (ok_index (length (log n) + 1), k)" "solo_ready V k"
      "length (log k) = length (log n) + 1" "kv_of V k = kv_spec c (kv_of V n)" by blast
  from Cons.IH [OF k(2) c(2)] obtain m where
    m: "dispatch_all V fuel rs k = Some (map ok_index [length (log k) + 1 ..< length (log k) + length rs + 1], m)" "solo_ready V m"
      "kv_of V m = fold (\<lambda>(env, now, c). kv_spec c) rs (kv_of V k)" by blast
  have "[length (log n) + 1 ..< length (log n) + length (a # rs) + 1] = (length (log n) + 1) # [length (log k) + 1 ..< length (log k) + length rs + 1]"
    unfolding k(3) by (subst upt_conv_Cons) simp_all
  then show ?case using m k(1,4) by (intro exI [of _ m]) (simp add: a)
qed auto

text \<open>C15: A single-node cluster serves writes like a map, and reads like a map with one exception: any sequence of sets,
  deletes and decisions is acknowledged with consecutive indices and leaves the map the specification gives for the
  sequence. A read that follows leaves the node alone and returns the value of that map, except for a key that is
  shadowed: not in the memtable, with a value in a table, and within the key range of a newer table that does not hold
  it. Such a read says that the key does not exist (\<open>get_misses_older_table\<close> shows that this happens).\<close>

theorem solo_serves_map:
  assumes "solo_ready V n" and "\<forall>(env, now, c) \<in> set rs. mutation c"
  shows "\<exists>m. dispatch_all V fuel rs n =
      Some (map ok_index [length (log n) + 1 ..< length (log n) + length rs + 1], m) \<and>
    solo_ready V m \<and> kv_of V m = fold (\<lambda>(env, now, c). kv_spec c) rs (kv_of V n) \<and>
    (\<forall>env now key. dispatch_command V env fuel now (CmdGet key) m =
      Some (value_json (if shadowed (sm_env_of V) (state_machine_of m) key then None
        else fst (fold (\<lambda>(env, now, c). kv_spec c) rs (kv_of V n)) key), m))"
proof -
  from solo_writes [OF assms, of fuel] obtain m where
    m: "dispatch_all V fuel rs n = Some (map ok_index [length (log n) + 1 ..< length (log n) + length rs + 1], m)" "solo_ready V m"
      "kv_of V m = fold (\<lambda>(env, now, c). kv_spec c) rs (kv_of V n)" by blast
  then show ?thesis using solo_read [OF m(2)] by (intro exI [of _ m]) simp
qed

section \<open>Examples\<close>

definition calm :: "ex_node \<Rightarrow> (doc, wal_unit, raft_doc) surroundings" where
  "calm n = \<lparr>look_clock = (\<lambda>i. 7 + 20 * i), look_node = (\<lambda>_. n), later_clock = (\<lambda>i. 9 + 20 * i), later_node = (\<lambda>_. n),
     tx_round = \<lparr>other_tasks = (\<lambda>_ m. m), section_delay = (\<lambda>_. 1), vote_answer = (\<lambda>_. None)\<rparr>, io_text = (\<lambda>_. ''disk full''), reason_text = (\<lambda>_. ''timeout'')\<rparr>"

theorem requests_answered_witness:
  "(\<exists>reply m. dispatch_command V0 (calm leader_a) 500 7 (CmdGet ''k'') leader_a = Some (reply, m)) \<and>
   (\<exists>reply m. dispatch_command V0 (calm leader_a) 500 7 (CmdRemoveNode ''b'') leader_a = Some (reply, m)) \<and>
   (\<exists>reply m. dispatch_command V0 (calm leader_a) 0 7 (CmdAbortTx ''t'') leader_a = Some (reply, m))"
  using requests_answered [of 7 "calm leader_a" 500 V0 "''k''" leader_a "server ''d''" "''b''" "''t''" "[]" "CmdAbortTx ''t''"]
  by (simp add: calm_def)

definition parse_nothing :: "string \<Rightarrow> string + command" where
  "parse_nothing line = (if line = ''compact'' then Inr CmdCompact else Inl ''expected value'')"

theorem refusals_change_nothing_witness:
  "handle_line parse_nothing V0 (calm leader_a) 0 0 ''{'' leader_a = Some (error_json ''Invalid JSON: expected value'', leader_a) \<and>
   handle_line parse_nothing V0 (calm leader_a) 0 0 ''compact'' (ex_start ''b'' [''a'']) = Some (not_leader_json, ex_start ''b'' [''a'']) \<and>
   dispatch_command V0 (calm leader_a) 0 0 (CmdRemoveNode ''a'') leader_a =
     Some (membership_error_to_json (io_text (calm leader_a)) CannotRemoveSelf, leader_a)"
proof -
  have f: "state leader_a = Leader" "node_id leader_a = ''a''" "state (ex_start ''b'' [''a'']) \<noteq> Leader" by code_simp+
  show ?thesis
    using refusals_change_nothing [of parse_nothing "''{''" "''expected value''" V0 "calm leader_a" 0 0 leader_a]
      refusals_change_nothing [of parse_nothing "''compact''" "[]" V0 "calm leader_a" 0 0 "ex_start ''b'' [''a'']" CmdCompact] f
    by (simp add: parse_nothing_def)
qed

theorem write_acknowledged_witness:
  "\<exists>m. dispatch_command V0 (calm leader_a) 0 0 (CmdSet ''k'' ''v'') leader_a =
      Some (JObj [(''status'', JStr ''ok''), (''index'', JNum 1)], m) \<and>
     log m = [next_entry leader_a (CmdSet ''k'' ''v'')]"
proof -
  have f: "state leader_a = Leader" "log leader_a = []" "peers leader_a \<noteq> []" by code_simp+
  from write_acknowledged [OF ex_inv(3) f(1), of "CmdSet ''k'' ''v''" "calm leader_a" 0 0] f show ?thesis by auto
qed

text \<open>A leader that has just heard from a follower.\<close>

definition heard_a :: ex_node where
  "heard_a = leader_a\<lparr>last_quorum_heartbeat_at := Some 7\<rparr>"

theorem read_rests_on_confirmation_witness:
  "\<exists>i \<le> 0. \<exists>t. state (look_node (calm heard_a) i) = Leader \<and> last_quorum_heartbeat_at (look_node (calm heard_a) i) = Some t \<and> 5 \<le> t"
proof -
  have f: "state leader_a = Leader" "peers leader_a \<noteq> []" by code_simp+
  have "map_option fst (dispatch_command V0 (calm heard_a) 0 5 (CmdGet ''k'') leader_a) = Some (value_json None)" by code_simp
  then obtain m where d: "dispatch_command V0 (calm heard_a) 0 5 (CmdGet ''k'') leader_a = Some (value_json None, m)" by auto
  from read_rests_on_confirmation [OF f d] show ?thesis by (auto simp: calm_def)
qed

lemma solo_solo: "solo_ready V0 solo"
proof -
  have f: "state solo = Leader" "current_config solo = Simple [server ''a'']" "node_id_of (server ''a'') = node_id solo"
    "commit_index solo \<le> length (log solo)" "last_applied solo = length (log solo)" by code_simp+
  have "node_inv V0 solo" unfolding solo_def by (rule node_inv_elections(1)) (simp add: ex_start_inv)
  with f show ?thesis by (auto simp: solo_ready_def)
qed

theorem solo_serves_map_witness:
  "\<exists>m. dispatch_all V0 0 [(calm solo, 1, CmdSet ''k'' ''v''), (calm solo, 2, CmdDelete ''j'')] solo = Some ([ok_index 1, ok_index 2], m) \<and>
     sm_view (sm_env_of V0) (state_machine_of m) ''k'' = Some ''v'' \<and>
     dispatch_command V0 (calm solo) 0 3 (CmdGet ''k'') m = Some (value_json (Some ''v''), m)"
proof -
  have l: "length (log solo) = 0" by code_simp
  let ?rs = "[(calm solo, 1 :: nat, CmdSet ''k'' ''v''), (calm solo, 2, CmdDelete ''j'')]"
  have "\<forall>(env, now, c) \<in> set ?rs. mutation c" by simp
  from solo_serves_map [OF solo_solo this, of 0] obtain m where
    m: "dispatch_all V0 0 ?rs solo = Some (map ok_index [length (log solo) + 1 ..< length (log solo) + length ?rs + 1], m)"
    "kv_of V0 m = fold (\<lambda>(env, now, c). kv_spec c) ?rs (kv_of V0 solo)"
    "\<forall>env now key. dispatch_command V0 env 0 now (CmdGet key) m =
      Some (value_json (if shadowed (sm_env_of V0) (state_machine_of m) key then None
        else fst (fold (\<lambda>(env, now, c). kv_spec c) ?rs (kv_of V0 solo)) key), m)" by blast
  have "map_option (\<lambda>(_, m). mem_map (memtable (state_machine_of m)) ''k'') (dispatch_all V0 0 ?rs solo) = Some (Some (Some ''v''))"
    by code_simp
  then have "\<not> shadowed (sm_env_of V0) (state_machine_of m) ''k''" using m(1) by (simp add: shadowed_def)
  then show ?thesis using m by (intro exI [of _ m]) (simp add: l upt_conv_Cons numeral_2_eq_2)
qed

end
