(* ===== verification/ClientSdk.thy ===== *)
theory ClientSdk
  imports Client_Props
begin

text \<open>
  The client library \<open>oxide-kv-client\<close> and its interplay with the front end of the node: the requests
  it builds, how it reads replies, and the buffered transactions of \<open>transaction.rs\<close>. The parser of
  requests that \<open>serde\<close> derives for \<open>Command\<close> is a parameter; what the client relies on is
  \<open>externally_tagged\<close>. The lemmas follow a call of the library through the node and back, and show
  that a transaction with operations is always refused.
\<close>

section \<open>Definitions\<close>

text \<open>An error \<open>Server\<close> whose text shows the whole reply is \<open>SdkServerReply\<close>.\<close>

datatype sdk_error =
    SdkTransport io_error
  | SdkMalformedResponse
  | SdkNotLeader string
  | SdkTxAborted string string
  | SdkServer string
  | SdkServerReply string json
  | SdkConnectionClosed

text \<open>What an exchange over the connection may end in: a failed system call, the end of the stream, a
  line that is not JSON, or a reply.\<close>

datatype exchange = IoFailed io_error | EndOfStream | BadLine | Reply json

fun send_request :: "exchange \<Rightarrow> sdk_error + json" where
  "send_request (IoFailed e) = Inl (SdkTransport e)"
| "send_request EndOfStream = Inl SdkConnectionClosed"
| "send_request BadLine = Inl SdkMalformedResponse"
| "send_request (Reply j) = Inr j"

definition get_str :: "json \<Rightarrow> string \<Rightarrow> string option" where
  "get_str j k = Option.bind (json_get j k) as_str"

definition get_u64 :: "json \<Rightarrow> string \<Rightarrow> nat option" where
  "get_u64 j k = Option.bind (json_get j k) as_u64"

definition check_not_leader :: "json \<Rightarrow> sdk_error + unit" where
  "check_not_leader resp =
     (case get_str resp ''error'' of
        Some msg \<Rightarrow> if take 12 msg = ''Not a leader'' then Inl (SdkNotLeader msg) else Inl (SdkServer msg)
      | None \<Rightarrow> Inr ())"

definition message_of :: "json \<Rightarrow> string" where
  "message_of resp = (case get_str resp ''message'' of Some m \<Rightarrow> m | None \<Rightarrow> ''server error'')"

definition parse_index_response :: "json \<Rightarrow> sdk_error + nat" where
  "parse_index_response resp =
     (case check_not_leader resp of Inl e \<Rightarrow> Inl e | Inr _ \<Rightarrow>
      if get_str resp ''status'' = Some ''ok''
      then (case get_u64 resp ''index'' of Some i \<Rightarrow> Inr i | None \<Rightarrow> Inl (SdkServerReply ''missing index'' resp))
      else if get_str resp ''status'' = Some ''error'' then Inl (SdkServer (message_of resp))
      else Inl (SdkServerReply ''unexpected response'' resp))"

definition set_request :: "string \<Rightarrow> string \<Rightarrow> json" where
  "set_request key val = JObj [(''Set'', JObj [(''key'', JStr key), (''value'', JStr val)])]"

definition get_request :: "string \<Rightarrow> json" where
  "get_request key = JObj [(''Get'', JObj [(''key'', JStr key)])]"

definition delete_request :: "string \<Rightarrow> json" where
  "delete_request key = JObj [(''Delete'', JObj [(''key'', JStr key)])]"

text \<open>The server's side of an exchange is a function from requests.\<close>

definition sdk_set :: "(json \<Rightarrow> exchange) \<Rightarrow> string \<Rightarrow> string \<Rightarrow> sdk_error + nat" where
  "sdk_set srv key val =
     (case send_request (srv (set_request key val)) of Inl e \<Rightarrow> Inl e | Inr resp \<Rightarrow> parse_index_response resp)"

definition sdk_delete :: "(json \<Rightarrow> exchange) \<Rightarrow> string \<Rightarrow> sdk_error + nat" where
  "sdk_delete srv key =
     (case send_request (srv (delete_request key)) of Inl e \<Rightarrow> Inl e | Inr resp \<Rightarrow> parse_index_response resp)"

definition parse_get_response :: "json \<Rightarrow> sdk_error + string option" where
  "parse_get_response resp =
     (case check_not_leader resp of Inl e \<Rightarrow> Inl e | Inr _ \<Rightarrow>
      if get_str resp ''status'' = Some ''ok'' then Inr (get_str resp ''data'')
      else if get_str resp ''status'' = Some ''not_found'' then Inr None
      else Inl (SdkServerReply ''unexpected Get response'' resp))"

definition sdk_get :: "(json \<Rightarrow> exchange) \<Rightarrow> string \<Rightarrow> sdk_error + string option" where
  "sdk_get srv key =
     (case send_request (srv (get_request key)) of Inl e \<Rightarrow> Inl e | Inr resp \<Rightarrow> parse_get_response resp)"

record tx_result_rec =
  res_decision :: string
  res_begin_index :: nat
  res_decide_index :: nat
  res_tx_id :: string

definition parse_begin_response :: "string \<Rightarrow> json \<Rightarrow> sdk_error + tx_result_rec" where
  "parse_begin_response tx_id resp =
     (case check_not_leader resp of Inl e \<Rightarrow> Inl e | Inr _ \<Rightarrow>
      if get_str resp ''status'' = Some ''ok'' then
        (case get_u64 resp ''begin_index'' of None \<Rightarrow> Inl (SdkServerReply ''missing begin_index'' resp) | Some b \<Rightarrow>
         (case get_u64 resp ''decide_index'' of None \<Rightarrow> Inl (SdkServerReply ''missing decide_index'' resp) | Some d \<Rightarrow>
          Inr \<lparr>res_decision = (case get_str resp ''decision'' of Some s \<Rightarrow> s | None \<Rightarrow> ''commit''),
               res_begin_index = b, res_decide_index = d, res_tx_id = tx_id\<rparr>))
      else if get_str resp ''status'' = Some ''aborted''
      then Inl (SdkTxAborted tx_id (case get_str resp ''reason'' of Some s \<Rightarrow> s | None \<Rightarrow> []))
      else if get_str resp ''status'' = Some ''error'' then Inl (SdkServer (message_of resp))
      else Inl (SdkServerReply ''unexpected BeginTx response'' resp))"

definition begin_request :: "string \<Rightarrow> json list \<Rightarrow> json" where
  "begin_request tx_id ops = JObj [(''BeginTx'', JObj [(''tx_id'', JStr tx_id), (''ops'', JArr ops)])]"

definition send_begin_tx :: "(json \<Rightarrow> exchange) \<Rightarrow> string \<Rightarrow> json list \<Rightarrow> sdk_error + tx_result_rec" where
  "send_begin_tx srv tx_id ops =
     (case send_request (srv (begin_request tx_id ops)) of
        Inl e \<Rightarrow> Inl e
      | Inr resp \<Rightarrow> parse_begin_response tx_id resp)"

definition decide_request :: "string \<Rightarrow> bool \<Rightarrow> json" where
  "decide_request tx_id commit =
     JObj [(''DecideTx'', JObj [(''tx_id'', JStr tx_id),
       (''decision'', JObj [(if commit then ''Commit'' else ''Abort'', JNull)])])]"

definition send_decide_tx :: "(json \<Rightarrow> exchange) \<Rightarrow> string \<Rightarrow> bool \<Rightarrow> sdk_error + unit" where
  "send_decide_tx srv tx_id commit =
     (case send_request (srv (decide_request tx_id commit)) of Inl e \<Rightarrow> Inl e | Inr resp \<Rightarrow>
      (case parse_index_response resp of Inl e \<Rightarrow> Inl e | Inr _ \<Rightarrow> Inr ()))"

text \<open>A buffered transaction.\<close>

record transaction =
  trans_id :: string
  trans_ops :: "json list"

definition trans_new :: "string \<Rightarrow> transaction" where
  "trans_new tx_id = \<lparr>trans_id = tx_id, trans_ops = []\<rparr>"

definition trans_set :: "string \<Rightarrow> string \<Rightarrow> transaction \<Rightarrow> transaction" where
  "trans_set key val t = t\<lparr>trans_ops := trans_ops t @ [JObj [(''put'', JObj [(''key'', JStr key), (''value'', JStr val)])]]\<rparr>"

definition trans_delete :: "string \<Rightarrow> transaction \<Rightarrow> transaction" where
  "trans_delete key t = t\<lparr>trans_ops := trans_ops t @ [JObj [(''delete'', JObj [(''key'', JStr key)])]]\<rparr>"

definition trans_commit :: "(json \<Rightarrow> exchange) \<Rightarrow> transaction \<Rightarrow> sdk_error + tx_result_rec" where
  "trans_commit srv t = send_begin_tx srv (trans_id t) (trans_ops t)"

definition trans_abort :: "(json \<Rightarrow> exchange) \<Rightarrow> transaction \<Rightarrow> sdk_error + unit" where
  "trans_abort srv t = send_decide_tx srv (trans_id t) False"

section \<open>Replies are understood\<close>

text \<open>The server as the client sees it: one line in, one line out, unless the connection is closed
  while the handler still waits.\<close>

definition serve :: "(json \<Rightarrow> string + command) \<Rightarrow> ('b, 'w, 'c) node_env \<Rightarrow> ('b, 'w, 'c) surroundings \<Rightarrow> nat \<Rightarrow> nat
    \<Rightarrow> ('b, 'w, 'c) raft_node \<Rightarrow> json \<Rightarrow> exchange" where
  "serve parse V env fuel now n request =
     (case handle_line parse V env fuel now request n of None \<Rightarrow> EndOfStream | Some (j, _) \<Rightarrow> Reply j)"

text \<open>What \<open>serde\<close> documents for the enumerations of the protocol: a variant is an object with the
  name of the variant as its only key, and an unknown name is an error.\<close>

definition externally_tagged :: "(json \<Rightarrow> string + command) \<Rightarrow> bool" where
  "externally_tagged parse \<longleftrightarrow>
     (\<forall>k v. parse (set_request k v) = Inr (CmdSet k v)) \<and>
     (\<forall>k. parse (get_request k) = Inr (CmdGet k)) \<and>
     (\<forall>k. parse (delete_request k) = Inr (CmdDelete k)) \<and>
     (\<forall>tx c. parse (decide_request tx c) = Inr (CmdDecideTx tx (if c then Commit else Abort))) \<and>
     (\<forall>tx. parse (begin_request tx []) = Inr (CmdBeginTx tx [])) \<and>
     (\<forall>tx ops tag body. JObj [(tag, body)] \<in> set ops \<and> tag \<notin> {''Put'', ''Delete''} \<longrightarrow>
        (\<exists>e. parse (begin_request tx ops) = Inl e))"

lemma sdk_json [simp]:
  "check_not_leader not_leader_json = Inl (SdkNotLeader ''Not a leader. Please connect to the leader node.'')"
  "parse_index_response (JObj [(''status'', JStr ''ok''), (''index'', JNum i)]) = Inr i"
  "parse_get_response (value_json v) = Inr v"
  "parse_begin_response tx (error_json m) = Inl (SdkServer m)"
  by (auto simp: check_not_leader_def not_leader_json_def parse_index_response_def parse_get_response_def
      parse_begin_response_def get_str_def get_u64_def value_json_def error_json_def message_of_def split: option.splits)

lemma sdk_not_leader [simp]:
  "parse_index_response not_leader_json = Inl (SdkNotLeader ''Not a leader. Please connect to the leader node.'')"
  "parse_get_response not_leader_json = Inl (SdkNotLeader ''Not a leader. Please connect to the leader node.'')"
  "parse_begin_response tx not_leader_json = Inl (SdkNotLeader ''Not a leader. Please connect to the leader node.'')"
  by (simp_all add: parse_index_response_def parse_get_response_def parse_begin_response_def)

lemmas sdk_calls = sdk_set_def sdk_get_def sdk_delete_def trans_commit_def trans_abort_def trans_new_def
  send_begin_tx_def send_decide_tx_def

text \<open>The client library and the node agree on the replies: over a connection to a leader with an
  intact disk, \<open>set\<close> and \<open>delete\<close> return the index of the entry that the node appended; to any other
  node every call fails with \<open>NotLeader\<close>; a broken connection and an unreadable line are reported as such.\<close>

theorem sdk_calls_node:
  assumes "externally_tagged parse" and "node_inv V n"
  shows "(state n = Leader \<longrightarrow>
      sdk_set (serve parse V env fuel now n) key val = Inr (length (log n) + 1) \<and>
      sdk_delete (serve parse V env fuel now n) key = Inr (length (log n) + 1) \<and>
      trans_abort (serve parse V env fuel now n) (trans_new tx) = Inr ()) \<and>
    (state n \<noteq> Leader \<longrightarrow> (\<exists>msg.
      sdk_set (serve parse V env fuel now n) key val = Inl (SdkNotLeader msg) \<and>
      sdk_delete (serve parse V env fuel now n) key = Inl (SdkNotLeader msg) \<and>
      sdk_get (serve parse V env fuel now n) key = Inl (SdkNotLeader msg) \<and>
      trans_commit (serve parse V env fuel now n) (trans_new tx) = Inl (SdkNotLeader msg) \<and>
      trans_abort (serve parse V env fuel now n) (trans_new tx) = Inl (SdkNotLeader msg))) \<and>
    sdk_set (\<lambda>_. EndOfStream) key val = Inl SdkConnectionClosed \<and>
    sdk_set (\<lambda>_. IoFailed e) key val = Inl (SdkTransport e) \<and> sdk_set (\<lambda>_. BadLine) key val = Inl SdkMalformedResponse"
proof -
  have parsed: "parse (set_request key val) = Inr (CmdSet key val)" "parse (get_request key) = Inr (CmdGet key)"
    "parse (delete_request key) = Inr (CmdDelete key)" "parse (decide_request tx False) = Inr (CmdDecideTx tx Abort)"
    "parse (begin_request tx []) = Inr (CmdBeginTx tx [])"
    using assms(1) by (simp_all add: externally_tagged_def)
  have ok: "serve parse V env fuel now n req = Reply (ok_index (length (log n) + 1))"
    if "state n = Leader" "parse req = Inr c" "mutation c" for req c
    using apply_mutation_ok [OF assms(2) that(1,3), of env fuel now] that(2) by (auto simp: serve_def handle_line_def)
  have refused: "serve parse V env fuel now n req = Reply not_leader_json" if "state n \<noteq> Leader" "parse req = Inr c" for req c
    using that by (simp add: serve_def handle_line_def dispatch_command_def)
  have "sdk_set (serve parse V env fuel now n) key val = Inr (length (log n) + 1) \<and>
      sdk_delete (serve parse V env fuel now n) key = Inr (length (log n) + 1) \<and>
      trans_abort (serve parse V env fuel now n) (trans_new tx) = Inr ()" if "state n = Leader"
    using ok [OF that] parsed by (simp add: sdk_calls ok_index_def)
  then show ?thesis
    using refused parsed by (simp add: sdk_calls)
qed

lemma solo_write_not_shadowed:
  assumes "solo_ready V n" and "state_machine_of m = sm_apply (sm_env_of V) c (state_machine_of n)" and "c \<in> {CmdSet key val, CmdDelete key}"
  shows "\<not> shadowed (sm_env_of V) (state_machine_of m) key"
proof -
  have "sm_ok (sm_env_of V) (state_machine_of n)" using assms(1) node_invD(3) by (auto simp: solo_ready_def)
  from write_not_shadowed [OF this, of "WalPut key val"] write_not_shadowed [OF this, of "WalDelete key"]
  show ?thesis using assms(2,3) by auto
qed

text \<open>C17: Read your writes through the client library: on a single-node cluster, after \<open>set\<close> has returned, \<open>get\<close>
  of the key returns the value, and after \<open>delete\<close> has returned it returns nothing, whether or not the write has flushed
  the memtable or compacted the tables: a key that has just been written is never shadowed.\<close>

theorem sdk_read_your_write:
  assumes "externally_tagged parse" and "solo_ready V n"
  shows "\<exists>m. handle_line parse V env fuel now (set_request key val) n = Some (ok_index (length (log n) + 1), m) \<and>
    sdk_set (serve parse V env fuel now n) key val = Inr (length (log n) + 1) \<and>
    sdk_get (serve parse V env' fuel now' m) key = Inr (Some val) \<and>
    (\<exists>k. handle_line parse V env fuel now (delete_request key) m = Some (ok_index (length (log n) + 2), k) \<and>
      sdk_delete (serve parse V env fuel now m) key = Inr (length (log n) + 2) \<and>
      sdk_get (serve parse V env' fuel now' k) key = Inr None)"
proof -
  have parsed: "parse (set_request key val) = Inr (CmdSet key val)" "parse (get_request key) = Inr (CmdGet key)"
    "parse (delete_request key) = Inr (CmdDelete key)"
    using assms(1) by (simp_all add: externally_tagged_def)
  have "mutation (CmdSet key val)" "mutation (CmdDelete key)" by simp_all
  from solo_write [OF assms(2) this(1), of env fuel now] obtain m where
    m: "dispatch_command V env fuel now (CmdSet key val) n = Some (ok_index (length (log n) + 1), m)" "solo_ready V m"
      "length (log m) = length (log n) + 1" "kv_of V m = kv_spec (CmdSet key val) (kv_of V n)"
      "state_machine_of m = sm_apply (sm_env_of V) (CmdSet key val) (state_machine_of n)" by blast
  from solo_write [OF m(2) \<open>mutation (CmdDelete key)\<close>, of env fuel now] obtain k where
    k: "dispatch_command V env fuel now (CmdDelete key) m = Some (ok_index (length (log m) + 1), k)" "solo_ready V k"
      "kv_of V k = kv_spec (CmdDelete key) (kv_of V m)"
      "state_machine_of k = sm_apply (sm_env_of V) (CmdDelete key) (state_machine_of m)" by blast
  have vals: "fst (kv_of V m) key = Some val" "fst (kv_of V k) key = None" using m(4) k(3) by simp_all
  have seen: "\<not> shadowed (sm_env_of V) (state_machine_of m) key" "\<not> shadowed (sm_env_of V) (state_machine_of k) key"
    using solo_write_not_shadowed [OF assms(2) m(5), of key val] solo_write_not_shadowed [OF m(2) k(4), of key val] by simp_all
  show ?thesis
    using m(1,3) k(1) solo_read [OF m(2), of env' fuel now' key] solo_read [OF k(2), of env' fuel now' key] vals seen parsed
    by (intro exI [of _ m] conjI exI [of _ k])
      (simp_all add: handle_line_def serve_def sdk_calls ok_index_def)
qed

text \<open>A buffered transaction with operations never reaches the log: the library tags the operations
  with \<open>put\<close> and \<open>delete\<close>, which are not names of variants of \<open>TxOp\<close>, so the node answers with a parse
  error, its state unchanged, and \<open>commit\<close> fails with a server error.\<close>

theorem sdk_transaction_refused:
  assumes "externally_tagged parse" and "t \<in> {trans_set key val t', trans_delete key t'}"
  shows "\<exists>e. trans_commit (serve parse V env fuel now n) t = Inl (SdkServer (''Invalid JSON: '' @ e)) \<and>
    handle_line parse V env fuel now (begin_request (trans_id t) (trans_ops t)) n = Some (error_json (''Invalid JSON: '' @ e), n)"
proof -
  obtain tag body where "JObj [(tag, body)] \<in> set (trans_ops t)" "tag \<in> {''put'', ''delete''}"
  proof (cases "t = trans_set key val t'")
    case True
    then show ?thesis by (intro that [of "''put''"]) (auto simp: trans_set_def)
  next
    case False
    then show ?thesis using assms(2) by (intro that [of "''delete''"]) (auto simp: trans_delete_def)
  qed
  moreover have "{''put'', ''delete''} \<inter> {''Put'', ''Delete''} = ({} :: string set)" by simp
  ultimately have "JObj [(tag, body)] \<in> set (trans_ops t) \<and> tag \<notin> {''Put'', ''Delete''}" by blast
  then obtain e where "parse (begin_request (trans_id t) (trans_ops t)) = Inl e"
    using assms(1) unfolding externally_tagged_def by blast
  then show ?thesis by (simp add: trans_commit_def send_begin_tx_def serve_def handle_line_def)
qed

section \<open>Examples\<close>

text \<open>A parser for the requests of the library that reads variants by name.\<close>

fun op_of_json :: "json \<Rightarrow> tx_op option" where
  "op_of_json (JObj [(tag, body)]) =
     (if tag = ''Put'' then (case (get_str body ''key'', get_str body ''value'') of (Some k, Some v) \<Rightarrow> Some (TxPut k v) | _ \<Rightarrow> None)
      else if tag = ''Delete'' then map_option TxDelete (get_str body ''key'')
      else None)"
| "op_of_json _ = None"

fun command_of_json :: "json \<Rightarrow> command option" where
  "command_of_json (JObj [(tag, body)]) =
     (if tag = ''Set'' then (case (get_str body ''key'', get_str body ''value'') of (Some k, Some v) \<Rightarrow> Some (CmdSet k v) | _ \<Rightarrow> None)
      else if tag = ''Get'' then map_option CmdGet (get_str body ''key'')
      else if tag = ''Delete'' then map_option CmdDelete (get_str body ''key'')
      else if tag = ''DecideTx'' then (case (get_str body ''tx_id'', json_get body ''decision'') of
          (Some tx, Some (JObj [(d, _)])) \<Rightarrow> if d = ''Commit'' then Some (CmdDecideTx tx Commit)
             else if d = ''Abort'' then Some (CmdDecideTx tx Abort) else None
        | _ \<Rightarrow> None)
      else if tag = ''BeginTx'' then (case (get_str body ''tx_id'', json_get body ''ops'') of
          (Some tx, Some (JArr ops)) \<Rightarrow>
            if list_all (\<lambda>j. op_of_json j \<noteq> None) ops then Some (CmdBeginTx tx (map (\<lambda>j. the (op_of_json j)) ops)) else None
        | _ \<Rightarrow> None)
      else None)"
| "command_of_json _ = None"

definition parse_json :: "json \<Rightarrow> string + command" where
  "parse_json j = (case command_of_json j of None \<Rightarrow> Inl ''unknown variant'' | Some c \<Rightarrow> Inr c)"

lemma parse_json_tagged: "externally_tagged parse_json"
proof -
  have "command_of_json (begin_request tx ops) = None"
    if "JObj [(tag, body)] \<in> set ops" "tag \<notin> {''Put'', ''Delete''}" for tx ops tag body
  proof -
    have "\<not> list_all (\<lambda>j. op_of_json j \<noteq> None) ops" using that by (force simp: list_all_iff)
    then show ?thesis by (simp add: begin_request_def get_str_def)
  qed
  then have "\<exists>e. parse_json (begin_request tx ops) = Inl e"
    if "JObj [(tag, body)] \<in> set ops \<and> tag \<notin> {''Put'', ''Delete''}" for tx ops tag body
    using that by (auto simp: parse_json_def)
  moreover have "parse_json (set_request k v) = Inr (CmdSet k v)" "parse_json (get_request k) = Inr (CmdGet k)"
    "parse_json (delete_request k) = Inr (CmdDelete k)" "parse_json (begin_request k []) = Inr (CmdBeginTx k [])"
    "parse_json (decide_request k c) = Inr (CmdDecideTx k (if c then Commit else Abort))" for k v c
    by (simp_all add: parse_json_def set_request_def get_request_def delete_request_def begin_request_def decide_request_def get_str_def)
  ultimately show ?thesis unfolding externally_tagged_def by blast
qed

theorem sdk_calls_node_witness:
  "sdk_set (serve parse_json V0 (calm leader_a) 0 0 leader_a) ''k'' ''v'' = Inr 1 \<and>
   (\<exists>msg. sdk_get (serve parse_json V0 (calm leader_a) 0 0 node_b) ''k'' = Inl (SdkNotLeader msg))"
proof -
  have f: "state leader_a = Leader" "length (log leader_a) = 0" "state node_b \<noteq> Leader" by code_simp+
  have "node_inv V0 node_b" unfolding node_b_def by (rule ex_start_inv) simp
  then have "\<exists>msg. sdk_get (serve parse_json V0 (calm leader_a) 0 0 node_b) ''k'' = Inl (SdkNotLeader msg)"
    using sdk_calls_node [OF parse_json_tagged, of V0 node_b "calm leader_a" 0 0 "''k''" "''v''" "''t''"] f(3) by blast
  then show ?thesis
    using sdk_calls_node [OF parse_json_tagged ex_inv(3), of "calm leader_a" 0 0 "''k''" "''v''" "''t''"] f(1,2) by simp
qed

theorem sdk_read_your_write_witness:
  "\<exists>m k. handle_line parse_json V0 (calm solo) 0 0 (set_request ''k'' ''v'') solo = Some (ok_index 1, m) \<and>
     sdk_get (serve parse_json V0 (calm solo) 0 1 m) ''k'' = Inr (Some ''v'') \<and>
     handle_line parse_json V0 (calm solo) 0 0 (delete_request ''k'') m = Some (ok_index 2, k) \<and>
     sdk_get (serve parse_json V0 (calm solo) 0 1 k) ''k'' = Inr None"
proof -
  have l: "length (log solo) = 0" by code_simp
  from sdk_read_your_write [OF parse_json_tagged solo_solo, of "calm solo" 0 0 "''k''" "''v''" "calm solo" 1]
  show ?thesis by (auto simp: l numeral_2_eq_2)
qed

theorem sdk_transaction_refused_witness:
  "\<exists>e. trans_commit (serve parse_json V0 (calm leader_a) 0 0 leader_a) (trans_set ''k'' ''v'' (trans_new ''t'')) = Inl (SdkServer e)"
proof -
  have "trans_set ''k'' ''v'' (trans_new ''t'') \<in> {trans_set ''k'' ''v'' (trans_new ''t''), trans_delete ''k'' (trans_new ''t'')}" by simp
  from sdk_transaction_refused [OF parse_json_tagged this] show ?thesis by blast
qed

end
