(* ===== verification/StaleRead.thy ===== *)
theory StaleRead
  imports Client_Props
begin

text \<open>
  A run of a five-node cluster in which a deposed leader answers a read with an old value: the time
  stamp of the last quorum heartbeat is refreshed by every single acknowledgement, so one follower
  that has not heard of the new term is enough to confirm a read. Every node of the run is the
  result of the handlers of \<open>Node\<close>, applied to the messages that the other nodes built.
\<close>

definition five :: "string list" where
  "five = [''a'', ''b'', ''c'', ''d'', ''e'']"

definition node5 :: "string \<Rightarrow> ex_node" where
  "node5 x = ex_start x (filter (\<lambda>p. p \<noteq> x) five)"

text \<open>The voter answers a request, and the candidate counts the votes of two voters.\<close>

definition voted :: "ex_node \<Rightarrow> ex_node \<Rightarrow> ex_node" where
  "voted candidate v = snd (handle_request_vote V0 1 (vote_args_for (current_term candidate) candidate) v)"

definition vote_of5 :: "ex_node \<Rightarrow> ex_node \<Rightarrow> vote_response_args" where
  "vote_of5 candidate v = fst (handle_request_vote V0 1 (vote_args_for (current_term candidate) candidate) v)"

definition elect :: "ex_node \<Rightarrow> ex_node \<Rightarrow> ex_node \<Rightarrow> ex_node" where
  "elect n v w = (case become_candidate V0 1 n of (r, _, c) \<Rightarrow>
     snd (vote_reply_handler V0 2 (vote_of5 c w) (vote_reply_handler V0 2 (vote_of5 c v) (r, c))))"

abbreviation campaigning :: "ex_node \<Rightarrow> ex_node" where
  "campaigning n \<equiv> snd (snd (become_candidate V0 1 n))"

text \<open>Node a wins term 1 with the votes of b and c.\<close>

definition old_leader :: ex_node where
  "old_leader = elect (node5 ''a'') (node5 ''b'') (node5 ''c'')"

text \<open>Node c, which voted for a, wins term 2 with the votes of d and e, and writes.\<close>

definition new_leader :: ex_node where
  "new_leader = snd (propose V0 (CmdSet ''k'' ''v'')
     (elect (voted (campaigning (node5 ''a'')) (node5 ''c'')) (node5 ''d'') (node5 ''e'')))"

definition acked :: "nat \<Rightarrow> ex_node \<Rightarrow> string \<Rightarrow> ex_node \<Rightarrow> ex_node" where
  "acked now l p f = (let args = append_args_for l p in append_reply_handler V0 now p args (fst (handle_append_entries V0 now args f)) l)"

definition follower5 :: "string \<Rightarrow> ex_node" where
  "follower5 x = voted (campaigning (voted (campaigning (node5 ''a'')) (node5 ''c''))) (node5 x)"

text \<open>The write is stored by d and e and commits at the moment 4.\<close>

definition committed_c :: ex_node where
  "committed_c = acked 4 (acked 4 new_leader ''d'' (follower5 ''d'')) ''e'' (follower5 ''e'')"

text \<open>At the moment 7 the old leader hears from b, and only from b.\<close>

definition old_leader_heard :: ex_node where
  "old_leader_heard = acked 7 old_leader ''b'' (voted (campaigning (node5 ''a'')) (node5 ''b''))"

definition at_old_leader :: "(doc, wal_unit, raft_doc) surroundings" where
  "at_old_leader = calm old_leader_heard"

lemma new_leader_facts:
  "state committed_c = Leader" "current_term committed_c = 2" "commit_index committed_c = 1" "last_applied committed_c = 1"
  "sm_get (sm_env_of V0) (state_machine_of committed_c) ''k'' = Some ''v''"
  by code_simp+

lemma old_leader_facts:
  "state old_leader = Leader" "current_term old_leader = 1"
  "map_option fst (dispatch_command V0 at_old_leader 0 5 (CmdGet ''k'') old_leader) = Some (value_json None)"
  by code_simp+

text \<open>C40: One acknowledgement confirms a read. In a five-node cluster a new leader of term 2 has committed
  a write at the moment 4; a read that begins at the moment 5 on the deposed leader of term 1 is
  confirmed by the acknowledgement of a single follower at the moment 7 and reports the key as
  absent. The read is not linearizable.\<close>

theorem one_ack_serves_stale_read:
  "state committed_c = Leader \<and> current_term committed_c = 2 \<and> commit_index committed_c = 1 \<and>
   sm_get (sm_env_of V0) (state_machine_of committed_c) ''k'' = Some ''v'' \<and>
   state old_leader = Leader \<and> current_term old_leader = 1 \<and>
   (\<exists>m. dispatch_command V0 at_old_leader 0 5 (CmdGet ''k'') old_leader = Some (value_json None, m))"
  using new_leader_facts old_leader_facts by auto

end
