(* ===== verification/StaleMatch.thy ===== *)
theory StaleMatch
  imports StaleRead "HOL-Library.Code_Target_Nat"
begin

text \<open>
  A run of a five-node cluster that ends with two different commands committed and applied at one
  index. A new leader keeps the \<open>match_index\<close> of its earlier terms: \<open>become_leader\<close> resets
  \<open>next_index\<close> only. A count that was right in term 1 is used in term 3, after the follower
  that it counts has lost the entries. As in \<open>StaleRead\<close>, every node of the run is the
  result of the handlers of \<open>Node\<close>, applied to the messages that the other nodes built.
\<close>

definition received :: "ex_node \<Rightarrow> string \<Rightarrow> ex_node \<Rightarrow> ex_node" where
  "received l p f = snd (handle_append_entries V0 1 (append_args_for l p) f)"

abbreviation writes :: "string \<Rightarrow> ex_node \<Rightarrow> ex_node" where
  "writes v n \<equiv> snd (propose V0 (CmdSet ''k'' v) n)"

text \<open>An append that is refused at first and accepted when it is sent again from one index before.\<close>

definition retried :: "nat \<Rightarrow> ex_node \<Rightarrow> string \<Rightarrow> ex_node \<Rightarrow> ex_node" where
  "retried now l p f = acked (now + 1) (acked now l p f) p (received l p f)"

text \<open>What a run shows of a leader.\<close>

definition report :: "ex_node \<Rightarrow> (node_state \<times> nat) \<times> (nat \<times> nat) \<times> log_entry list \<times> string option" where
  "report n = ((state n, current_term n), (commit_index n, last_applied n), log n, sm_get (sm_env_of V0) (state_machine_of n) ''k'')"

text \<open>Term 1: \<open>a\<close> wins with the votes of \<open>b\<close> and \<open>c\<close> and stores two entries on \<open>b\<close> only.\<close>

definition a1 :: ex_node where
  "a1 = writes ''2'' (writes ''1'' (elect (node5 ''a'') (node5 ''b'') (node5 ''c'')))"

definition b1 :: ex_node where
  "b1 = voted (campaigning (node5 ''a'')) (node5 ''b'')"

definition c1 :: ex_node where
  "c1 = voted (campaigning (node5 ''a'')) (node5 ''c'')"

definition a1_acked :: ex_node where
  "a1_acked = acked 2 a1 ''b'' b1"

text \<open>Term 2: \<open>c\<close> wins with the votes of \<open>d\<close> and \<open>e\<close>; its one entry replaces the two of \<open>a\<close> and \<open>b\<close>.\<close>

definition c2 :: ex_node where
  "c2 = writes ''3'' (elect c1 (node5 ''d'') (node5 ''e''))"

definition voter2 :: "string \<Rightarrow> ex_node" where
  "voter2 x = voted (campaigning c1) (node5 x)"

definition a2 :: ex_node where
  "a2 = received c2 ''a'' a1_acked"

definition b2 :: ex_node where
  "b2 = received c2 ''b'' (received a1 ''b'' b1)"

text \<open>Term 3: \<open>a\<close> wins with the votes of \<open>b\<close> and \<open>d\<close> and stores an entry on \<open>d\<close> only, at the second attempt.\<close>

definition a3 :: ex_node where
  "a3 = writes ''4'' (elect a2 b2 (voter2 ''d''))"

definition b3 :: ex_node where
  "b3 = voted (campaigning a2) b2"

definition d3 :: ex_node where
  "d3 = voted (campaigning a2) (voter2 ''d'')"

definition a3_committed :: ex_node where
  "a3_committed = retried 3 a3 ''d'' d3"

text \<open>Term 4: \<open>b\<close> wins with the votes of \<open>c\<close> and \<open>e\<close> and commits its own entry with them.\<close>

definition b4 :: ex_node where
  "b4 = writes ''5'' (elect b3 c2 (voter2 ''e''))"

definition e4 :: ex_node where
  "e4 = voted (campaigning b3) (voter2 ''e'')"

definition b4_committed :: ex_node where
  "b4_committed = retried 6 (acked 5 b4 ''c'' (voted (campaigning b3) c2)) ''e'' e4"

lemma stale_count: "match_index_for a3 ''b'' = 2"
  by code_simp

lemma logs_short: "length (log b3) = 1" "length (log c2) = 1" "length (log e4) = 0"
  by code_simp+

lemma term_3_report:
  "report a3_committed = ((Leader, 3), (2, 2),
     [\<lparr>le_term = 2, le_index = 1, le_command = CmdSet ''k'' ''3''\<rparr>, \<lparr>le_term = 3, le_index = 2, le_command = CmdSet ''k'' ''4''\<rparr>],
     Some ''4'')"
  by code_simp

lemma term_4_report:
  "report b4_committed = ((Leader, 4), (2, 2),
     [\<lparr>le_term = 2, le_index = 1, le_command = CmdSet ''k'' ''3''\<rparr>, \<lparr>le_term = 4, le_index = 2, le_command = CmdSet ''k'' ''5''\<rparr>],
     Some ''5'')"
  by code_simp

text \<open>C35: A stale match index breaks the safety of commits. In a five-node cluster without any failure of a
  disk or a process, node \<open>a\<close> is elected in term 3 with a match index for \<open>b\<close> that exceeds the log of \<open>b\<close>, and
  commits an entry at index 2 that only \<open>a\<close> and \<open>d\<close> store; node \<open>b\<close>, elected in term 4, commits
  another entry at index 2. Both are applied.\<close>

theorem stale_match_index_diverges:
  "length (log b3) < match_index_for a3 ''b'' \<and>
   length (log b3) < 2 \<and> length (log c2) < 2 \<and> length (log e4) < 2 \<and>
   (state a3_committed = Leader \<and> current_term a3_committed = 3 \<and> commit_index a3_committed = 2) \<and>
   (state b4_committed = Leader \<and> current_term b4_committed = 4 \<and> commit_index b4_committed = 2) \<and>
   log a3_committed ! 1 \<noteq> log b4_committed ! 1 \<and>
   sm_get (sm_env_of V0) (state_machine_of a3_committed) ''k'' = Some ''4'' \<and>
   sm_get (sm_env_of V0) (state_machine_of b4_committed) ''k'' = Some ''5''"
  using stale_count logs_short term_3_report term_4_report by (simp add: report_def)

end
