(* ===== verification/SyncLogs.thy ===== *)
theory SyncLogs
  imports Node_Props
begin

text \<open>
  The locks of \<open>sync_logs\<close>. It reads term, commit index, peers and the length of the log under one
  lock, and then, under a lock of its own for each peer, \<open>next_index\<close> and the entries to send. Other
  tasks may change the node in between. The arguments that \<open>Node\<close> builds in one go are those of an
  undisturbed call.
\<close>

record sync_view =
  view_term :: nat
  view_id :: string
  view_commit :: nat
  view_peers :: "string list"
  view_len :: nat

definition sync_view_of :: "('b, 'w, 'c) raft_node \<Rightarrow> sync_view" where
  "sync_view_of n = \<lparr>view_term = current_term n, view_id = node_id n, view_commit = commit_index n,
     view_peers = peers n, view_len = length (log n)\<rparr>"

text \<open>\<open>None\<close> when the slice \<open>n.log[next - 1..]\<close> begins behind the end of the log, which panics.\<close>

definition append_args_at :: "sync_view \<Rightarrow> ('b, 'w, 'c) raft_node \<Rightarrow> string \<Rightarrow> append_entries_args option" where
  "append_args_at v n peer =
     (let next = (case next_index n peer of None \<Rightarrow> 1 | Some i \<Rightarrow> i);
          prev_idx = next - 1;
          prev_term = (if prev_idx = 0 then 0
                       else if prev_idx - 1 < length (log n) then le_term (log n ! (prev_idx - 1)) else 0)
      in if next \<le> view_len v \<and> length (log n) < next - 1 then None
         else Some \<lparr>ae_term = view_term v, ae_leader_id = view_id v, prev_log_index = prev_idx, prev_log_term = prev_term,
           ae_entries = (if next \<le> view_len v then drop (next - 1) (log n) else []), leader_commit = view_commit v\<rparr>)"

lemma append_args_undisturbed: "append_args_at (sync_view_of n) n peer = Some (append_args_for n peer)"
  by (auto simp: append_args_at_def append_args_for_def sync_view_of_def Let_def)

text \<open>The node still leads in the term of the view: its log and its commit index have only grown.\<close>

definition still_leading :: "sync_view \<Rightarrow> ('b, 'w, 'c) raft_node \<Rightarrow> bool" where
  "still_leading v n \<longleftrightarrow> state n = Leader \<and> view_term v = current_term n \<and> view_commit v \<le> view_len v \<and>
     view_commit v \<le> commit_index n \<and> view_len v \<le> length (log n)"

lemma still_leading_now: "state n = Leader \<Longrightarrow> commit_index n \<le> length (log n) \<Longrightarrow> still_leading (sync_view_of n) n"
  by (simp add: still_leading_def sync_view_of_def)

lemma still_leading_later:
  assumes "still_leading v n" and "state m = Leader" and "current_term m = current_term n"
    and "commit_index n \<le> commit_index m" and "length (log n) \<le> length (log m)"
  shows "still_leading v m"
  using assms by (simp add: still_leading_def)

text \<open>Then the call does not panic, and what it sends is a part of the log, from \<open>next_index\<close> to the end or nothing.\<close>

lemma append_args_leading:
  assumes "still_leading v n" and "append_args_at v n peer = Some args" and "next_index n peer \<noteq> Some 0"
  defines "nx \<equiv> case next_index n peer of None \<Rightarrow> 1 | Some i \<Rightarrow> i"
  shows "ae_term args = current_term n" and "prev_log_index args = nx - 1" and "leader_commit args = view_commit v"
    and "nx \<le> length (log n) + 1 \<Longrightarrow> 0 < nx - 1 \<Longrightarrow> prev_log_term args = le_term (log n ! (nx - 1 - 1))"
    and "nx \<le> view_len v \<and> ae_entries args = drop (nx - 1) (log n) \<or> view_len v < nx \<and> ae_entries args = []"
    and "1 \<le> nx"
  using assms(1-3) by (auto simp: append_args_at_def still_leading_def nx_def Let_def split: if_splits option.splits)

lemma append_args_leading_total:
  assumes "still_leading v n"
  shows "append_args_at v n peer \<noteq> None"
  using assms by (auto simp: append_args_at_def still_leading_def Let_def)

end
