(* ===== verification/DeposedAppend.thy ===== *)
theory DeposedAppend
  imports StaleMatch SyncLogs
begin

text \<open>
  A run of a five-node cluster in which a deposed leader overwrites a committed entry. \<open>sync_logs\<close>
  does not look at the role of the node, and its callers release the lock of the node before they call
  it. A leader that is deposed in between sends its log in the new term, which it does not lead,
  and followers take it for the leader of that term.
\<close>

text \<open>Term 1: \<open>a\<close> appends an entry; before the task of the client reaches \<open>sync_logs\<close>, \<open>a\<close> hears of term 2.\<close>

definition deposed_a :: ex_node where
  "deposed_a = voted (campaigning c1) (writes ''1'' (elect (node5 ''a'') (node5 ''b'') (node5 ''c'')))"

text \<open>Term 2: \<open>c\<close> commits its entry on \<open>c\<close>, \<open>d\<close> and \<open>e\<close>, and tells \<open>d\<close>.\<close>

definition leader_c :: ex_node where
  "leader_c = acked 3 (acked 2 c2 ''d'' (voter2 ''d'')) ''e'' (voter2 ''e'')"

definition follower_d :: ex_node where
  "follower_d = received leader_c ''d'' (received c2 ''d'' (voter2 ''d''))"

text \<open>The append of \<open>a\<close> arrives.\<close>

definition late_append :: append_entries_args where
  "late_append = (case map_of (fst (sync_logs V0 deposed_a)) ''d'' of Some args \<Rightarrow> args)"

definition answer_d :: "append_reply_args \<times> ex_node" where
  "answer_d = handle_append_entries V0 4 late_append follower_d"

lemma deposed_a_sends:
  "state deposed_a = Follower \<and> current_term deposed_a = 2 \<and> late_append =
     \<lparr>ae_term = 2, ae_leader_id = ''a'', prev_log_index = 0, prev_log_term = 0,
      ae_entries = [\<lparr>le_term = 1, le_index = 1, le_command = CmdSet ''k'' ''1''\<rparr>], leader_commit = 0\<rparr>"
  by code_simp

lemma leader_c_report:
  "report leader_c = ((Leader, 2), (1, 1), [\<lparr>le_term = 2, le_index = 1, le_command = CmdSet ''k'' ''3''\<rparr>], Some ''3'')"
  by code_simp

lemma follower_d_report:
  "report follower_d = ((Follower, 2), (1, 1), [\<lparr>le_term = 2, le_index = 1, le_command = CmdSet ''k'' ''3''\<rparr>], Some ''3'')"
  by code_simp

lemma answer_d_report:
  "case handle_append_entries V0 4
      \<lparr>ae_term = 2, ae_leader_id = ''a'', prev_log_index = 0, prev_log_term = 0,
       ae_entries = [\<lparr>le_term = 1, le_index = 1, le_command = CmdSet ''k'' ''1''\<rparr>], leader_commit = 0\<rparr> follower_d of
     (r, n) \<Rightarrow> ar_success r \<and>
       report n = ((Follower, 2), (1, 1), [\<lparr>le_term = 1, le_index = 1, le_command = CmdSet ''k'' ''1''\<rparr>], Some ''3'')"
  by code_simp

text \<open>C36: A deposed leader overwrites a committed entry. In a five-node cluster without any failure, node \<open>c\<close> has
  committed an entry in term 2 and follower \<open>d\<close> knows it; the appends that \<open>sync_logs\<close> builds on the
  follower \<open>a\<close> carry term 2 and the log of \<open>a\<close>; \<open>d\<close> accepts them and ends with another entry at an index
  that is committed and applied.\<close>

theorem deposed_leader_overwrites:
  "(state leader_c = Leader \<and> current_term leader_c = 2 \<and> commit_index leader_c = 1) \<and>
   (log follower_d = log leader_c \<and> commit_index follower_d = 1) \<and>
   (state deposed_a = Follower \<and> current_term deposed_a = 2 \<and> ae_term late_append = 2) \<and>
   ar_success (fst answer_d) \<and> commit_index (snd answer_d) = 1 \<and> log (snd answer_d) ! 0 \<noteq> log leader_c ! 0"
proof -
  have "ae_term late_append = 2" by (subst deposed_a_sends [THEN conjunct2, THEN conjunct2]) simp
  then show ?thesis
    using deposed_a_sends leader_c_report follower_d_report answer_d_report
    by (simp add: report_def answer_d_def split: prod.splits)
qed

end
