(* ===== verification/Timer.thy ===== *)
theory Timer
  imports Node_Examples
begin

text \<open>
  The election timer of \<open>src/raft/timer.rs\<close> with the timeouts of \<open>src/config.rs\<close>: the pure decision
  \<open>should_start_election\<close> and the loop of \<open>run_election_timer\<close>. The random numbers the loop draws are an
  argument, and so is the node as the loop finds it at a given moment, because other tasks run
  between its looks. The lemmas bound the time in which a node that hears nothing starts a probe
  from both sides.
\<close>

section \<open>Definitions\<close>

definition min_election_timeout_ms :: nat where
  "min_election_timeout_ms = 5000"

definition heartbeat_interval_ms :: nat where
  "heartbeat_interval_ms = 250"

definition should_start_election :: "node_state \<Rightarrow> nat \<Rightarrow> nat \<Rightarrow> nat \<Rightarrow> bool" where
  "should_start_election st heartbeat now election_threshold \<longleftrightarrow>
     (if st = Leader then False else election_threshold \<le> now - heartbeat)"

text \<open>A look of the timer at the node.\<close>

definition timed_out :: "(nat \<Rightarrow> ('b, 'w, 'c) raft_node) \<Rightarrow> nat \<Rightarrow> bool" where
  "timed_out obs t \<longleftrightarrow> should_start_election (state (obs t)) (last_heartbeat (obs t)) t min_election_timeout_ms"

text \<open>The loop from the moment \<open>t\<close>, with the sleeps and the jitters it draws: the moments at which it
  calls \<open>become_pre_candidate\<close>.\<close>

fun run_election_timer :: "(nat \<Rightarrow> ('b, 'w, 'c) raft_node) \<Rightarrow> nat \<Rightarrow> (nat \<times> nat) list \<Rightarrow> nat list" where
  "run_election_timer obs t [] = []"
| "run_election_timer obs t ((sleep_ms, jitter_ms) # draws) =
     (let t1 = t + sleep_ms in
      if \<not> timed_out obs t1 then run_election_timer obs t1 draws
      else let t2 = t1 + jitter_ms in
           if timed_out obs t2 then t2 # run_election_timer obs t2 draws
           else run_election_timer obs t2 draws)"

text \<open>What \<open>gen_range\<close> may return.\<close>

definition draw_ok :: "nat \<times> nat \<Rightarrow> bool" where
  "draw_ok d \<longleftrightarrow> min_election_timeout_ms \<le> fst d \<and> fst d < max_election_timeout_ms \<and> snd d < 200"

lemmas timeouts = min_election_timeout_ms_def max_election_timeout_ms_def

section \<open>Probes come neither too early nor too late\<close>

lemma timed_out_iff: "timed_out obs t \<longleftrightarrow> state (obs t) \<noteq> Leader \<and> last_heartbeat (obs t) + 5000 \<le> t"
  by (auto simp: timed_out_def should_start_election_def timeouts)

lemma probes_timed_out: "p \<in> set (run_election_timer obs t draws) \<Longrightarrow> timed_out obs p"
  by (induction obs t draws rule: run_election_timer.induct) (auto simp: Let_def split: if_splits)

lemma silent_probe:
  assumes "\<And>t. h \<le> t \<Longrightarrow> state (obs t) \<noteq> Leader \<and> last_heartbeat (obs t) = h"
    and "h \<le> t + fst d" and "list_all draw_ok [d, e]"
  shows "\<exists>p \<in> set (run_election_timer obs t [d, e]). h \<le> p \<and> p < max t h + 15200"
proof -
  have out: "timed_out obs x \<longleftrightarrow> h + 5000 \<le> x" if "h \<le> x" for x
    using assms(1) [OF that] by (simp add: timed_out_iff)
  have d: "5000 \<le> fst d" "fst d < 10000" "snd d < 200" "5000 \<le> fst e" "fst e < 10000" "snd e < 200"
    using assms(3) by (simp_all add: draw_ok_def timeouts)
  obtain s j s' j' where p: "d = (s, j)" "e = (s', j')" by (cases d, cases e)
  show ?thesis
  proof (cases "h + 5000 \<le> t + s")
    case True
    moreover have "t + s + j < max t h + 15200" using d by (simp add: p)
    ultimately show ?thesis using out [of "t + s"] out [of "t + s + j"] by (simp add: p Let_def)
  next
    case False
    then show ?thesis
      using out [of "t + s"] out [of "t + s + s'"] out [of "t + s + s' + j'"] assms(2) d by (simp add: p Let_def)
  qed
qed

text \<open>C24: The election timer is bounded from both sides. A probe is started only by a node that is not
  leader and has heard nothing for five seconds; with heartbeats in time there is none; and a node
  that hears nothing after the moment \<open>h\<close> starts one within 15.2 seconds, whatever the loop draws.\<close>

theorem election_timer_bounds:
  assumes "\<forall>d \<in> set draws. draw_ok d"
  shows "(\<forall>p \<in> set (run_election_timer obs t draws). state (obs p) \<noteq> Leader \<and> last_heartbeat (obs p) + 5000 \<le> p) \<and>
    ((\<forall>x. state (obs x) = Leader \<or> x < last_heartbeat (obs x) + 5000) \<longrightarrow> run_election_timer obs t draws = []) \<and>
    ((\<forall>x \<ge> h. state (obs x) \<noteq> Leader \<and> last_heartbeat (obs x) = h) \<and> 2 \<le> length draws \<and> t \<le> h \<and> h \<le> t + fst (hd draws) \<longrightarrow>
      (\<exists>p \<in> set (run_election_timer obs t draws). h + 5000 \<le> p \<and> p < h + 15200))"
proof -
  have early: "state (obs p) \<noteq> Leader \<and> last_heartbeat (obs p) + 5000 \<le> p" if "p \<in> set (run_election_timer obs t draws)" for p
    using probes_timed_out [OF that] by (simp add: timed_out_iff)
  moreover have "run_election_timer obs t draws = []" if "\<forall>x. state (obs x) = Leader \<or> x < last_heartbeat (obs x) + 5000"
    using that early by (metis last_in_set leD)
  moreover have "\<exists>p \<in> set (run_election_timer obs t draws). h + 5000 \<le> p \<and> p < h + 15200"
    if a: "\<forall>x \<ge> h. state (obs x) \<noteq> Leader \<and> last_heartbeat (obs x) = h" "2 \<le> length draws" "t \<le> h" "h \<le> t + fst (hd draws)"
  proof -
    from a(2) obtain d e rest where ds: "draws = d # e # rest" by (metis Suc_le_length_iff numeral_2_eq_2)
    have ok: "list_all draw_ok [d, e]" using assms ds by simp
    have "h \<le> t + fst d" using a(4) ds by simp
    from silent_probe [of h obs, OF _ this ok] a(1) obtain p where
      p: "p \<in> set (run_election_timer obs t [d, e])" "h \<le> p" "p < max t h + 15200" by blast
    have "set (run_election_timer obs t [d, e]) \<subseteq> set (run_election_timer obs t draws)"
      by (cases d; cases e) (auto simp: ds Let_def)
    with p have "p \<in> set (run_election_timer obs t draws)" "p < h + 15200" using a(3) by (auto simp: max_def)
    then show ?thesis using early [of p] a(1) p(2) by auto
  qed
  ultimately show ?thesis by blast
qed

text \<open>A node that becomes silent at 300, with the loop in its first sleep.\<close>

theorem election_timer_bounds_witness:
  "\<exists>p \<in> set (run_election_timer (\<lambda>_. node_b\<lparr>last_heartbeat := 300\<rparr>) 100 [(5100, 7), (6000, 150)]). 5300 \<le> p \<and> p < 15500"
proof -
  have d: "\<forall>d \<in> set [(5100, 7), (6000, 150)]. draw_ok d" by (simp add: draw_ok_def timeouts)
  have "state node_b \<noteq> Leader" by code_simp
  with election_timer_bounds [OF d, of "\<lambda>_. node_b\<lparr>last_heartbeat := 300\<rparr>" 100 300] show ?thesis
    by (auto simp del: run_election_timer.simps)
qed

end
