(* ===== verification/Proto.thy ===== *)
theory Proto
  imports Rpc
begin

text \<open>
  The conversions of \<open>src/raft/proto.rs\<close> and \<open>src/coordination.rs\<close> between the messages of the
  nodes and the protobuf messages of \<open>proto/raft.proto\<close> and \<open>proto/coordination.proto\<close>. The
  protobuf types follow the schema: a \<open>oneof\<close> and a message-typed field may be absent, an
  enumeration field holds an arbitrary 32-bit number. How the generated accessor reads such a
  number is an argument of the conversions (\<open>Kind\<close>). The lemmas show that a message survives
  the conversion in both directions, except for the commands that only clients send, which turn
  into \<open>Compact\<close>, and what each absent field is read as.
\<close>

section \<open>Messages of the schema\<close>

record pb_server_id =
  pb_node_id :: string
  pb_addr :: string

datatype pb_kind = KindUnspecified | KindSimple | KindJoint

record pb_configuration_entry =
  pb_kind_field :: int
  pb_old_servers :: "pb_server_id list"
  pb_new_servers :: "pb_server_id list"

datatype pb_tx_op_body = PbPut string string | PbTxDelete string

type_synonym pb_tx_op = "pb_tx_op_body option"

datatype pb_command_body =
    PbSet string string
  | PbGet string
  | PbDelete string
  | PbCompact
  | PbBeginTx string "pb_tx_op list"
  | PbDecideTx string bool
  | PbAddNode pb_server_id
  | PbRemoveNode string
  | PbInstallConfiguration pb_configuration_entry
  | PbAbortTx string

type_synonym pb_command = "pb_command_body option"

record pb_log_entry =
  pb_le_term :: nat
  pb_le_index :: nat
  pb_le_command :: "pb_command option"

record pb_request_vote =
  pb_rv_term :: nat
  pb_candidate_id :: string
  pb_rv_last_log_index :: nat
  pb_rv_last_log_term :: nat

record pb_vote_response =
  pb_vr_term :: nat
  pb_vote_granted :: bool

record pb_append_entries =
  pb_ae_term :: nat
  pb_ae_leader_id :: string
  pb_prev_log_index :: nat
  pb_prev_log_term :: nat
  pb_ae_entries :: "pb_log_entry list"
  pb_leader_commit :: nat

record pb_append_reply =
  pb_ar_term :: nat
  pb_ar_success :: bool

record pb_snapshot =
  pb_last_included_index :: nat
  pb_last_included_term :: nat
  pb_snap_data :: "(string \<times> string) list"

record pb_install_snapshot =
  pb_is_term :: nat
  pb_is_leader_id :: string
  pb_is_last_included_index :: nat
  pb_is_last_included_term :: nat
  pb_is_snapshot :: "pb_snapshot option"

record pb_install_reply =
  pb_isr_term :: nat

record pb_join_request =
  pb_candidate_addr :: string

record pb_join_response =
  pb_jc_accepted :: bool
  pb_jc_term :: nat
  pb_jc_leader_addr :: string
  pb_jc_peer_addrs :: "string list"
  pb_jc_reason :: string

datatype pb_message_body =
    PbRequestVote pb_request_vote
  | PbVoteResponse pb_vote_response
  | PbAppendEntries pb_append_entries
  | PbAppendReply pb_append_reply
  | PbInstallSnapshot pb_install_snapshot
  | PbInstallSnapshotReply pb_install_reply
  | PbRequestPreVote pb_request_vote
  | PbPreVoteResponse pb_vote_response
  | PbJoinCluster pb_join_request
  | PbJoinClusterResponse pb_join_response

type_synonym pb_raft_message = "pb_message_body option"

record pb_tx_vote_request =
  pb_tv_term :: nat
  pb_tv_tx_id :: string
  pb_tv_last_log_index :: nat
  pb_tv_last_log_term :: nat

record pb_tx_vote_response =
  pb_tvr_term :: nat
  pb_tvr_granted :: bool
  pb_tvr_reason :: string

section \<open>Domain to protobuf\<close>

fun pb_kind_number :: "pb_kind \<Rightarrow> int" where
  "pb_kind_number KindUnspecified = 0"
| "pb_kind_number KindSimple = 1"
| "pb_kind_number KindJoint = 2"

definition server_to_pb :: "server_id \<Rightarrow> pb_server_id" where
  "server_to_pb s = \<lparr>pb_node_id = node_id_of s, pb_addr = addr_of_server s\<rparr>"

definition server_of_pb :: "pb_server_id \<Rightarrow> server_id" where
  "server_of_pb p = \<lparr>node_id_of = pb_node_id p, addr_of_server = pb_addr p\<rparr>"

fun configuration_to_pb :: "configuration \<Rightarrow> pb_configuration_entry" where
  "configuration_to_pb (Simple servers) =
     \<lparr>pb_kind_field = pb_kind_number KindSimple, pb_old_servers = [], pb_new_servers = map server_to_pb servers\<rparr>"
| "configuration_to_pb (Joint old new) =
     \<lparr>pb_kind_field = pb_kind_number KindJoint, pb_old_servers = map server_to_pb old,
      pb_new_servers = map server_to_pb new\<rparr>"

definition configuration_of_pb :: "(int \<Rightarrow> pb_kind) \<Rightarrow> pb_configuration_entry \<Rightarrow> configuration" where
  "configuration_of_pb Kind c =
     (let old = map server_of_pb (pb_old_servers c); new = map server_of_pb (pb_new_servers c) in
      case Kind (pb_kind_field c) of
        KindSimple \<Rightarrow> Simple new
      | KindJoint \<Rightarrow> Joint old new
      | KindUnspecified \<Rightarrow> Simple new)"

fun tx_op_to_pb :: "tx_op \<Rightarrow> pb_tx_op" where
  "tx_op_to_pb (TxPut k v) = Some (PbPut k v)"
| "tx_op_to_pb (TxDelete k) = Some (PbTxDelete k)"

fun command_to_pb :: "command \<Rightarrow> pb_command" where
  "command_to_pb (CmdSet k v) = Some (PbSet k v)"
| "command_to_pb (CmdGet k) = Some (PbGet k)"
| "command_to_pb (CmdDelete k) = Some (PbDelete k)"
| "command_to_pb CmdCompact = Some PbCompact"
| "command_to_pb (CmdBeginTx tx ops) = Some (PbBeginTx tx (map tx_op_to_pb ops))"
| "command_to_pb (CmdDecideTx tx d) = Some (PbDecideTx tx (d = Commit))"
| "command_to_pb (CmdAddNode s) = Some (PbAddNode (server_to_pb s))"
| "command_to_pb (CmdRemoveNode i) = Some (PbRemoveNode i)"
| "command_to_pb (CmdInstallConfiguration c) = Some (PbInstallConfiguration (configuration_to_pb c))"
| "command_to_pb (CmdAbortTx tx) = Some (PbAbortTx tx)"

definition log_entry_to_pb :: "log_entry \<Rightarrow> pb_log_entry" where
  "log_entry_to_pb e =
     \<lparr>pb_le_term = le_term e, pb_le_index = le_index e, pb_le_command = Some (command_to_pb (le_command e))\<rparr>"

definition request_vote_to_pb :: "request_vote_args \<Rightarrow> pb_request_vote" where
  "request_vote_to_pb a =
     \<lparr>pb_rv_term = rv_term a, pb_candidate_id = candidate_id a,
      pb_rv_last_log_index = rv_last_log_index a, pb_rv_last_log_term = rv_last_log_term a\<rparr>"

definition vote_response_to_pb :: "vote_response_args \<Rightarrow> pb_vote_response" where
  "vote_response_to_pb a = \<lparr>pb_vr_term = vr_term a, pb_vote_granted = vote_granted a\<rparr>"

definition append_entries_to_pb :: "append_entries_args \<Rightarrow> pb_append_entries" where
  "append_entries_to_pb a =
     \<lparr>pb_ae_term = ae_term a, pb_ae_leader_id = ae_leader_id a, pb_prev_log_index = prev_log_index a,
      pb_prev_log_term = prev_log_term a, pb_ae_entries = map log_entry_to_pb (ae_entries a),
      pb_leader_commit = leader_commit a\<rparr>"

definition append_reply_to_pb :: "append_reply_args \<Rightarrow> pb_append_reply" where
  "append_reply_to_pb a = \<lparr>pb_ar_term = ar_term a, pb_ar_success = ar_success a\<rparr>"

definition snapshot_to_pb :: "snapshot \<Rightarrow> pb_snapshot" where
  "snapshot_to_pb s =
     \<lparr>pb_last_included_index = last_included_index s, pb_last_included_term = last_included_term s,
      pb_snap_data = snap_data s\<rparr>"

definition install_snapshot_to_pb :: "install_snapshot_args \<Rightarrow> pb_install_snapshot" where
  "install_snapshot_to_pb a =
     \<lparr>pb_is_term = is_term a, pb_is_leader_id = is_leader_id a,
      pb_is_last_included_index = is_last_included_index a, pb_is_last_included_term = is_last_included_term a,
      pb_is_snapshot = Some (snapshot_to_pb (is_snapshot a))\<rparr>"

definition install_reply_to_pb :: "install_snapshot_reply_args \<Rightarrow> pb_install_reply" where
  "install_reply_to_pb a = \<lparr>pb_isr_term = isr_term a\<rparr>"

fun encode_domain :: "raft_message \<Rightarrow> pb_raft_message" where
  "encode_domain (RequestVote a) = Some (PbRequestVote (request_vote_to_pb a))"
| "encode_domain (VoteResponse a) = Some (PbVoteResponse (vote_response_to_pb a))"
| "encode_domain (AppendEntries a) = Some (PbAppendEntries (append_entries_to_pb a))"
| "encode_domain (AppendReply a) = Some (PbAppendReply (append_reply_to_pb a))"
| "encode_domain (InstallSnapshot a) = Some (PbInstallSnapshot (install_snapshot_to_pb a))"
| "encode_domain (InstallSnapshotReply a) = Some (PbInstallSnapshotReply (install_reply_to_pb a))"
| "encode_domain (RequestPreVote a) = Some (PbRequestPreVote (request_vote_to_pb a))"
| "encode_domain (PreVoteResponse a) = Some (PbPreVoteResponse (vote_response_to_pb a))"
| "encode_domain (JoinCluster req) = Some (PbJoinCluster \<lparr>pb_candidate_addr = candidate_addr req\<rparr>)"
| "encode_domain (JoinClusterResponse resp) = Some (PbJoinClusterResponse
     \<lparr>pb_jc_accepted = jc_accepted resp, pb_jc_term = jc_term resp, pb_jc_leader_addr = jc_leader_addr resp,
      pb_jc_peer_addrs = jc_peer_addrs resp, pb_jc_reason = jc_reason resp\<rparr>)"

definition tx_vote_request_to_pb :: "tx_vote_request \<Rightarrow> pb_tx_vote_request" where
  "tx_vote_request_to_pb d =
     \<lparr>pb_tv_term = tv_term d, pb_tv_tx_id = tv_tx_id d, pb_tv_last_log_index = tv_last_log_index d,
      pb_tv_last_log_term = tv_last_log_term d\<rparr>"

definition tx_vote_response_to_pb :: "tx_vote_response \<Rightarrow> pb_tx_vote_response" where
  "tx_vote_response_to_pb d =
     \<lparr>pb_tvr_term = tvr_term d, pb_tvr_granted = tvr_granted d, pb_tvr_reason = tvr_reason d\<rparr>"

section \<open>Protobuf to domain\<close>

fun tx_op_of_pb :: "pb_tx_op \<Rightarrow> tx_op" where
  "tx_op_of_pb (Some (PbPut k v)) = TxPut k v"
| "tx_op_of_pb (Some (PbTxDelete k)) = TxDelete k"
| "tx_op_of_pb None = TxDelete []"

fun command_of_pb :: "(int \<Rightarrow> pb_kind) \<Rightarrow> pb_command \<Rightarrow> command" where
  "command_of_pb Kind (Some (PbSet k v)) = CmdSet k v"
| "command_of_pb Kind (Some (PbGet k)) = CmdGet k"
| "command_of_pb Kind (Some (PbDelete k)) = CmdDelete k"
| "command_of_pb Kind (Some PbCompact) = CmdCompact"
| "command_of_pb Kind (Some (PbBeginTx tx ops)) = CmdBeginTx tx (map tx_op_of_pb ops)"
| "command_of_pb Kind (Some (PbDecideTx tx commit)) = CmdDecideTx tx (if commit then Commit else Abort)"
| "command_of_pb Kind (Some (PbAddNode _)) = CmdCompact"
| "command_of_pb Kind (Some (PbRemoveNode _)) = CmdCompact"
| "command_of_pb Kind (Some (PbInstallConfiguration c)) = CmdInstallConfiguration (configuration_of_pb Kind c)"
| "command_of_pb Kind (Some (PbAbortTx _)) = CmdCompact"
| "command_of_pb Kind None = CmdCompact"

definition log_entry_of_pb :: "(int \<Rightarrow> pb_kind) \<Rightarrow> pb_log_entry \<Rightarrow> log_entry" where
  "log_entry_of_pb Kind p =
     \<lparr>le_term = pb_le_term p, le_index = pb_le_index p,
      le_command = (case pb_le_command p of Some c \<Rightarrow> command_of_pb Kind c | None \<Rightarrow> CmdCompact)\<rparr>"

definition request_vote_of_pb :: "pb_request_vote \<Rightarrow> request_vote_args" where
  "request_vote_of_pb p =
     \<lparr>rv_term = pb_rv_term p, candidate_id = pb_candidate_id p,
      rv_last_log_index = pb_rv_last_log_index p, rv_last_log_term = pb_rv_last_log_term p\<rparr>"

definition vote_response_of_pb :: "pb_vote_response \<Rightarrow> vote_response_args" where
  "vote_response_of_pb p = \<lparr>vr_term = pb_vr_term p, vote_granted = pb_vote_granted p\<rparr>"

definition append_entries_of_pb :: "(int \<Rightarrow> pb_kind) \<Rightarrow> pb_append_entries \<Rightarrow> append_entries_args" where
  "append_entries_of_pb Kind p =
     \<lparr>ae_term = pb_ae_term p, ae_leader_id = pb_ae_leader_id p, prev_log_index = pb_prev_log_index p,
      prev_log_term = pb_prev_log_term p, ae_entries = map (log_entry_of_pb Kind) (pb_ae_entries p),
      leader_commit = pb_leader_commit p\<rparr>"

definition append_reply_of_pb :: "pb_append_reply \<Rightarrow> append_reply_args" where
  "append_reply_of_pb p = \<lparr>ar_term = pb_ar_term p, ar_success = pb_ar_success p\<rparr>"

definition snapshot_of_pb :: "pb_snapshot \<Rightarrow> snapshot" where
  "snapshot_of_pb p =
     \<lparr>last_included_index = pb_last_included_index p, last_included_term = pb_last_included_term p,
      snap_data = pb_snap_data p\<rparr>"

definition install_snapshot_of_pb :: "pb_install_snapshot \<Rightarrow> install_snapshot_args" where
  "install_snapshot_of_pb p =
     (let snapshot = (case pb_is_snapshot p of
            Some s \<Rightarrow> snapshot_of_pb s
          | None \<Rightarrow> \<lparr>last_included_index = pb_is_last_included_index p,
                    last_included_term = pb_is_last_included_term p, snap_data = []\<rparr>)
      in \<lparr>is_term = pb_is_term p, is_leader_id = pb_is_leader_id p,
          is_last_included_index = pb_is_last_included_index p,
          is_last_included_term = pb_is_last_included_term p, is_snapshot = snapshot\<rparr>)"

definition install_reply_of_pb :: "pb_install_reply \<Rightarrow> install_snapshot_reply_args" where
  "install_reply_of_pb p = \<lparr>isr_term = pb_isr_term p\<rparr>"

fun decode_domain :: "(int \<Rightarrow> pb_kind) \<Rightarrow> pb_raft_message \<Rightarrow> raft_message" where
  "decode_domain Kind (Some (PbRequestVote a)) = RequestVote (request_vote_of_pb a)"
| "decode_domain Kind (Some (PbVoteResponse a)) = VoteResponse (vote_response_of_pb a)"
| "decode_domain Kind (Some (PbAppendEntries a)) = AppendEntries (append_entries_of_pb Kind a)"
| "decode_domain Kind (Some (PbAppendReply a)) = AppendReply (append_reply_of_pb a)"
| "decode_domain Kind (Some (PbInstallSnapshot a)) = InstallSnapshot (install_snapshot_of_pb a)"
| "decode_domain Kind (Some (PbInstallSnapshotReply a)) = InstallSnapshotReply (install_reply_of_pb a)"
| "decode_domain Kind (Some (PbRequestPreVote a)) = RequestPreVote (request_vote_of_pb a)"
| "decode_domain Kind (Some (PbPreVoteResponse a)) = PreVoteResponse (vote_response_of_pb a)"
| "decode_domain Kind (Some (PbJoinCluster req)) = JoinCluster \<lparr>candidate_addr = pb_candidate_addr req\<rparr>"
| "decode_domain Kind (Some (PbJoinClusterResponse resp)) = JoinClusterResponse
     \<lparr>jc_accepted = pb_jc_accepted resp, jc_term = pb_jc_term resp, jc_leader_addr = pb_jc_leader_addr resp,
      jc_peer_addrs = pb_jc_peer_addrs resp, jc_reason = pb_jc_reason resp\<rparr>"
| "decode_domain Kind None = VoteResponse \<lparr>vr_term = 0, vote_granted = False\<rparr>"

definition tx_vote_request_of_pb :: "pb_tx_vote_request \<Rightarrow> tx_vote_request" where
  "tx_vote_request_of_pb p =
     \<lparr>tv_term = pb_tv_term p, tv_tx_id = pb_tv_tx_id p, tv_last_log_index = pb_tv_last_log_index p,
      tv_last_log_term = pb_tv_last_log_term p\<rparr>"

definition tx_vote_response_of_pb :: "pb_tx_vote_response \<Rightarrow> tx_vote_response" where
  "tx_vote_response_of_pb p =
     \<lparr>tvr_term = pb_tvr_term p, tvr_granted = pb_tvr_granted p, tvr_reason = pb_tvr_reason p\<rparr>"

section \<open>Round trip\<close>

text \<open>What the code relies on of the generated accessor: the three numbers of the schema are read as
  their constants.\<close>

definition kind_ok :: "(int \<Rightarrow> pb_kind) \<Rightarrow> bool" where
  "kind_ok Kind \<longleftrightarrow> Kind (pb_kind_number KindSimple) = KindSimple \<and> Kind (pb_kind_number KindJoint) = KindJoint"

text \<open>Commands that a client may send but a leader never replicates.\<close>

fun client_only :: "command \<Rightarrow> bool" where
  "client_only (CmdAddNode _) = True"
| "client_only (CmdRemoveNode _) = True"
| "client_only (CmdAbortTx _) = True"
| "client_only _ = False"

definition wire_command :: "command \<Rightarrow> command" where
  "wire_command c = (if client_only c then CmdCompact else c)"

definition wire_entry :: "log_entry \<Rightarrow> log_entry" where
  "wire_entry e = e\<lparr>le_command := wire_command (le_command e)\<rparr>"

fun wire_form :: "raft_message \<Rightarrow> raft_message" where
  "wire_form (AppendEntries a) = AppendEntries (a\<lparr>ae_entries := map wire_entry (ae_entries a)\<rparr>)"
| "wire_form m = m"

lemma server_pb_inverse [simp]: "server_of_pb (server_to_pb s) = s"
  by (simp add: server_of_pb_def server_to_pb_def)

lemma configuration_pb_inverse [simp]: "kind_ok Kind \<Longrightarrow> configuration_of_pb Kind (configuration_to_pb c) = c"
  by (cases c) (simp_all add: configuration_of_pb_def kind_ok_def Let_def comp_def)

lemma tx_op_pb_inverse [simp]: "tx_op_of_pb (tx_op_to_pb x) = x"
  by (cases x) simp_all

lemma decision_of_flag [simp]: "(if d = Commit then Commit else Abort) = d"
  by (cases d) simp_all

lemma command_pb_inverse [simp]: "kind_ok Kind \<Longrightarrow> command_of_pb Kind (command_to_pb c) = wire_command c"
  by (cases c) (simp_all add: wire_command_def comp_def  decision_of_flag)

lemma log_entry_pb_inverse [simp]: "kind_ok Kind \<Longrightarrow> log_entry_of_pb Kind (log_entry_to_pb e) = wire_entry e"
  by (simp add: log_entry_of_pb_def log_entry_to_pb_def wire_entry_def)

lemma args_pb_inverse [simp]:
  "request_vote_of_pb (request_vote_to_pb rv) = rv" "vote_response_of_pb (vote_response_to_pb vr) = vr"
  "append_reply_of_pb (append_reply_to_pb ar) = ar" "snapshot_of_pb (snapshot_to_pb sn) = sn"
  "install_snapshot_of_pb (install_snapshot_to_pb sa) = sa" "install_reply_of_pb (install_reply_to_pb sr) = sr"
  "tx_vote_request_of_pb (tx_vote_request_to_pb tr) = tr" "tx_vote_response_of_pb (tx_vote_response_to_pb ts) = ts"
  by (simp_all add: request_vote_of_pb_def request_vote_to_pb_def vote_response_of_pb_def vote_response_to_pb_def
      append_reply_of_pb_def append_reply_to_pb_def snapshot_of_pb_def snapshot_to_pb_def
      install_snapshot_of_pb_def install_snapshot_to_pb_def install_reply_of_pb_def install_reply_to_pb_def
      tx_vote_request_of_pb_def tx_vote_request_to_pb_def tx_vote_response_of_pb_def tx_vote_response_to_pb_def)

lemma append_entries_pb_inverse [simp]:
  "kind_ok Kind \<Longrightarrow> append_entries_of_pb Kind (append_entries_to_pb a) = a\<lparr>ae_entries := map wire_entry (ae_entries a)\<rparr>"
  by (simp add: append_entries_of_pb_def append_entries_to_pb_def comp_def)

lemma decode_encode_domain: "kind_ok Kind \<Longrightarrow> decode_domain Kind (encode_domain m) = wire_form m"
  by (cases m) simp_all

lemma wire_command_id: "wire_command c = c \<longleftrightarrow> \<not> client_only c"
  by (cases c) (simp_all add: wire_command_def)

lemma wire_entry_id: "wire_entry e = e \<longleftrightarrow> \<not> client_only (le_command e)"
  by (cases e) (simp add: wire_entry_def wire_command_id)

lemma map_wire_id: "map wire_entry es = es \<longleftrightarrow> list_all (\<lambda>e. \<not> client_only (le_command e)) es"
  by (induction es) (simp_all add: wire_entry_id)

definition replicable :: "raft_message \<Rightarrow> bool" where
  "replicable m = (case m of AppendEntries a \<Rightarrow> list_all (\<lambda>e. \<not> client_only (le_command e)) (ae_entries a) | _ \<Rightarrow> True)"

lemma wire_form_id: "wire_form m = m \<longleftrightarrow> replicable m"
proof (cases m)
  case (AppendEntries a)
  then show ?thesis by (cases a) (simp add: replicable_def map_wire_id)
qed (simp_all add: replicable_def)

text \<open>C27: Converting a message of a node to protobuf and back gives the same message exactly when it
  carries no \<open>AddNode\<close>, \<open>RemoveNode\<close> or \<open>AbortTx\<close> entry; otherwise those entries, and only those,
  arrive as \<open>Compact\<close> with their term and index. The vote messages of two-phase commit survive
  as they are.\<close>

theorem proto_roundtrip:
  assumes "kind_ok Kind"
  shows "(decode_domain Kind (encode_domain m) = m \<longleftrightarrow> replicable m) \<and>
    decode_domain Kind (encode_domain m) = wire_form m \<and>
    tx_vote_request_of_pb (tx_vote_request_to_pb req) = req \<and>
    tx_vote_response_of_pb (tx_vote_response_to_pb resp) = resp"
  using assms by (simp add: decode_encode_domain wire_form_id)

definition schema_kind :: "int \<Rightarrow> pb_kind" where
  "schema_kind i = (if i = 1 then KindSimple else if i = 2 then KindJoint else KindUnspecified)"

lemma schema_kind_ok: "kind_ok schema_kind"
  by (simp add: kind_ok_def schema_kind_def)

definition sample_append :: "command list \<Rightarrow> raft_message" where
  "sample_append cs = AppendEntries
     \<lparr>ae_term = 3, ae_leader_id = ''a'', prev_log_index = 0, prev_log_term = 0,
      ae_entries = map (\<lambda>c. \<lparr>le_term = 3, le_index = 1, le_command = c\<rparr>) cs, leader_commit = 0\<rparr>"

theorem proto_roundtrip_witness:
  "decode_domain schema_kind (encode_domain (sample_append [CmdInstallConfiguration (Joint [] [])])) =
     sample_append [CmdInstallConfiguration (Joint [] [])] \<and>
   decode_domain schema_kind (encode_domain (sample_append [CmdAbortTx ''t''])) = sample_append [CmdCompact]"
  using proto_roundtrip [OF schema_kind_ok, of "sample_append [CmdInstallConfiguration (Joint [] [])]"]
    proto_roundtrip [OF schema_kind_ok, of "sample_append [CmdAbortTx ''t'']"]
  by (simp add: replicable_def sample_append_def wire_entry_def wire_command_def)

end
