(* ===== verification/Transport.thy ===== *)
theory Transport
  imports Prelude "HOL-Library.Word"
begin

text \<open>
  The framing of \<open>src/raft/transport.rs\<close>: every request and reply on the shared port is a
  discriminator byte, a big-endian 32-bit length and that many payload bytes. Bytes are
  8-bit words and lengths 32-bit words. The reading end is the list of bytes that will arrive
  before the peer closes the connection. The writing end may break after any number of bytes.
  The lemmas show that a written frame is read back and nothing more is consumed, that a frame
  cut off anywhere is never taken for a frame, and that the receiver refuses unknown
  discriminators and oversized lengths before it reads a payload.
\<close>

unbundle bit_operations_syntax

section \<open>Bytes and lengths\<close>

type_synonym byte = "8 word"

definition to_be_bytes :: "32 word \<Rightarrow> byte list" where
  "to_be_bytes w = [ucast (drop_bit 24 w), ucast (drop_bit 16 w), ucast (drop_bit 8 w), ucast w]"

definition from_be_bytes :: "byte list \<Rightarrow> 32 word" where
  "from_be_bytes bs = foldl (\<lambda>acc b. push_bit 8 acc OR ucast b) 0 bs"

lemma length_to_be_bytes [simp]: "length (to_be_bytes w) = 4"
  by (simp add: to_be_bytes_def)

lemma from_to_be_bytes [simp]: "from_be_bytes (to_be_bytes w) = w"
proof (rule bit_word_eqI)
  fix n assume "n < LENGTH(32)"
  then have "n < 8 \<or> 8 \<le> n \<and> n < 16 \<or> 16 \<le> n \<and> n < 24 \<or> 24 \<le> n \<and> n < 32" by auto
  then show "bit (from_be_bytes (to_be_bytes w)) n = bit w n"
    by (elim disjE) (auto simp: from_be_bytes_def to_be_bytes_def bit_simps push_bit_push_bit dest: bit_imp_le_length)
qed

lemma to_from_be_bytes:
  assumes "length bs = 4"
  shows "to_be_bytes (from_be_bytes bs) = bs"
proof -
  from assms obtain a b c d where bs: "bs = [a, b, c, d]" by (auto simp: length_Suc_conv numeral_eq_Suc)
  have "n < 8 \<Longrightarrow> bit (from_be_bytes bs) (n + 24) = bit a n" "n < 8 \<Longrightarrow> bit (from_be_bytes bs) (n + 16) = bit b n"
    "n < 8 \<Longrightarrow> bit (from_be_bytes bs) (n + 8) = bit c n" "n < 8 \<Longrightarrow> bit (from_be_bytes bs) n = bit d n" for n
    by (auto simp: bs from_be_bytes_def bit_simps dest: bit_imp_le_length)
  then show ?thesis
    by (auto simp: to_be_bytes_def bs bit_simps add.commute intro!: bit_word_eqI)
qed

section \<open>The two ends of a connection\<close>

text \<open>\<open>read_exact\<close> of \<open>n\<close> bytes: at the end of the stream what was left is consumed.\<close>

definition read_exact :: "nat \<Rightarrow> byte list \<Rightarrow> (byte list, byte list) io_res" where
  "read_exact n s = (if length s < n then (Inl UnexpectedEof, []) else (Inr (take n s), drop n s))"

lemma read_exact_append [simp]: "length xs = n \<Longrightarrow> read_exact n (xs @ s) = (Inr xs, s)"
  by (simp add: read_exact_def)

lemma read_exact_short [simp]: "length s < n \<Longrightarrow> read_exact n s = (Inl UnexpectedEof, [])"
  by (simp add: read_exact_def)

text \<open>The bytes on the wire and how many more the connection takes before it breaks.\<close>

record writer =
  written :: "byte list"
  room :: nat

definition write_all :: "byte list \<Rightarrow> writer \<Rightarrow> (unit, writer) io_res" where
  "write_all bs w =
     (if length bs \<le> room w then (Inr (), w\<lparr>written := written w @ bs, room := room w - length bs\<rparr>)
      else (Inl IoOther, w\<lparr>written := written w @ take (room w) bs, room := 0\<rparr>))"

section \<open>Envelopes\<close>

datatype dispatch_kind = RaftKind | VoteKind

fun kind_byte :: "dispatch_kind \<Rightarrow> byte" where
  "kind_byte RaftKind = 0x01"
| "kind_byte VoteKind = 0x02"

definition from_byte :: "byte \<Rightarrow> dispatch_kind option" where
  "from_byte b = (if b = 0x01 then Some RaftKind else if b = 0x02 then Some VoteKind else None)"

lemma from_kind_byte [simp]: "from_byte (kind_byte k) = Some k"
  by (cases k) (simp_all add: from_byte_def)

lemma from_byte_Some: "from_byte b = Some k \<longleftrightarrow> b = kind_byte k"
  by (cases k) (auto simp: from_byte_def)

definition MAX_FRAME_BYTES :: nat where
  "MAX_FRAME_BYTES = 16 * 1024 * 1024"

definition write_envelope :: "dispatch_kind \<Rightarrow> byte list \<Rightarrow> writer \<Rightarrow> (unit, writer) io_res" where
  "write_envelope kind payload w =
     (if MAX_FRAME_BYTES < length payload then (Inl InvalidInput, w)
      else try_then (write_all [kind_byte kind] w) (\<lambda>_ w.
           try_then (write_all (to_be_bytes (of_nat (length payload))) w) (\<lambda>_ w.
           write_all payload w)))"

definition read_envelope :: "byte list \<Rightarrow> ((dispatch_kind \<times> byte list) option, byte list) io_res" where
  "read_envelope s =
     (case read_exact 1 s of
        (Inl UnexpectedEof, s) \<Rightarrow> (Inr None, s)
      | (Inl e, s) \<Rightarrow> (Inl e, s)
      | (Inr kind_buf, s) \<Rightarrow>
          (case from_byte (hd kind_buf) of
             None \<Rightarrow> (Inl InvalidData, s)
           | Some kind \<Rightarrow>
               try_then (read_exact 4 s) (\<lambda>len_buf s.
               let len = unat (from_be_bytes len_buf)
               in if MAX_FRAME_BYTES < len then (Inl InvalidData, s)
                  else try_then (read_exact len s) (\<lambda>payload s. (Inr (Some (kind, payload)), s)))))"

definition read_envelope_discriminator :: "byte list \<Rightarrow> (dispatch_kind option, byte list) io_res" where
  "read_envelope_discriminator s =
     (case read_exact 1 s of
        (Inl UnexpectedEof, s) \<Rightarrow> (Inr None, s)
      | (Inl e, s) \<Rightarrow> (Inl e, s)
      | (Inr kind_buf, s) \<Rightarrow>
          (case from_byte (hd kind_buf) of
             None \<Rightarrow> (Inl InvalidData, s)
           | Some kind \<Rightarrow> (Inr (Some kind), s)))"

definition read_envelope_payload :: "byte list \<Rightarrow> (byte list option, byte list) io_res" where
  "read_envelope_payload s =
     (case read_exact 4 s of
        (Inl UnexpectedEof, s) \<Rightarrow> (Inr None, s)
      | (Inl e, s) \<Rightarrow> (Inl e, s)
      | (Inr len_buf, s) \<Rightarrow>
          (let len = unat (from_be_bytes len_buf)
           in if MAX_FRAME_BYTES < len then (Inl InvalidData, s)
              else try_then (read_exact len s) (\<lambda>payload s. (Inr (Some payload), s))))"

text \<open>The bytes of a frame.\<close>

definition frame :: "dispatch_kind \<Rightarrow> byte list \<Rightarrow> byte list" where
  "frame kind payload = kind_byte kind # to_be_bytes (of_nat (length payload)) @ payload"

lemma length_frame [simp]: "length (frame kind payload) = 5 + length payload"
  by (simp add: frame_def)

lemma max_frame_fits: "n \<le> MAX_FRAME_BYTES \<Longrightarrow> unat (of_nat n :: 32 word) = n"
  by (simp add: unat_of_nat MAX_FRAME_BYTES_def)

lemma write_all_written:
  "written (snd (write_all bs w)) = written w @ take (room w) bs"
  "room (snd (write_all bs w)) = room w - length bs"
  "fst (write_all bs w) = (if length bs \<le> room w then Inr () else Inl IoOther)"
  by (simp_all add: write_all_def)

lemma write_envelope_fit:
  assumes "length payload \<le> MAX_FRAME_BYTES" "5 + length payload \<le> room w"
  shows "write_envelope kind payload w =
    (Inr (), w\<lparr>written := written w @ frame kind payload, room := room w - (5 + length payload)\<rparr>)"
proof -
  obtain r where "room w = Suc (Suc (Suc (Suc (Suc (length payload + r)))))"
    using le_Suc_ex [OF assms(2)] by auto
  then show ?thesis using assms(1) by (simp add: write_envelope_def write_all_def frame_def)
qed

text \<open>Whatever happens, the wire holds a prefix of the frame, cut where the connection broke.\<close>

lemma write_envelope_written:
  assumes "length payload \<le> MAX_FRAME_BYTES"
  shows "written (snd (write_envelope kind payload w)) = written w @ take (room w) (frame kind payload)"
    and "fst (write_envelope kind payload w) = (if 5 + length payload \<le> room w then Inr () else Inl IoOther)"
  using assms by (auto simp: write_envelope_def write_all_def frame_def take_Cons' not_le)

lemma read_frame:
  assumes "length payload \<le> MAX_FRAME_BYTES"
  shows "read_envelope (frame kind payload @ rest) = (Inr (Some (kind, payload)), rest)"
    and "read_envelope_discriminator (frame kind payload @ rest) =
      (Inr (Some kind), to_be_bytes (of_nat (length payload)) @ payload @ rest)"
    and "read_envelope_payload (to_be_bytes (of_nat (length payload)) @ payload @ rest) = (Inr (Some payload), rest)"
  using assms read_exact_append [of "[kind_byte kind]" 1]
  by (simp_all add: read_envelope_def read_envelope_discriminator_def read_envelope_payload_def frame_def
      max_frame_fits read_exact_def)

text \<open>Reading in two steps, as the dispatcher does, and a stream that ends inside the frame.\<close>

lemma read_envelope_split:
  "read_envelope s =
     (case read_envelope_discriminator s of
        (Inl e, s') \<Rightarrow> (Inl e, s')
      | (Inr None, s') \<Rightarrow> (Inr None, s')
      | (Inr (Some kind), s') \<Rightarrow>
          (if length s' < 4 then (Inl UnexpectedEof, [])
           else case read_envelope_payload s' of
                  (Inl e, s'') \<Rightarrow> (Inl e, s'')
                | (Inr p, s'') \<Rightarrow> (Inr (map_option (Pair kind) p), s'')))"
  by (auto simp: read_envelope_def read_envelope_discriminator_def read_envelope_payload_def read_exact_def Let_def
      split: option.splits)

lemma read_truncated_frame:
  assumes "length payload \<le> MAX_FRAME_BYTES" "n < 5 + length payload"
  shows "read_envelope (take n (frame kind payload)) = (if n = 0 then Inr None else Inl UnexpectedEof, [])"
proof (cases n)
  case (Suc m)
  let ?l = "to_be_bytes (of_nat (length payload))"
  have s: "take n (frame kind payload) = kind_byte kind # take m ?l @ take (m - 4) payload"
    using Suc by (simp add: frame_def)
  show ?thesis
  proof (cases "m < 4")
    case True
    then show ?thesis unfolding s using Suc by (simp add: read_envelope_def read_exact_def)
  next
    case False
    then have "length (take (m - 4) payload) < length payload" using assms Suc by auto
    then show ?thesis unfolding s using Suc False assms by (simp add: read_envelope_def read_exact_def max_frame_fits)
  qed
qed (simp add: read_envelope_def)

text \<open>Whatever is delivered was on the wire.\<close>

lemma read_envelope_delivers:
  assumes "read_envelope s = (Inr (Some (k, p)), rest)"
  shows "s = frame k p @ rest" and "length p \<le> MAX_FRAME_BYTES"
proof -
  from assms obtain b s1 where s: "s = b # s1" and k: "from_byte b = Some k"
    by (cases s) (auto simp: read_envelope_def read_exact_def Let_def try_then_def
      split: option.splits if_splits prod.splits sum.splits)
  define len where "len = unat (from_be_bytes (take 4 s1))"
  have l: "\<not> length s1 < 4" "len \<le> MAX_FRAME_BYTES" "\<not> length (drop 4 s1) < len"
      "p = take len (drop 4 s1)" "rest = drop len (drop 4 s1)"
    using assms k by (auto simp: s read_envelope_def read_exact_def Let_def try_then_def len_def not_less
      split: if_splits)
  then have "length p = len" by simp
  then show "length p \<le> MAX_FRAME_BYTES" using l by simp
  have "(of_nat len :: 32 word) = from_be_bytes (take 4 s1)" by (simp add: len_def)
  then have "to_be_bytes (of_nat (length p)) = take 4 s1"
    using l \<open>length p = len\<close> by (simp add: to_from_be_bytes)
  moreover have "s1 = take 4 s1 @ p @ rest" unfolding l(4,5) by (simp only: append_take_drop_id)
  ultimately show "s = frame k p @ rest" using k by (simp add: s frame_def from_byte_Some)
qed

section \<open>Properties of the framing\<close>

text \<open>A payload of at most 16 MiB written to a connection that stays up is read back with its
  discriminator, by \<open>read_envelope\<close> and by the two-step reading of the dispatcher alike, and the
  reader stops exactly where the next frame starts.\<close>

theorem envelope_roundtrip:
  assumes "length payload \<le> MAX_FRAME_BYTES" "length payload + 5 \<le> room w" "written w = []"
  shows "fst (write_envelope kind payload w) = Inr () \<and>
    read_envelope (written (snd (write_envelope kind payload w)) @ rest) = (Inr (Some (kind, payload)), rest) \<and>
    fst (read_envelope_discriminator (written (snd (write_envelope kind payload w)) @ rest)) = Inr (Some kind) \<and>
    read_envelope_payload (snd (read_envelope_discriminator (written (snd (write_envelope kind payload w)) @ rest))) =
      (Inr (Some payload), rest)"
  using assms by (simp add: write_envelope_fit read_frame)

theorem envelope_roundtrip_witness:
  "read_envelope (written (snd (write_envelope VoteKind [7, 8] \<lparr>written = [], room = 100\<rparr>)) @ [1, 9]) =
     (Inr (Some (VoteKind, [7, 8])), [1, 9]) \<and>
   written (snd (write_envelope VoteKind [7, 8] \<lparr>written = [], room = 100\<rparr>)) = [2, 0, 0, 0, 2, 7, 8]"
proof
  show "read_envelope (written (snd (write_envelope VoteKind [7, 8] \<lparr>written = [], room = 100\<rparr>)) @ [1, 9]) =
     (Inr (Some (VoteKind, [7, 8])), [1, 9])"
    using envelope_roundtrip [of "[7, 8]" "\<lparr>written = [], room = 100\<rparr>" VoteKind "[1, 9]"]
    by (simp add: MAX_FRAME_BYTES_def)
  show "written (snd (write_envelope VoteKind [7, 8] \<lparr>written = [], room = 100\<rparr>)) = [2, 0, 0, 0, 2, 7, 8]"
    by (simp add: write_envelope_fit frame_def MAX_FRAME_BYTES_def to_be_bytes_def)
qed

text \<open>C28: When the connection breaks while a frame is written, the writer reports an error and the
  reader finds either the end of the stream or \<open>UnexpectedEof\<close>, never a frame. A payload over the
  limit is refused before a byte is written. On any input at all, a frame that is delivered has a
  known discriminator, a payload of at most 16 MiB and was on the wire byte for byte; unknown
  discriminators and longer lengths are \<open>InvalidData\<close>.\<close>

theorem torn_frame_rejected:
  shows "(room w < 5 + length payload \<and> length payload \<le> MAX_FRAME_BYTES \<and> written w = [] \<longrightarrow>
      fst (write_envelope kind payload w) = Inl IoOther \<and>
      fst (read_envelope (written (snd (write_envelope kind payload w)))) = (if room w = 0 then Inr None else Inl UnexpectedEof)) \<and>
    (MAX_FRAME_BYTES < length payload \<longrightarrow> write_envelope kind payload w = (Inl InvalidInput, w)) \<and>
    (read_envelope s = (Inr (Some (k, p)), rest) \<longrightarrow> s = frame k p @ rest \<and> length p \<le> MAX_FRAME_BYTES) \<and>
    (from_byte b = None \<longrightarrow> read_envelope (b # s) = (Inl InvalidData, s)) \<and>
    (MAX_FRAME_BYTES < unat l \<longrightarrow> read_envelope (kind_byte kind # to_be_bytes l @ s) = (Inl InvalidData, s))"
proof (intro conjI impI)
  assume a: "room w < 5 + length payload \<and> length payload \<le> MAX_FRAME_BYTES \<and> written w = []"
  then show "fst (write_envelope kind payload w) = Inl IoOther"
    "fst (read_envelope (written (snd (write_envelope kind payload w)))) = (if room w = 0 then Inr None else Inl UnexpectedEof)"
    by (simp_all add: write_envelope_written read_truncated_frame)
next
  assume "read_envelope s = (Inr (Some (k, p)), rest)"
  from read_envelope_delivers [OF this] show "s = frame k p @ rest" "length p \<le> MAX_FRAME_BYTES" .
next
  assume "from_byte b = None"
  then show "read_envelope (b # s) = (Inl InvalidData, s)" by (simp add: read_envelope_def read_exact_def)
next
  assume "MAX_FRAME_BYTES < unat l"
  then show "read_envelope (kind_byte kind # to_be_bytes l @ s) = (Inl InvalidData, s)"
    by (simp add: read_envelope_def read_exact_def)
qed (simp add: write_envelope_def)

theorem torn_frame_rejected_witness:
  "fst (write_envelope RaftKind [7, 8] \<lparr>written = [], room = 6\<rparr>) = Inl IoOther \<and>
   fst (read_envelope (written (snd (write_envelope RaftKind [7, 8] \<lparr>written = [], room = 6\<rparr>)))) = Inl UnexpectedEof \<and>
   read_envelope [3, 0, 0] = (Inl InvalidData, [0, 0])"
  using torn_frame_rejected [of "\<lparr>written = [], room = 6\<rparr>" "[7, 8]" RaftKind "[0, 0]" RaftKind "[]" "[]" 3 0]
  by (simp add: MAX_FRAME_BYTES_def from_byte_def)

end
