(* ===== verification/RpcServer.thy ===== *)
theory RpcServer
  imports Proto Transport Node_Examples "HOL-Library.Multiset"
begin

text \<open>
  \<open>RpcClient\<close> and \<open>RpcServer\<close> of \<open>src/raft/rpc.rs\<close>: a call writes one request frame and reads
  one reply frame; the dispatcher reads the discriminator, then the payload, decodes the message,
  runs the handler of the node under its lock and writes the reply. The protobuf codec of the
  \<open>prost\<close> library is a parameter. A handler that panics gives \<open>None\<close>. The lemmas show that a
  call over the wire is the call of the handler, that no sequence of bytes does more than one
  handler would, and that a request that is cut off leaves the node alone.
\<close>

record prost =
  prost_encode :: "pb_raft_message \<Rightarrow> byte list"
  prost_decode :: "byte list \<Rightarrow> pb_raft_message option"
  prost_encode_request :: "pb_tx_vote_request \<Rightarrow> byte list"
  prost_decode_request :: "byte list \<Rightarrow> pb_tx_vote_request option"
  prost_encode_response :: "pb_tx_vote_response \<Rightarrow> byte list"
  prost_decode_response :: "byte list \<Rightarrow> pb_tx_vote_response option"
  prost_kind :: "int \<Rightarrow> pb_kind"

text \<open>What \<open>anyhow::Error\<close> carries here.\<close>

datatype rpc_error =
    RpcIo io_error
  | RpcDecode
  | RpcPeerClosed
  | RpcUnexpectedReply
  | RpcWrongDiscriminator dispatch_kind

section \<open>The client\<close>

text \<open>\<open>connect\<close> is the outcome of connecting within the timeout, \<open>replies\<close> what the peer sends back
  before it closes the connection.\<close>

definition call :: "prost \<Rightarrow> io_error + unit \<Rightarrow> raft_message \<Rightarrow> writer \<Rightarrow> byte list \<Rightarrow> (rpc_error + raft_message) \<times> writer" where
  "call P connect msg w replies =
     (case connect of Inl e \<Rightarrow> (Inl (RpcIo e), w) | Inr _ \<Rightarrow>
      (case write_envelope RaftKind (prost_encode P (encode_domain msg)) w of
         (Inl e, w) \<Rightarrow> (Inl (RpcIo e), w)
       | (Inr _, w) \<Rightarrow>
           (case read_envelope replies of
              (Inl e, _) \<Rightarrow> (Inl (RpcIo e), w)
            | (Inr None, _) \<Rightarrow> (Inl RpcPeerClosed, w)
            | (Inr (Some (_, resp_buf)), _) \<Rightarrow>
                (case prost_decode P resp_buf of
                   None \<Rightarrow> (Inl RpcDecode, w)
                 | Some resp_pb \<Rightarrow> (Inr (decode_domain (prost_kind P) resp_pb), w)))))"

definition send_install_snapshot_rpc :: "prost \<Rightarrow> io_error + unit \<Rightarrow> install_snapshot_args \<Rightarrow> writer \<Rightarrow> byte list
    \<Rightarrow> (rpc_error + install_snapshot_reply_args) \<times> writer" where
  "send_install_snapshot_rpc P connect args w replies =
     (case call P connect (InstallSnapshot args) w replies of
        (Inl e, w) \<Rightarrow> (Inl e, w)
      | (Inr (InstallSnapshotReply reply), w) \<Rightarrow> (Inr reply, w)
      | (Inr _, w) \<Rightarrow> (Inl RpcUnexpectedReply, w))"

definition send_tx_vote_rpc :: "prost \<Rightarrow> io_error + unit \<Rightarrow> tx_vote_request \<Rightarrow> writer \<Rightarrow> byte list
    \<Rightarrow> (rpc_error + tx_vote_response) \<times> writer" where
  "send_tx_vote_rpc P connect req w replies =
     (case connect of Inl e \<Rightarrow> (Inl (RpcIo e), w) | Inr _ \<Rightarrow>
      (case write_envelope VoteKind (prost_encode_request P (tx_vote_request_to_pb req)) w of
         (Inl e, w) \<Rightarrow> (Inl (RpcIo e), w)
       | (Inr _, w) \<Rightarrow>
           (case read_envelope replies of
              (Inl e, _) \<Rightarrow> (Inl (RpcIo e), w)
            | (Inr None, _) \<Rightarrow> (Inl RpcPeerClosed, w)
            | (Inr (Some (kind, resp_buf)), _) \<Rightarrow>
                (if kind \<noteq> VoteKind then (Inl (RpcWrongDiscriminator kind), w)
                 else case prost_decode_response P resp_buf of
                        None \<Rightarrow> (Inl RpcDecode, w)
                      | Some resp_pb \<Rightarrow> (Inr (tx_vote_response_of_pb resp_pb), w)))))"

section \<open>The server\<close>

text \<open>The handlers by message: the reply, or \<open>None\<close> for a message that is no request.\<close>

fun serve_message :: "('b, 'w, 'c) node_env \<Rightarrow> nat \<Rightarrow> raft_message \<Rightarrow> ('b, 'w, 'c) raft_node
    \<Rightarrow> (raft_message option \<times> ('b, 'w, 'c) raft_node) option" where
  "serve_message V now (RequestVote args) n =
     (case handle_request_vote V now args n of (reply, n) \<Rightarrow> Some (Some (VoteResponse reply), n))"
| "serve_message V now (RequestPreVote args) n =
     (case handle_pre_vote now args n of (reply, n) \<Rightarrow> Some (Some (PreVoteResponse reply), n))"
| "serve_message V now (AppendEntries args) n =
     (case handle_append_entries V now args n of (reply, n) \<Rightarrow> Some (Some (AppendReply reply), n))"
| "serve_message V now (InstallSnapshot args) n =
     (case handle_install_snapshot V now args n of
        None \<Rightarrow> None
      | Some (reply, n) \<Rightarrow> Some (Some (InstallSnapshotReply reply), n))"
| "serve_message V now (JoinCluster req) n = Some (Some (JoinClusterResponse (handle_join_cluster req n)), n)"
| "serve_message V now _ n = Some (None, n)"

definition handle_raft_rpc_inner :: "prost \<Rightarrow> ('b, 'w, 'c) node_env \<Rightarrow> nat \<Rightarrow> byte list \<Rightarrow> writer \<Rightarrow> ('b, 'w, 'c) raft_node
    \<Rightarrow> ((rpc_error + unit) \<times> writer \<times> ('b, 'w, 'c) raft_node) option" where
  "handle_raft_rpc_inner P V now reader w n =
     (case read_envelope_payload reader of
        (Inl e, _) \<Rightarrow> Some (Inl (RpcIo e), w, n)
      | (Inr None, _) \<Rightarrow> Some (Inr (), w, n)
      | (Inr (Some req_buf), _) \<Rightarrow>
          (case prost_decode P req_buf of
             None \<Rightarrow> Some (Inl RpcDecode, w, n)
           | Some req_pb \<Rightarrow>
               (case serve_message V now (decode_domain (prost_kind P) req_pb) n of
                  None \<Rightarrow> None
                | Some (None, n) \<Rightarrow> Some (Inr (), w, n)
                | Some (Some response, n) \<Rightarrow>
                    (case write_envelope RaftKind (prost_encode P (encode_domain response)) w of
                       (Inl e, w) \<Rightarrow> Some (Inl (RpcIo e), w, n)
                     | (Inr _, w) \<Rightarrow> Some (Inr (), w, n)))))"

definition handle_vote_rpc_inner :: "prost \<Rightarrow> ('b, 'w, 'c) node_env \<Rightarrow> byte list \<Rightarrow> writer \<Rightarrow> ('b, 'w, 'c) raft_node
    \<Rightarrow> ((rpc_error + unit) \<times> writer \<times> ('b, 'w, 'c) raft_node) option" where
  "handle_vote_rpc_inner P V reader w n =
     (case read_envelope_payload reader of
        (Inl e, _) \<Rightarrow> Some (Inl (RpcIo e), w, n)
      | (Inr None, _) \<Rightarrow> Some (Inr (), w, n)
      | (Inr (Some req_buf), _) \<Rightarrow>
          (case prost_decode_request P req_buf of
             None \<Rightarrow> Some (Inl RpcDecode, w, n)
           | Some req_pb \<Rightarrow>
               (case handle_tx_vote_request V (tx_vote_request_of_pb req_pb) n of (reply, n) \<Rightarrow>
                  (case write_envelope VoteKind (prost_encode_response P (tx_vote_response_to_pb reply)) w of
                     (Inl e, w) \<Rightarrow> Some (Inl (RpcIo e), w, n)
                   | (Inr _, w) \<Rightarrow> Some (Inr (), w, n)))))"

definition dispatch_logic :: "prost \<Rightarrow> ('b, 'w, 'c) node_env \<Rightarrow> nat \<Rightarrow> byte list \<Rightarrow> writer \<Rightarrow> ('b, 'w, 'c) raft_node
    \<Rightarrow> ((rpc_error + unit) \<times> writer \<times> ('b, 'w, 'c) raft_node) option" where
  "dispatch_logic P V now reader w n =
     (case read_envelope_discriminator reader of
        (Inl e, _) \<Rightarrow> Some (Inl (RpcIo e), w, n)
      | (Inr None, _) \<Rightarrow> Some (Inr (), w, n)
      | (Inr (Some RaftKind), reader) \<Rightarrow> handle_raft_rpc_inner P V now reader w n
      | (Inr (Some VoteKind), reader) \<Rightarrow> handle_vote_rpc_inner P V reader w n)"

section \<open>A call is the call of the handler\<close>

text \<open>A message as it comes out of the codec: a map field keeps its entries, not their order.\<close>

fun same_pb :: "pb_raft_message \<Rightarrow> pb_raft_message \<Rightarrow> bool" where
  "same_pb (Some (PbInstallSnapshot a)) (Some (PbInstallSnapshot b)) \<longleftrightarrow>
     (case (pb_is_snapshot a, pb_is_snapshot b) of
        (Some s, Some s') \<Rightarrow> b = a\<lparr>pb_is_snapshot := Some (s\<lparr>pb_snap_data := pb_snap_data s'\<rparr>)\<rparr> \<and>
          mset (pb_snap_data s) = mset (pb_snap_data s')
      | _ \<Rightarrow> a = b)"
| "same_pb m m' \<longleftrightarrow> m = m'"

fun same_message :: "raft_message \<Rightarrow> raft_message \<Rightarrow> bool" where
  "same_message (InstallSnapshot a) (InstallSnapshot b) \<longleftrightarrow>
     b = a\<lparr>is_snapshot := (is_snapshot a)\<lparr>snap_data := snap_data (is_snapshot b)\<rparr>\<rparr> \<and>
     mset (snap_data (is_snapshot a)) = mset (snap_data (is_snapshot b))"
| "same_message m m' \<longleftrightarrow> m = m'"

definition reads_back :: "prost \<Rightarrow> pb_raft_message \<Rightarrow> bool" where
  "reads_back P m \<longleftrightarrow> length (prost_encode P m) \<le> MAX_FRAME_BYTES \<and>
     (\<exists>m'. prost_decode P (prost_encode P m) = Some m' \<and> same_pb m m')"

lemma same_pb_eq: "\<nexists>a. m = Some (PbInstallSnapshot a) \<Longrightarrow> same_pb m m' \<longleftrightarrow> m = m'"
  by (cases "(m, m')" rule: same_pb.cases) auto

lemma same_pb_decode:
  assumes "kind_ok Kind" "same_pb (encode_domain m) p"
  shows "same_message (wire_form m) (decode_domain Kind p)"
proof (cases m)
  case (InstallSnapshot a)
  then obtain b where b: "p = Some (PbInstallSnapshot b)" "same_pb (encode_domain m) (Some (PbInstallSnapshot b))"
    using assms by (cases p rule: option.exhaust; cases "the p") (auto split: option.splits)
  then obtain s where s: "pb_is_snapshot b = Some s"
      "b = (install_snapshot_to_pb a)\<lparr>pb_is_snapshot := Some ((snapshot_to_pb (is_snapshot a))\<lparr>pb_snap_data := pb_snap_data s\<rparr>)\<rparr>"
      "mset (snap_data (is_snapshot a)) = mset (pb_snap_data s)"
    using InstallSnapshot
    by (auto simp: install_snapshot_to_pb_def snapshot_to_pb_def split: option.splits)
  have "install_snapshot_of_pb b = a\<lparr>is_snapshot := (is_snapshot a)\<lparr>snap_data := pb_snap_data s\<rparr>\<rparr>"
    unfolding s(2) by (simp add: install_snapshot_to_pb_def install_snapshot_of_pb_def snapshot_to_pb_def snapshot_of_pb_def)
  then show ?thesis using InstallSnapshot b(1) s(3) by simp
qed (use assms in \<open>auto simp: same_pb_eq decode_encode_domain\<close>)

text \<open>Replies are no messages that the codec could reorder or rewrite.\<close>

lemma serve_message_reply:
  assumes "serve_message V now msg n = Some (Some reply, m)"
  shows "wire_form reply = reply" and "same_message reply r \<Longrightarrow> r = reply"
  using assms by (cases msg; auto split: option.splits prod.splits)+

lemma call_request:
  assumes "length (prost_encode P (encode_domain msg)) \<le> MAX_FRAME_BYTES" "written w = []"
    and "length (prost_encode P (encode_domain msg)) + 5 \<le> room w"
  shows "written (snd (call P (Inr ()) msg w replies)) = frame RaftKind (prost_encode P (encode_domain msg))"
  using assms by (auto simp: call_def write_envelope_fit split: prod.splits sum.splits option.splits)

lemma call_reply:
  assumes "length (prost_encode P (encode_domain msg)) \<le> MAX_FRAME_BYTES"
    and "length (prost_encode P (encode_domain msg)) + 5 \<le> room w" and "length payload \<le> MAX_FRAME_BYTES"
  shows "fst (call P (Inr ()) msg w (frame kind payload)) =
    (case prost_decode P payload of None \<Rightarrow> Inl RpcDecode | Some m \<Rightarrow> Inr (decode_domain (prost_kind P) m))"
  using assms read_frame(1) [OF assms(3), of kind "[]"] by (simp add: call_def write_envelope_fit split: option.splits)

lemma dispatch_frame:
  assumes "length payload \<le> MAX_FRAME_BYTES"
  shows "dispatch_logic P V now (frame kind payload) w n =
    (case kind of
       RaftKind \<Rightarrow> handle_raft_rpc_inner P V now (to_be_bytes (of_nat (length payload)) @ payload) w n
     | VoteKind \<Rightarrow> handle_vote_rpc_inner P V (to_be_bytes (of_nat (length payload)) @ payload) w n)"
  using read_frame(2) [OF assms, of kind "[]"] by (cases kind) (simp_all add: dispatch_logic_def)

text \<open>C13: A call over the wire is a call of the handler. When the codec reads back the request and
  the reply and both fit the frame limit and the connection, the dispatcher that receives the bytes
  written by \<open>call\<close> runs the handler of that message once on the node, and \<open>call\<close>, given the bytes
  the dispatcher wrote, returns the handler's reply. (The entries of a snapshot may arrive in
  another order, and client-only commands as \<open>Compact\<close>.)\<close>

theorem rpc_call_runs_handler:
  assumes "kind_ok (prost_kind P)" and "reads_back P (encode_domain msg)"
    and "written w = []" and "length (prost_encode P (encode_domain msg)) + 5 \<le> room w" and "written v = []"
  shows "\<exists>msg'. same_message (wire_form msg) msg' \<and>
    (\<forall>reply m. serve_message V now msg' n = Some (Some reply, m) \<and> reads_back P (encode_domain reply) \<and>
       length (prost_encode P (encode_domain reply)) + 5 \<le> room v \<longrightarrow>
       (\<exists>v'. dispatch_logic P V now (written (snd (call P (Inr ()) msg w []))) v n = Some (Inr (), v', m) \<and>
          fst (call P (Inr ()) msg w (written v')) = Inr reply))"
proof -
  let ?p = "prost_encode P (encode_domain msg)"
  from assms(2) obtain pb where l: "length ?p \<le> MAX_FRAME_BYTES"
      and d: "prost_decode P ?p = Some pb" "same_pb (encode_domain msg) pb"
    by (auto simp: reads_back_def)
  define msg' where "msg' = decode_domain (prost_kind P) pb"
  have "\<exists>v'. dispatch_logic P V now (frame RaftKind ?p) v n = Some (Inr (), v', m) \<and>
      fst (call P (Inr ()) msg w (written v')) = Inr reply"
    if s: "serve_message V now msg' n = Some (Some reply, m)" and rb: "reads_back P (encode_domain reply)"
      and fit: "length (prost_encode P (encode_domain reply)) + 5 \<le> room v" for reply m
  proof -
    let ?q = "prost_encode P (encode_domain reply)"
    from rb obtain qb where q: "length ?q \<le> MAX_FRAME_BYTES" "prost_decode P ?q = Some qb"
        "same_pb (encode_domain reply) qb"
      by (auto simp: reads_back_def)
    have r: "decode_domain (prost_kind P) qb = reply"
      using same_pb_decode [OF assms(1) q(3)] serve_message_reply [OF s] by simp
    have "dispatch_logic P V now (frame RaftKind ?p) v n =
        Some (Inr (), v\<lparr>written := frame RaftKind ?q, room := room v - (5 + length ?q)\<rparr>, m)"
      using l d(1) s q fit assms(5) read_frame(3) [OF l, of "[]"]
      by (simp add: dispatch_frame handle_raft_rpc_inner_def msg'_def write_envelope_fit)
    moreover have "fst (call P (Inr ()) msg w (frame RaftKind ?q)) = Inr reply"
      using call_reply [OF l assms(4) q(1), of RaftKind] q(2) r by simp
    ultimately show ?thesis by auto
  qed
  then show ?thesis
    using same_pb_decode [OF assms(1) d(2)] call_request [OF l assms(3,4), of "[]"]
    by (intro exI [of _ msg']) (auto simp: msg'_def)
qed

text \<open>The steps a dispatcher can take, on any input.\<close>

lemma serve_message_step:
  "serve_message V now msg n = Some (r, m) \<Longrightarrow> m = n \<or> local_step V n m"
  using local_step.request_vote [of V n now] local_step.pre_vote [of V n now] local_step.append [of V n now]
  by (cases msg) (auto split: option.splits prod.splits dest: local_step.snapshot; metis snd_conv)+

lemma handle_raft_rpc_step:
  "handle_raft_rpc_inner P V now s w n = Some (r, w', m) \<Longrightarrow>
     m = n \<or> local_step V n m \<and> (\<exists>p s'. read_envelope_payload s = (Inr (Some p), s'))"
  using serve_message_step [of V now _ n]
  by (auto simp: handle_raft_rpc_inner_def split: prod.splits sum.splits option.splits; metis)

lemma handle_vote_rpc_step:
  "handle_vote_rpc_inner P V s w n = Some (r, w', m) \<Longrightarrow>
     m = n \<or> local_step V n m \<and> (\<exists>p s'. read_envelope_payload s = (Inr (Some p), s'))"
  using local_step.tx_vote [of V n]
  by (auto simp: handle_vote_rpc_inner_def split: prod.splits sum.splits option.splits; metis snd_conv)

lemma dispatch_step:
  assumes "dispatch_logic P V now s w n = Some (r, w', m)" "m \<noteq> n"
  shows "local_step V n m" and "\<exists>kind p rest. s = frame kind p @ rest \<and> length p \<le> MAX_FRAME_BYTES"
proof -
  from assms obtain kind s' where k: "read_envelope_discriminator s = (Inr (Some kind), s')"
      and h: "case kind of RaftKind \<Rightarrow> handle_raft_rpc_inner P V now s' w n = Some (r, w', m)
        | VoteKind \<Rightarrow> handle_vote_rpc_inner P V s' w n = Some (r, w', m)"
    by (auto simp: dispatch_logic_def split: prod.splits sum.splits option.splits dispatch_kind.splits)
  from h assms(2) have "local_step V n m \<and> (\<exists>p s''. read_envelope_payload s' = (Inr (Some p), s''))"
    by (cases kind) (auto dest: handle_raft_rpc_step handle_vote_rpc_step)
  then obtain p s'' where st: "local_step V n m" and p: "read_envelope_payload s' = (Inr (Some p), s'')" by blast
  from p have "\<not> length s' < 4" by (auto simp: read_envelope_payload_def)
  with k p have "read_envelope s = (Inr (Some (kind, p)), s'')" by (simp add: read_envelope_split)
  from read_envelope_delivers [OF this]
  show "\<exists>kind p rest. s = frame kind p @ rest \<and> length p \<le> MAX_FRAME_BYTES" by blast
  show "local_step V n m" by (rule st)
qed

text \<open>Whatever bytes a peer sends, a connection cannot harm a node: the dispatcher changes the
  node only when the bytes start with a complete frame within the size limit, and then the
  invariant of the node holds afterwards, its term has not decreased and its vote in that term
  has not changed.\<close>

theorem dispatch_safe_on_any_bytes:
  assumes "dispatch_logic P V now s w n = Some (r, w', m)" and "node_inv V n"
  shows "node_inv V m \<and> current_term n \<le> current_term m \<and>
    (current_term m = current_term n \<and> vote_for n \<noteq> None \<longrightarrow> vote_for m = vote_for n) \<and>
    (m \<noteq> n \<longrightarrow> (\<exists>kind p rest. s = frame kind p @ rest \<and> length p \<le> MAX_FRAME_BYTES))"
proof (cases "m = n")
  case False
  note st = dispatch_step [OF assms(1) False]
  have "vote_le n m" using vote_le_local [OF st(1) assms(2)] .
  then show ?thesis using node_inv_local [OF st(1) assms(2)] st(2) by (auto simp: vote_le_def)
qed (use assms in simp)

text \<open>The vote round trip of two-phase commit: the dispatcher runs \<open>handle_tx_vote_request\<close> once on
  the decoded request and the coordinator receives its vote; a reply frame with the Raft
  discriminator is refused.\<close>

theorem tx_vote_rpc_runs_handler:
  assumes "prost_decode_request P (prost_encode_request P (tx_vote_request_to_pb req)) = Some (tx_vote_request_to_pb req)"
    and "prost_decode_response P (prost_encode_response P (tx_vote_response_to_pb reply)) = Some (tx_vote_response_to_pb reply)"
    and "length (prost_encode_request P (tx_vote_request_to_pb req)) \<le> MAX_FRAME_BYTES"
    and "length (prost_encode_response P (tx_vote_response_to_pb reply)) \<le> MAX_FRAME_BYTES"
    and "length (prost_encode_request P (tx_vote_request_to_pb req)) + 5 \<le> room w"
    and "length (prost_encode_response P (tx_vote_response_to_pb reply)) + 5 \<le> room v"
    and "written w = []" and "written v = []" and "handle_tx_vote_request V req n = (reply, m)"
  shows "\<exists>v'. dispatch_logic P V now (written (snd (send_tx_vote_rpc P (Inr ()) req w []))) v n = Some (Inr (), v', m) \<and>
      fst (send_tx_vote_rpc P (Inr ()) req w (written v')) = Inr reply \<and>
      fst (send_tx_vote_rpc P (Inr ()) req w (frame RaftKind [])) = Inl (RpcWrongDiscriminator RaftKind)"
proof -
  let ?p = "prost_encode_request P (tx_vote_request_to_pb req)"
  let ?q = "prost_encode_response P (tx_vote_response_to_pb reply)"
  have w: "written (snd (send_tx_vote_rpc P (Inr ()) req w [])) = frame VoteKind ?p"
    using assms(3,5,7) by (auto simp: send_tx_vote_rpc_def write_envelope_fit split: prod.splits sum.splits option.splits)
  have "dispatch_logic P V now (frame VoteKind ?p) v n =
      Some (Inr (), v\<lparr>written := frame VoteKind ?q, room := room v - (5 + length ?q)\<rparr>, m)"
    using assms read_frame(3) [OF assms(3), of "[]"]
    by (simp add: dispatch_frame handle_vote_rpc_inner_def write_envelope_fit)
  moreover have "fst (send_tx_vote_rpc P (Inr ()) req w (frame VoteKind ?q)) = Inr reply"
    using assms read_frame(1) [OF assms(4), of VoteKind "[]"] by (simp add: send_tx_vote_rpc_def write_envelope_fit)
  moreover have "fst (send_tx_vote_rpc P (Inr ()) req w (frame RaftKind [])) = Inl (RpcWrongDiscriminator RaftKind)"
    using assms read_frame(1) [of "[]" RaftKind "[]"] by (simp add: send_tx_vote_rpc_def write_envelope_fit)
  ultimately show ?thesis unfolding w by auto
qed

section \<open>Examples\<close>

definition ask_args :: request_vote_args where
  "ask_args = \<lparr>rv_term = 1, candidate_id = ''a'', rv_last_log_index = 0, rv_last_log_term = 0\<rparr>"

definition tx_ask :: tx_vote_request where
  "tx_ask = \<lparr>tv_term = 1, tv_tx_id = ''t'', tv_last_log_index = 0, tv_last_log_term = 0\<rparr>"

definition granted_reply :: raft_message where
  "granted_reply = VoteResponse \<lparr>vr_term = 1, vote_granted = True\<rparr>"

definition tx_reply :: tx_vote_response where
  "tx_reply = fst (handle_tx_vote_request V0 tx_ask node_b)"

text \<open>A codec that knows the messages of the examples.\<close>

definition table_codec :: prost where
  "table_codec = \<lparr>
     prost_encode = (\<lambda>m. if m = encode_domain (RequestVote ask_args) then [1] else [2]),
     prost_decode = (\<lambda>bs. if bs = [1] then Some (encode_domain (RequestVote ask_args))
        else if bs = [2] then Some (encode_domain granted_reply) else None),
     prost_encode_request = (\<lambda>_. [3]),
     prost_decode_request = (\<lambda>bs. if bs = [3] then Some (tx_vote_request_to_pb tx_ask) else None),
     prost_encode_response = (\<lambda>_. [4]),
     prost_decode_response = (\<lambda>bs. if bs = [4] then Some (tx_vote_response_to_pb tx_reply) else None),
     prost_kind = schema_kind\<rparr>"

abbreviation wire0 :: writer where
  "wire0 \<equiv> \<lparr>written = [], room = 100\<rparr>"

lemma table_codec_reads_back:
  "reads_back table_codec (encode_domain (RequestVote ask_args))" "reads_back table_codec (encode_domain granted_reply)"
  by (simp_all add: reads_back_def table_codec_def MAX_FRAME_BYTES_def granted_reply_def)

lemma vote_over_wire: "fst (handle_request_vote V0 1 ask_args node_b) = \<lparr>vr_term = 1, vote_granted = True\<rparr>"
  by code_simp

theorem rpc_call_runs_handler_witness:
  "\<exists>v'. dispatch_logic table_codec V0 1 (written (snd (call table_codec (Inr ()) (RequestVote ask_args) wire0 []))) wire0 node_b =
      Some (Inr (), v', snd (handle_request_vote V0 1 ask_args node_b)) \<and>
    fst (call table_codec (Inr ()) (RequestVote ask_args) wire0 (written v')) = Inr granted_reply"
proof -
  have s: "serve_message V0 1 (RequestVote ask_args) node_b = Some (Some granted_reply, snd (handle_request_vote V0 1 ask_args node_b))"
    using vote_over_wire by (simp add: granted_reply_def split_beta)
  have l: "length (prost_encode table_codec m) = 1" for m by (simp add: table_codec_def)
  have "kind_ok (prost_kind table_codec)" by (simp add: table_codec_def schema_kind_ok)
  from rpc_call_runs_handler [OF this table_codec_reads_back(1), of wire0 wire0 V0 1 node_b]
  obtain msg' where "same_message (RequestVote ask_args) msg'" and m: "\<forall>reply m. serve_message V0 1 msg' node_b = Some (Some reply, m) \<and>
      reads_back table_codec (encode_domain reply) \<longrightarrow>
      (\<exists>v'. dispatch_logic table_codec V0 1 (written (snd (call table_codec (Inr ()) (RequestVote ask_args) wire0 []))) wire0 node_b =
         Some (Inr (), v', m) \<and> fst (call table_codec (Inr ()) (RequestVote ask_args) wire0 (written v')) = Inr reply)"
    by (auto simp: l)
  then have "msg' = RequestVote ask_args" by simp
  with m s table_codec_reads_back(2) show ?thesis by blast
qed

theorem dispatch_safe_on_any_bytes_witness:
  "\<exists>w' m. dispatch_logic table_codec V0 1 [1, 0, 0] wire0 node_b = Some (Inr (), w', m) \<and> node_inv V0 m \<and> vote_for m = vote_for node_b"
proof -
  have d: "dispatch_logic table_codec V0 1 [1, 0, 0] wire0 node_b = Some (Inr (), wire0, node_b)"
    by (simp add: dispatch_logic_def read_envelope_discriminator_def handle_raft_rpc_inner_def
        read_envelope_payload_def read_exact_def from_byte_def)
  from dispatch_safe_on_any_bytes [OF d ex_inv(2)] d show ?thesis by blast
qed

theorem tx_vote_rpc_runs_handler_witness:
  "\<exists>v'. dispatch_logic table_codec V0 1 (written (snd (send_tx_vote_rpc table_codec (Inr ()) tx_ask wire0 []))) wire0 node_b =
      Some (Inr (), v', snd (handle_tx_vote_request V0 tx_ask node_b)) \<and>
    fst (send_tx_vote_rpc table_codec (Inr ()) tx_ask wire0 (written v')) = Inr tx_reply"
proof -
  have "handle_tx_vote_request V0 tx_ask node_b = (tx_reply, snd (handle_tx_vote_request V0 tx_ask node_b))"
    by (simp add: tx_reply_def)
  from tx_vote_rpc_runs_handler [of table_codec tx_ask tx_reply wire0 wire0, OF _ _ _ _ _ _ _ _ this, of 1]
  show ?thesis by (auto simp: table_codec_def MAX_FRAME_BYTES_def)
qed

end
