(* ===== verification/Simulation.thy ===== *)
theory Simulation
  imports Complex_Main RpcServer
begin

text \<open>
  The simulation parts: the virtual clock of \<open>src/raft/clock.rs\<close>, the fault schedulers of
  \<open>src/raft/fault_scheduler.rs\<close> and the transport of \<open>src/raft/sim_transport.rs\<close>. A scheduler is a
  function from its state, a link and a message to an outcome; its random source is a stream of
  samples. A channel of the network is a number; it is alive while its receiver exists. Sending is
  a function of the outcome and of when the receiver answers; it yields the result for the
  sender, the moment of the result, and the moments at which the message enters the channel of
  the receiver. The lemmas compare the simulated dispatch with the real one, follow the outcomes of the
  schedulers to the node, and show that a duplicated request does no harm.
\<close>

section \<open>The virtual clock\<close>

record sim_clock =
  clock_epoch :: nat
  clock_offset :: nat

definition with_epoch :: "nat \<Rightarrow> sim_clock" where
  "with_epoch e = \<lparr>clock_epoch = e, clock_offset = 0\<rparr>"

definition sim_now :: "sim_clock \<Rightarrow> nat" where
  "sim_now c = clock_epoch c + clock_offset c"

text \<open>The effect of a sleep when it completes.\<close>

definition sim_sleep :: "nat \<Rightarrow> sim_clock \<Rightarrow> sim_clock" where
  "sim_sleep d c = c\<lparr>clock_offset := clock_offset c + d\<rparr>"

section \<open>Fault schedulers\<close>

record link_id =
  link_from :: string
  link_to :: string

datatype inbound_body = RaftBody raft_message | VoteBody tx_vote_request | VoteReplyBody tx_vote_response

datatype schedule_outcome = Deliver | Drop | Delay nat | Duplicate nat

type_synonym 's scheduler = "'s \<Rightarrow> link_id \<Rightarrow> inbound_body \<Rightarrow> schedule_outcome \<times> 's"

definition always_deliver :: "'s scheduler" where
  "always_deliver s link body = (Deliver, s)"

definition drop_unless :: "(link_id \<Rightarrow> inbound_body \<Rightarrow> bool) \<Rightarrow> 's scheduler" where
  "drop_unless cond s link body = (if cond link body then Deliver else Drop, s)"

definition drop_link :: "string \<Rightarrow> string \<Rightarrow> 's scheduler" where
  "drop_link from to s link body = (if link_from link = from \<and> link_to link = to then Drop else Deliver, s)"

text \<open>The state of the random schedulers is the number of samples drawn so far.\<close>

definition random_drop :: "(nat \<Rightarrow> real) \<Rightarrow> nat scheduler" where
  "random_drop rng i link body = (if rng i < 1 / 2 then Drop else Deliver, Suc i)"

definition random_delay :: "(nat \<Rightarrow> real) \<Rightarrow> real \<Rightarrow> nat \<Rightarrow> nat scheduler" where
  "random_delay rng p_delay d i link body = (if rng i < max 0 (min 1 p_delay) then Delay d else Deliver, Suc i)"

definition duplicate_all :: "nat \<Rightarrow> 's scheduler" where
  "duplicate_all d s link body = (Duplicate d, s)"

text \<open>A partition is the set of links that are cut.\<close>

definition partition_link :: "link_id \<Rightarrow> link_id set \<Rightarrow> link_id set" where
  "partition_link l p = insert l p"

definition heal :: "link_id set \<Rightarrow> link_id set" where
  "heal p = {}"

definition partitioned_network :: "link_id set scheduler" where
  "partitioned_network p link body = (if link \<in> p then Drop else Deliver, p)"

section \<open>The network\<close>

datatype transport_error = Unreachable string | TimedOut nat | ProtocolError string | Canceled

record sim_network =
  net_peers :: "string \<rightharpoonup> nat"
  net_alive :: "nat set"
  net_next :: nat
  rpc_timeout :: nat

definition network_new :: "nat \<Rightarrow> sim_network" where
  "network_new timeout = \<lparr>net_peers = Map.empty, net_alive = {}, net_next = 0, rpc_timeout = timeout\<rparr>"

definition register :: "string \<Rightarrow> sim_network \<Rightarrow> nat \<times> sim_network" where
  "register node nw = (net_next nw, nw\<lparr>net_peers := (net_peers nw)(node \<mapsto> net_next nw),
     net_alive := insert (net_next nw) (net_alive nw), net_next := Suc (net_next nw)\<rparr>)"

definition re_register :: "string \<Rightarrow> sim_network \<Rightarrow> nat \<times> sim_network" where
  "re_register node nw = register node nw"

definition lookup_peer :: "string \<Rightarrow> sim_network \<Rightarrow> nat option" where
  "lookup_peer to nw = net_peers nw to"

text \<open>The serve loop of a node has seen its stop signal and dropped the receiver.\<close>

definition serve_stopped :: "nat \<Rightarrow> sim_network \<Rightarrow> sim_network" where
  "serve_stopped ch nw = nw\<lparr>net_alive := net_alive nw - {ch}\<rparr>"

section \<open>The receiving side\<close>

text \<open>\<open>None\<close> is the panic of a handler.\<close>

fun dispatch_raft_message :: "('b, 'w, 'c) node_env \<Rightarrow> nat \<Rightarrow> raft_message \<Rightarrow> ('b, 'w, 'c) raft_node
    \<Rightarrow> ((transport_error + raft_message) \<times> ('b, 'w, 'c) raft_node) option" where
  "dispatch_raft_message V now (RequestVote args) n =
     (case handle_request_vote V now args n of (reply, n) \<Rightarrow>
        Some (Inr (VoteResponse \<lparr>vr_term = vr_term reply, vote_granted = vote_granted reply\<rparr>), n))"
| "dispatch_raft_message V now (RequestPreVote args) n =
     (case handle_pre_vote now args n of (reply, n) \<Rightarrow>
        Some (Inr (PreVoteResponse \<lparr>vr_term = vr_term reply, vote_granted = vote_granted reply\<rparr>), n))"
| "dispatch_raft_message V now (AppendEntries args) n =
     (case handle_append_entries V now args n of (reply, n) \<Rightarrow> Some (Inr (AppendReply reply), n))"
| "dispatch_raft_message V now (InstallSnapshot args) n =
     map_option (\<lambda>(reply, n). (Inr (InstallSnapshotReply reply), n)) (handle_install_snapshot V now args n)"
| "dispatch_raft_message V now _ n = Some (Inl (ProtocolError ''unexpected inbound reply variant''), n)"

fun serve_inbound :: "('b, 'w, 'c) node_env \<Rightarrow> nat \<Rightarrow> inbound_body \<Rightarrow> ('b, 'w, 'c) raft_node
    \<Rightarrow> ((transport_error + inbound_body) \<times> ('b, 'w, 'c) raft_node) option" where
  "serve_inbound V now (RaftBody msg) n =
     map_option (\<lambda>(r, n). (map_sum id RaftBody r, n)) (dispatch_raft_message V now msg n)"
| "serve_inbound V now (VoteBody req) n =
     (case handle_tx_vote_request V req n of (reply, n) \<Rightarrow> Some (Inr (VoteReplyBody reply), n))"
| "serve_inbound V now (VoteReplyBody reply) n =
     Some (Inl (ProtocolError ''received VoteReply without a preceding Vote request''), n)"

section \<open>The sending side\<close>

text \<open>The moments, from the start of the call, at which the message is pushed; and from when on the sender
  waits for the reply.\<close>

fun pushes :: "schedule_outcome \<Rightarrow> nat list" where
  "pushes Deliver = [0]"
| "pushes Drop = []"
| "pushes (Delay d) = [d]"
| "pushes (Duplicate d) = [0, d]"

record 'r sent =
  sent_result :: "transport_error + 'r"
  sent_at :: nat
  sent_pushes :: "nat list"

text \<open>What becomes of a pushed message: a reply after a while, a reply channel that is dropped because the
  serve loop ends or panics, or nothing. Waiting for a place in a full channel is part of the while.\<close>

datatype peer_answer = RepliedAfter "transport_error + inbound_body" nat | ReplyDropped nat | NoAnswer

text \<open>\<open>push_with_reply\<close> under the time-out.\<close>

definition push_with_reply :: "sim_network \<Rightarrow> nat \<Rightarrow> peer_answer \<Rightarrow> (transport_error + inbound_body) \<times> nat" where
  "push_with_reply nw ch answer =
     (if ch \<notin> net_alive nw then (Inl (Unreachable ''peer inbound channel closed''), 0)
      else let timed_out = (Inl (TimedOut (rpc_timeout nw)), rpc_timeout nw) in
        case answer of
          RepliedAfter r latency \<Rightarrow> if latency \<le> rpc_timeout nw then (r, latency) else timed_out
        | ReplyDropped latency \<Rightarrow>
            if latency \<le> rpc_timeout nw then (Inl (ProtocolError ''reply oneshot canceled before delivery''), latency)
            else timed_out
        | NoAnswer \<Rightarrow> timed_out)"

fun raft_reply :: "inbound_body \<Rightarrow> transport_error + raft_message" where
  "raft_reply (RaftBody reply) = Inr reply"
| "raft_reply (VoteBody _) = Inl (ProtocolError ''raft peer returned a vote request instead of a raft reply'')"
| "raft_reply (VoteReplyBody _) = Inl (ProtocolError ''raft peer returned a vote reply instead of a raft reply'')"

fun vote_reply :: "inbound_body \<Rightarrow> transport_error + tx_vote_response" where
  "vote_reply (VoteReplyBody reply) = Inr reply"
| "vote_reply (VoteBody _) = Inl (ProtocolError ''vote peer returned a vote request instead of a vote reply'')"
| "vote_reply (RaftBody _) = Inl (ProtocolError ''vote peer returned non-vote reply'')"

definition send_body :: "'s scheduler \<Rightarrow> sim_network \<Rightarrow> (inbound_body \<Rightarrow> transport_error + 'r) \<Rightarrow> string \<Rightarrow> string \<Rightarrow> inbound_body
    \<Rightarrow> peer_answer \<Rightarrow> 's \<Rightarrow> 'r sent \<times> 's" where
  "send_body sched nw unwrap self_id to body answer s =
     (case lookup_peer to nw of
        None \<Rightarrow> (\<lparr>sent_result = Inl (Unreachable ''peer not registered''), sent_at = 0, sent_pushes = []\<rparr>, s)
      | Some ch \<Rightarrow>
          (case sched s \<lparr>link_from = self_id, link_to = to\<rparr> body of (out, s) \<Rightarrow>
             if out = Drop
             then (\<lparr>sent_result = Inl (TimedOut (rpc_timeout nw)), sent_at = rpc_timeout nw, sent_pushes = []\<rparr>, s)
             else let start = (case out of Delay d \<Rightarrow> d | _ \<Rightarrow> 0);
                      (r, t) = push_with_reply nw ch answer
                  in (\<lparr>sent_result = (case r of Inl e \<Rightarrow> Inl e | Inr b \<Rightarrow> unwrap b), sent_at = start + t,
                       sent_pushes = (if ch \<in> net_alive nw then pushes out else [])\<rparr>, s)))"

definition send_raft :: "'s scheduler \<Rightarrow> sim_network \<Rightarrow> string \<Rightarrow> string \<Rightarrow> raft_message
    \<Rightarrow> peer_answer \<Rightarrow> 's \<Rightarrow> raft_message sent \<times> 's" where
  "send_raft sched nw self_id to msg answer s = send_body sched nw raft_reply self_id to (RaftBody msg) answer s"

definition send_vote :: "'s scheduler \<Rightarrow> sim_network \<Rightarrow> string \<Rightarrow> string \<Rightarrow> tx_vote_request
    \<Rightarrow> peer_answer \<Rightarrow> 's \<Rightarrow> tx_vote_response sent \<times> 's" where
  "send_vote sched nw self_id to req answer s = send_body sched nw vote_reply self_id to (VoteBody req) answer s"

text \<open>The receiving node works off the pushes of a message, in order.\<close>

fun deliver_at :: "('b, 'w, 'c) node_env \<Rightarrow> nat \<Rightarrow> inbound_body \<Rightarrow> nat list \<Rightarrow> ('b, 'w, 'c) raft_node
    \<Rightarrow> ((transport_error + inbound_body) list \<times> ('b, 'w, 'c) raft_node) option" where
  "deliver_at V now body [] n = Some ([], n)"
| "deliver_at V now body (t # ts) n =
     (case serve_inbound V (now + t) body n of None \<Rightarrow> None | Some (r, n) \<Rightarrow>
        map_option (\<lambda>(rs, n). (r # rs, n)) (deliver_at V now body ts n))"

section \<open>The simulated dispatch is the real one\<close>

text \<open>The simulation exercises the production handlers: for every consensus request the simulated
  dispatch changes the node and replies exactly as the RPC server does. The one request it does not
  know is \<open>JoinCluster\<close>, which it refuses as a reply, where the server answers it.\<close>

theorem sim_dispatch_agrees:
  "(\<forall>req. msg \<noteq> JoinCluster req) \<longrightarrow>
     (\<forall>reply m. serve_message V now msg n = Some (Some reply, m) \<longleftrightarrow> dispatch_raft_message V now msg n = Some (Inr reply, m)) \<and>
     (\<forall>m. serve_message V now msg n = Some (None, m) \<longleftrightarrow> (\<exists>e. dispatch_raft_message V now msg n = Some (Inl e, m))) \<and>
     (serve_message V now msg n = None \<longleftrightarrow> dispatch_raft_message V now msg n = None)"
  by (cases msg) (auto split: prod.splits option.splits)

section \<open>Duplicated requests\<close>

text \<open>The node without the moment of the last heartbeat and the outcomes of system calls to come.\<close>

definition settled :: "('b, 'w, 'c) raft_node \<Rightarrow> ('b, 'w, 'c) raft_node" where
  "settled n = n\<lparr>last_heartbeat := 0, storage := (storage n)\<lparr>io_plan := []\<rparr>\<rparr>"

lemma settled_heartbeat [simp]: "settled (n\<lparr>last_heartbeat := t\<rparr>) = settled n"
  by (simp add: settled_def)

lemma persist_meta_ok:
  assumes "plan_ok (storage n)"
  obtains fs where "list_all (\<lambda>f. f = None) fs"
    and "persist_meta V n =
      n\<lparr>storage := (storage n)\<lparr>io_plan := fs, meta_file := Some (enc_meta_file (codec_of V) (current_term n) (vote_for n))\<rparr>\<rparr>"
proof -
  from save_meta_ok [OF assms, of "codec_of V" "current_term n" "vote_for n"] obtain fs where "list_all (\<lambda>f. f = None) fs"
    "save_meta (codec_of V) (current_term n) (vote_for n) (storage n) =
      (Inr (), (storage n)\<lparr>io_plan := fs, meta_file := Some (enc_meta_file (codec_of V) (current_term n) (vote_for n))\<rparr>)" by blast
  then show ?thesis by (intro that [of fs]) (simp_all add: persist_meta_def)
qed

lemma persist_meta_again:
  assumes "plan_ok (storage n)"
  shows "settled (persist_meta V ((persist_meta V n)\<lparr>last_heartbeat := t\<rparr>)) = settled (persist_meta V n)"
proof -
  from persist_meta_ok [OF assms, of V] obtain fs where fs: "list_all (\<lambda>f. f = None) fs"
    "persist_meta V n =
      n\<lparr>storage := (storage n)\<lparr>io_plan := fs, meta_file := Some (enc_meta_file (codec_of V) (current_term n) (vote_for n))\<rparr>\<rparr>" by blast
  then have "plan_ok (storage ((persist_meta V n)\<lparr>last_heartbeat := t\<rparr>))" by (simp add: plan_ok_def)
  from persist_meta_ok [OF this, of V] obtain fs' where "persist_meta V ((persist_meta V n)\<lparr>last_heartbeat := t\<rparr>) =
      (persist_meta V n)\<lparr>last_heartbeat := t, storage := (storage (persist_meta V n))\<lparr>io_plan := fs',
        meta_file := Some (enc_meta_file (codec_of V) (current_term (persist_meta V n)) (vote_for (persist_meta V n)))\<rparr>\<rparr>" by auto
  then show ?thesis by (simp add: settled_def fs(2))
qed

lemma log_up_to_date_log: "log m = log n \<Longrightarrow> log_up_to_date i t m = log_up_to_date i t n"
  by (simp add: log_up_to_date_def get_last_log_info_def)

text \<open>The node whose vote is decided.\<close>

lemma request_vote_again:
  assumes "node_inv V n" and "handle_request_vote V now args n = (reply, m)"
  shows "fst (handle_request_vote V now' args m) = reply \<and> settled (snd (handle_request_vote V now' args m)) = settled m"
proof (cases "rv_term args < current_term n")
  case True
  then show ?thesis using assms(2) by (auto simp: handle_request_vote_def)
next
  case False
  define k where "k = (if current_term n < rv_term args
    then persist_meta V (n\<lparr>current_term := rv_term args, state := Follower, vote_for := None\<rparr>) else n)"
  have k: "current_term k = rv_term args" using False by (auto simp: k_def frame_simps)
  have pk: "plan_ok (storage k)" using node_invD(1) [OF assms(1)] save_meta_good
    by (auto simp: k_def persist_meta_def store_ok_def)
  let ?up = "log_up_to_date (rv_last_log_index args) (rv_last_log_term args)"
  have first: "handle_request_vote V now args n =
     (if (vote_for k = None \<or> vote_for k = Some (candidate_id args)) \<and> ?up k
      then (\<lparr>vr_term = rv_term args, vote_granted = True\<rparr>, (persist_meta V (k\<lparr>vote_for := Some (candidate_id args)\<rparr>))\<lparr>last_heartbeat := now\<rparr>)
      else (\<lparr>vr_term = rv_term args, vote_granted = False\<rparr>, k))"
    using False k unfolding handle_request_vote_def k_def Let_def by (auto simp: frame_simps)
  show ?thesis
  proof (cases "(vote_for k = None \<or> vote_for k = Some (candidate_id args)) \<and> ?up k")
    case True
    let ?v = "k\<lparr>vote_for := Some (candidate_id args)\<rparr>"
    have m: "m = (persist_meta V ?v)\<lparr>last_heartbeat := now\<rparr>" "reply = \<lparr>vr_term = rv_term args, vote_granted = True\<rparr>"
      using first assms(2) True by auto
    have "?up m" using True log_up_to_date_log [of m k] by (simp add: m(1) frame_simps)
    moreover have "m\<lparr>vote_for := Some (candidate_id args)\<rparr> = m" by (simp add: m(1) persist_meta_def)
    ultimately have "handle_request_vote V now' args m = (reply, (persist_meta V m)\<lparr>last_heartbeat := now'\<rparr>)"
      using k by (simp add: handle_request_vote_def Let_def) (simp add: m frame_simps)
    moreover have "settled (persist_meta V m) = settled m"
      using persist_meta_again [of ?v V now] pk by (simp add: m(1))
    ultimately show ?thesis by simp
  next
    case False
    then have "m = k" "reply = \<lparr>vr_term = rv_term args, vote_granted = False\<rparr>" using first assms(2) by auto
    then show ?thesis using k False by (simp add: handle_request_vote_def Let_def)
  qed
qed

lemma append_loop_present:
  assumes "indexed_from p es" and "p + length es \<le> length (log n)"
    and "\<And>i. i < length es \<Longrightarrow> le_term (log n ! (p + i)) = le_term (es ! i)"
  shows "append_loop V es n = n"
  using assms
proof (induction es arbitrary: p)
  case (Cons e es)
  have "append_loop V es n = n"
    using Cons.prems Cons.IH [of "Suc p"] by (metis (no_types, lifting) add_Suc_shift indexed_from_Cons length_Cons not_less_eq nth_Cons_Suc)
  then show ?case using Cons.prems(1,2) Cons.prems(3) [of 0] by (simp add: Let_def)
qed simp

lemma merge_log_present:
  "p \<le> length l \<Longrightarrow> p + length es \<le> length (merge_log p es l) \<and>
     (\<forall>i < length es. le_term (merge_log p es l ! (p + i)) = le_term (es ! i))"
proof (induction p es l rule: merge_log.induct)
  case (2 p e es l)
  show ?case
  proof (cases "p < length l \<and> le_term (l ! p) = le_term e")
    case True
    then have ih: "Suc p + length es \<le> length (merge_log (Suc p) es l)"
        "\<forall>i < length es. le_term (merge_log (Suc p) es l ! (Suc p + i)) = le_term (es ! i)"
      using "2.IH" by auto
    have "merge_log (Suc p) es l ! p = l ! p"
      using merge_log_prefix [of "Suc p" l es] True by (metis Suc_leI lessI nth_take)
    then show ?thesis using ih True by (auto simp: nth_Cons split: nat.splits)
  next
    case False
    then show ?thesis using "2.prems" by (auto simp: nth_append nth_Cons min_def split: nat.splits)
  qed
qed simp

lemma ae_commit_again:
  assumes "state n \<noteq> Leader"
  shows "ae_commit V args ((ae_commit V args n)\<lparr>last_heartbeat := t\<rparr>) = (ae_commit V args n)\<lparr>last_heartbeat := t\<rparr>"
proof (cases "commit_index n < leader_commit args")
  case True
  define k where "k = n\<lparr>commit_index := min (leader_commit args) (length (log n))\<rparr>"
  have k: "ae_commit V args n = apply_logs V k" using True by (simp add: ae_commit_def k_def)
  have st: "state k \<noteq> Leader" using assms by (simp add: k_def)
  then have l: "log (apply_logs V k) = log n" by (simp add: apply_logs_log(2)) (simp add: k_def)
  have c: "commit_index (apply_logs V k) = min (leader_commit args) (length (log n))" by (simp add: frame_simps) (simp add: k_def)
  have "last_applied (apply_logs V k) = max (last_applied k) (min (commit_index k) (length (log k)))"
    using apply_logs_applies [of k V] st by simp
  then have "commit_index (apply_logs V k) \<le> last_applied (apply_logs V k)" unfolding c by (simp add: k_def)
  moreover have "(apply_logs V k)\<lparr>last_heartbeat := t, commit_index := min (leader_commit args) (length (log n))\<rparr> =
      (apply_logs V k)\<lparr>last_heartbeat := t\<rparr>" using c by simp
  ultimately show ?thesis unfolding k by (simp add: ae_commit_def l apply_logs_done)
qed (simp add: ae_commit_def)

lemma append_entries_again:
  assumes "indexed_from (prev_log_index args) (ae_entries args)" and "handle_append_entries V now args n = (reply, m)"
  shows "fst (handle_append_entries V now' args m) = reply \<and> settled (snd (handle_append_entries V now' args m)) = settled m"
proof (cases "ae_term args < current_term n \<or> ae_term args = current_term n \<and> state n = Leader")
  case True
  then show ?thesis using assms(2) by (auto simp: handle_append_entries_eq)
next
  case fresh: False
  let ?f = "ae_follower V now args n"
  have again: "ae_follower V now' args k = k\<lparr>last_heartbeat := now'\<rparr>" if "current_term k = ae_term args" "state k = Follower" for k
    using that by (simp add: ae_follower_def)
  show ?thesis
  proof (cases "prev_matches args (log n)")
    case False
    then have "reply = \<lparr>ar_term = ae_term args, ar_success = False\<rparr>" "m = ?f"
      using fresh assms(2) by (auto simp: handle_append_entries_eq)
    then show ?thesis using fresh False again [of ?f] by (simp add: handle_append_entries_eq frame_simps)
  next
    case True
    let ?l = "append_loop V (ae_entries args) ?f"
    have m: "reply = \<lparr>ar_term = ae_term args, ar_success = True\<rparr>" "m = ae_commit V args ?l"
      using fresh True assms(2) by (auto simp: handle_append_entries_eq)
    have p: "prev_log_index args \<le> length (log n)" using True by (auto simp: prev_matches_def)
    have l: "log m = merge_log (prev_log_index args) (ae_entries args) (log n)"
      using append_loop_merges [OF assms(1), of ?f V] p by (simp add: m(2) ae_commit_log frame_simps)
    have m': "current_term m = ae_term args" "state m = Follower" using fresh by (simp_all add: m(2) ae_commit_def frame_simps)
    have "prev_matches args (log m)"
      using True p merge_log_prefix [OF p, of "ae_entries args"] merge_log_present [OF p, of "ae_entries args"]
      unfolding l prev_matches_def by (metis diff_less le_add1 le_trans nth_take zero_less_one not_gr_zero)
    moreover have "append_loop V (ae_entries args) (m\<lparr>last_heartbeat := now'\<rparr>) = m\<lparr>last_heartbeat := now'\<rparr>"
      by (rule append_loop_present [OF assms(1)]) (use merge_log_present [OF p] l in simp_all)
    moreover have "ae_commit V args (m\<lparr>last_heartbeat := now'\<rparr>) = m\<lparr>last_heartbeat := now'\<rparr>"
      unfolding m(2) by (rule ae_commit_again) (simp add: frame_simps)
    ultimately have "handle_append_entries V now' args m = (reply, m\<lparr>last_heartbeat := now'\<rparr>)"
      using m' again [OF m'] m(1) by (simp add: handle_append_entries_eq)
    then show ?thesis by simp
  qed
qed

lemma pre_vote_again:
  assumes "handle_pre_vote now args n = (reply, m)"
  shows "fst (handle_pre_vote now' args m) = reply \<and> settled (snd (handle_pre_vote now' args m)) = settled m"
proof -
  have "m = n\<lparr>last_heartbeat := now\<rparr>" using assms by (auto simp: handle_pre_vote_def Let_def split: if_splits)
  then show ?thesis
    using assms log_up_to_date_log [of "n\<lparr>last_heartbeat := now'\<rparr>" "n\<lparr>last_heartbeat := now\<rparr>"]
    by (auto simp: handle_pre_vote_def Let_def split: if_splits)
qed

text \<open>The requests that may come twice: votes, probes, and entries numbered from the one they follow.\<close>

fun repeatable :: "raft_message \<Rightarrow> bool" where
  "repeatable (RequestVote args) = True"
| "repeatable (RequestPreVote args) = True"
| "repeatable (AppendEntries args) = indexed_from (prev_log_index args) (ae_entries args)"
| "repeatable _ = False"

lemma serve_again:
  assumes "node_inv V n" and "repeatable msg" and "serve_inbound V now (RaftBody msg) n = Some (r, m)"
  shows "\<exists>k. serve_inbound V now' (RaftBody msg) m = Some (r, k) \<and> settled k = settled m"
proof (cases msg)
  case (RequestVote args)
  obtain reply where "handle_request_vote V now args n = (reply, m)" "r = Inr (RaftBody (VoteResponse reply))"
    using assms(3) by (auto simp: RequestVote split: prod.splits)
  then show ?thesis
    using request_vote_again [OF assms(1), of now args reply m now'] by (auto simp: RequestVote split: prod.splits)
next
  case (RequestPreVote args)
  obtain reply where "handle_pre_vote now args n = (reply, m)" "r = Inr (RaftBody (PreVoteResponse reply))"
    using assms(3) by (auto simp: RequestPreVote split: prod.splits)
  then show ?thesis
    using pre_vote_again [of now args n reply m now'] by (auto simp: RequestPreVote split: prod.splits)
next
  case (AppendEntries args)
  obtain reply where "handle_append_entries V now args n = (reply, m)" "r = Inr (RaftBody (AppendReply reply))"
    using assms(3) by (auto simp: AppendEntries split: prod.splits)
  then show ?thesis
    using append_entries_again [of args V now n reply m now'] assms(2) by (auto simp: AppendEntries split: prod.splits)
qed (use assms(2) in simp_all)

text \<open>Duplicated requests do no harm: when the scheduler duplicates a vote request, a probe or an
  append, the receiver handles it twice, gives the same reply both times, and ends with the
  node that one delivery gives, but for the moment of the last heartbeat. The sender gets
  the first reply.\<close>

theorem duplicates_harmless:
  assumes "node_inv V n" and "repeatable msg" and "lookup_peer to nw = Some ch" and "ch \<in> net_alive nw"
    and "deliver_at V now (RaftBody msg) (sent_pushes (fst (send_raft always_deliver nw me to msg answer s))) n = Some (rs, m)"
  shows "\<exists>r k. rs = [r] \<and>
    deliver_at V now (RaftBody msg) (sent_pushes (fst (send_raft (duplicate_all d) nw me to msg answer s))) n = Some ([r, r], k) \<and>
    settled k = settled m \<and>
    sent_result (fst (send_raft (duplicate_all d) nw me to msg answer s)) =
      sent_result (fst (send_raft always_deliver nw me to msg answer s))"
proof -
  have p: "sent_pushes (fst (send_raft always_deliver nw me to msg answer s)) = [0]"
    "sent_pushes (fst (send_raft (duplicate_all d) nw me to msg answer s)) = [0, d]"
    "sent_result (fst (send_raft (duplicate_all d) nw me to msg answer s)) =
      sent_result (fst (send_raft always_deliver nw me to msg answer s))"
    using assms(3,4) by (simp_all add: send_raft_def send_body_def always_deliver_def duplicate_all_def split: prod.splits)
  from assms(5) obtain r where r: "serve_inbound V now (RaftBody msg) n = Some (r, m)" "rs = [r]"
    by (auto simp: p(1) simp del: serve_inbound.simps split: option.splits prod.splits)
  from serve_again [OF assms(1,2) r(1), of "now + d"] obtain k where
    "serve_inbound V (now + d) (RaftBody msg) m = Some (r, k)" "settled k = settled m" by blast
  then show ?thesis using r p(2,3) by (auto simp del: serve_inbound.simps)
qed

section \<open>Faults on the way\<close>

text \<open>A delayed message is late for the receiver, but the sender is not told: when the delay exceeds
  the time-out of the call and the receiver then answers in time, the sender still gets the reply,
  after the delay, and no time-out, because the clock of the time-out starts after the delay.\<close>

theorem slow_link_not_timed_out:
  assumes "lookup_peer to nw = Some ch" and "ch \<in> net_alive nw"
    and "sched s \<lparr>link_from = me, link_to = to\<rparr> (RaftBody msg) = (Delay d, s')"
    and "rpc_timeout nw < d" and "latency \<le> rpc_timeout nw"
  shows "send_raft sched nw me to msg (RepliedAfter (Inr (RaftBody reply)) latency) s =
    (\<lparr>sent_result = Inr reply, sent_at = d + latency, sent_pushes = [d]\<rparr>, s')"
  using assms by (simp add: send_raft_def send_body_def push_with_reply_def Let_def)

text \<open>A partition cuts exactly its links and heals completely: a message on a cut link reaches nobody and
  times out, every other link, the opposite direction included, delivers as without the
  partition, and after \<open>heal\<close> all links do.\<close>

theorem partition_cuts_links:
  assumes "lookup_peer to nw = Some ch" and "ch \<in> net_alive nw"
  shows "fst (send_raft partitioned_network nw me to msg answer (partition_link \<lparr>link_from = me, link_to = to\<rparr> p)) =
      \<lparr>sent_result = Inl (TimedOut (rpc_timeout nw)), sent_at = rpc_timeout nw, sent_pushes = []\<rparr> \<and>
    (l \<noteq> \<lparr>link_from = me, link_to = to\<rparr> \<and> \<lparr>link_from = me, link_to = to\<rparr> \<notin> p \<longrightarrow>
      fst (send_raft partitioned_network nw me to msg answer (partition_link l p)) =
      fst (send_raft always_deliver nw me to msg answer ())) \<and>
    fst (send_raft partitioned_network nw me to msg answer (heal p)) = fst (send_raft always_deliver nw me to msg answer ()) \<and>
    sent_pushes (fst (send_raft always_deliver nw me to msg answer ())) = [0]"
  using assms by (auto simp: send_raft_def send_body_def partitioned_network_def always_deliver_def partition_link_def heal_def
      Let_def split: prod.splits)

section \<open>Examples\<close>

definition net_ab :: sim_network where
  "net_ab = snd (register ''b'' (snd (register ''a'' (network_new 20))))"

lemma net_ab_peer: "lookup_peer ''b'' net_ab = Some 1" "1 \<in> net_alive net_ab" "rpc_timeout net_ab = 20"
  by (simp_all add: net_ab_def register_def network_new_def lookup_peer_def)

theorem sim_dispatch_agrees_witness:
  "dispatch_raft_message V0 3 (RequestVote vote_a) node_b = Some (Inr (VoteResponse (fst (handle_request_vote V0 3 vote_a node_b))),
     snd (handle_request_vote V0 3 vote_a node_b))"
  using sim_dispatch_agrees [of "RequestVote vote_a" V0 3 node_b] by (simp split: prod.splits)

theorem duplicates_harmless_witness:
  "\<exists>r k. deliver_at V0 3 (RaftBody (RequestVote vote_a)) [0, 7] node_b = Some ([r, r], k) \<and>
     settled k = settled (snd (handle_request_vote V0 3 vote_a node_b))"
proof -
  obtain reply m where h: "handle_request_vote V0 3 vote_a node_b = (reply, m)" by fastforce
  have p: "sent_pushes (fst (send_raft always_deliver net_ab ''a'' ''b'' (RequestVote vote_a) NoAnswer ())) = [0]"
    "sent_pushes (fst (send_raft (duplicate_all 7) net_ab ''a'' ''b'' (RequestVote vote_a) NoAnswer ())) = [0, 7]"
    using net_ab_peer by (simp_all add: send_raft_def send_body_def always_deliver_def duplicate_all_def push_with_reply_def Let_def)
  have "deliver_at V0 3 (RaftBody (RequestVote vote_a))
      (sent_pushes (fst (send_raft always_deliver net_ab ''a'' ''b'' (RequestVote vote_a) NoAnswer ()))) node_b =
      Some ([Inr (RaftBody (VoteResponse reply))], m)" by (simp add: p h)
  from duplicates_harmless [OF ex_inv(2) _ net_ab_peer(1,2) this, of 7] show ?thesis by (auto simp: p h)
qed

theorem slow_link_not_timed_out_witness:
  "sent_result (fst (send_raft (random_delay (\<lambda>_. 0) 1 50) net_ab ''a'' ''b'' (RequestVote vote_a)
     (RepliedAfter (Inr (RaftBody (VoteResponse \<lparr>vr_term = 1, vote_granted = True\<rparr>))) 5) 0)) =
   Inr (VoteResponse \<lparr>vr_term = 1, vote_granted = True\<rparr>)"
  using slow_link_not_timed_out [OF net_ab_peer(1,2), of "random_delay (\<lambda>_. 0) 1 50" 0 "''a''" "RequestVote vote_a" 50 1 5
      "VoteResponse \<lparr>vr_term = 1, vote_granted = True\<rparr>"]
  by (simp add: random_delay_def net_ab_peer(3))

theorem partition_cuts_links_witness:
  "sent_pushes (fst (send_raft partitioned_network net_ab ''a'' ''b'' (RequestVote vote_a) NoAnswer
     (partition_link \<lparr>link_from = ''a'', link_to = ''b''\<rparr> {}))) = [] \<and>
   sent_pushes (fst (send_raft partitioned_network net_ab ''a'' ''b'' (RequestVote vote_a) NoAnswer
     (partition_link \<lparr>link_from = ''b'', link_to = ''a''\<rparr> {}))) = [0]"
  using partition_cuts_links [OF net_ab_peer(1,2), of "''a''" "RequestVote vote_a" NoAnswer "{}" "\<lparr>link_from = ''b'', link_to = ''a''\<rparr>"]
  by simp

end
