(* ===== verification/Cluster.thy ===== *)
theory Cluster
  imports Node_Examples
begin

text \<open>
  Elections in a cluster of nodes. A candidate's round of votes and the remote calls it has in
  flight are explicit: a call is sent, answered by the voter, and its reply handled by the
  candidate, each at any later moment or never. Every other step of any node may happen in
  between. The membership is fixed (\<open>peers\<close> does not change) and has at least two nodes.
\<close>

section \<open>What local steps leave alone\<close>

lemma proposals_frame [frame_simps]:
  "node_id (snd (propose_loop V i cs n)) = node_id n" "state (snd (propose_loop V i cs n)) = state n"
  by (induction V i cs n rule: propose_loop.induct) (auto simp: append_entry_def split: prod.splits sum.splits)

lemma append_entry_ident:
  "append_entry V e n = (r, m) \<Longrightarrow> node_id m = node_id n \<and> state m = state n \<and> current_term m = current_term n"
  using append_entry_frame(3,4,6) [of V e n] by simp

text \<open>A step that keeps the identity of the node and does not make it a leader.\<close>

definition no_promotion :: "('b, 'w, 'c) raft_node \<Rightarrow> ('b, 'w, 'c) raft_node \<Rightarrow> bool" where
  "no_promotion n m \<longleftrightarrow> node_id m = node_id n \<and> (state m = Leader \<longrightarrow> state n = Leader \<and> current_term m = current_term n)"

lemma no_promotion_proposals:
  "no_promotion n (snd (propose V c n))" "no_promotion n (snd (propose_batch V cs n))"
  "no_promotion n (snd (propose_add_node V srv n))" "no_promotion n (snd (propose_remove_node V nid n))"
  "no_promotion n (snd (propose_abort_tx V tx n))" "no_promotion n (snd (sync_logs V n))"
  "no_promotion n (snd (handle_pre_vote now args n))"
  by (auto simp: no_promotion_def propose_def propose_batch_def propose_add_node_def propose_remove_node_def
      propose_joint_def propose_abort_tx_def sync_logs_def handle_pre_vote_def Let_def frame_simps
      split: prod.splits sum.splits dest: append_entry_ident)

lemma vote_stepped_down_state: "current_term n < t \<Longrightarrow> state (vote_stepped_down V t n) = Follower"
  "\<not> current_term n < t \<Longrightarrow> state (vote_stepped_down V t n) = state n"
  by (simp_all add: vote_stepped_down_def frame_simps)

lemma no_promotion_handlers:
  "no_promotion n (snd (handle_request_vote V now vargs n))" "no_promotion n (snd (handle_append_entries V now args n))"
  "no_promotion n (snd (handle_tx_vote_request V req n))" "no_promotion n (append_reply_handler V now peer args areply n)"
proof -
  show "no_promotion n (snd (handle_request_vote V now vargs n))"
    by (cases "current_term n < rv_term vargs")
      (auto simp: no_promotion_def handle_request_vote_eq vote_stepped_down_state frame_simps)
  show "no_promotion n (snd (handle_append_entries V now args n))"
    by (auto simp: no_promotion_def handle_append_entries_eq ae_commit_def frame_simps)
  show "no_promotion n (snd (handle_tx_vote_request V req n))"
    by (auto simp: no_promotion_def handle_tx_vote_request_def frame_simps Let_def)
  show "no_promotion n (append_reply_handler V now peer args areply n)"
    by (auto simp: no_promotion_def append_reply_handler_def frame_simps Let_def)
qed

lemma no_promotion_snapshot:
  assumes "handle_install_snapshot V now args n = Some (r, m)"
  shows "no_promotion n m"
proof (cases "is_term args < current_term n \<or> is_term args = current_term n \<and> state n = Leader")
  case True
  then show ?thesis using assms by (auto simp: handle_install_snapshot_def no_promotion_def)
next
  case False
  then obtain sm u where c: "clear_for_snapshot (state_machine_of n) = (Inr u, sm)"
    using assms unfolding handle_install_snapshot_def Let_def vote_stepped_down_def [symmetric]
    by (auto simp: frame_simps split: prod.splits sum.splits)
  then have "m = snapshot_installed V args sm (is_follower V now args n)"
    using handle_install_snapshot_eq [of args n sm V now] False assms by auto
  then show ?thesis by (simp add: no_promotion_def snapshot_installed_def is_follower_def frame_simps)
qed

lemma no_promotion_coordinator: "no_promotion n (record_yes tx voter n)" "no_promotion n (step_down_on V t n)"
  by (simp_all add: no_promotion_def record_yes_def step_down_on_def frame_simps)

lemma no_promotion_recovery: "restore_from_snapshot V n = Some (r, m) \<Longrightarrow> no_promotion n m" "no_promotion n (replay_logs V n)"
  by (auto simp: no_promotion_def restore_from_snapshot_def replay_logs_eq replay_fold split: option.splits prod.splits sum.splits)

lemma no_promotion_local:
  "local_step V n m \<Longrightarrow> peers n \<noteq> [] \<Longrightarrow> no_promotion n m"
proof (induction rule: local_step.induct)
  case (compaction th n b m)
  then show ?case
    by (auto simp: maybe_snapshot_def no_promotion_def Let_def split: if_splits sum.splits prod.splits)
next
  case (probe n now)
  then show ?case by (auto simp: become_pre_candidate_def no_promotion_def Let_def)
next
  case (probe_reply now reply r n r' m)
  then show ?case
    by (auto simp: process_pre_vote_reply_def no_promotion_def Let_def split: if_splits prod.splits)
next
  case (restart sm n ps now)
  then show ?case by (simp add: no_promotion_def new_node_def load_initial_state_def)
next
  case (snapshot now sargs n r m)
  then show ?case by (intro no_promotion_snapshot)
qed (simp_all only: no_promotion_proposals no_promotion_handlers no_promotion_coordinator no_promotion_recovery)

section \<open>Clusters\<close>

datatype task = Sent request_vote_args | Answered vote_response_args | Handled vote_response_args

record ('b, 'w, 'c) cluster =
  nodes :: "string \<Rightarrow> ('b, 'w, 'c) raft_node"
  rounds :: "string \<times> nat \<rightharpoonup> vote_round"
  tasks :: "string \<times> nat \<times> string \<rightharpoonup> task"

definition start_round :: "string \<Rightarrow> vote_round \<Rightarrow> (string \<times> request_vote_args) list \<Rightarrow> ('b, 'w, 'c) raft_node
    \<Rightarrow> ('b, 'w, 'c) cluster \<Rightarrow> ('b, 'w, 'c) cluster" where
  "start_round c r msgs n k =
     k\<lparr>nodes := (nodes k)(c := n), rounds := (rounds k)((c, round_term r) \<mapsto> r),
       tasks := (\<lambda>(c', t, v). if c' = c \<and> t = round_term r then map_option Sent (map_of msgs v) else tasks k (c', t, v))\<rparr>"

inductive cluster_step :: "('b, 'w, 'c) node_env \<Rightarrow> string list \<Rightarrow> bool \<Rightarrow> ('b, 'w, 'c) cluster \<Rightarrow> ('b, 'w, 'c) cluster \<Rightarrow> bool"
  for V :: "('b, 'w, 'c) node_env" and M :: "string list" where
  campaign: "c \<in> set M \<Longrightarrow> become_candidate V now (nodes k c) = (r, msgs, n) \<Longrightarrow>
    cluster_step V M True k (start_round c r msgs n k)"
| probe_quorum: "c \<in> set M \<Longrightarrow> process_pre_vote_reply V now reply pr (nodes k c) = (pr', Some (r, msgs), n) \<Longrightarrow>
    cluster_step V M True k (start_round c r msgs n k)"
| answer: "v \<in> set M \<Longrightarrow> tasks k (c, t, v) = Some (Sent args) \<Longrightarrow> handle_request_vote V now args (nodes k v) = (reply, n) \<Longrightarrow>
    cluster_step V M True k (k\<lparr>nodes := (nodes k)(v := n), tasks := (tasks k)((c, t, v) \<mapsto> Answered reply)\<rparr>)"
| reply: "c \<in> set M \<Longrightarrow> tasks k (c, t, v) = Some (Answered reply) \<Longrightarrow> rounds k (c, t) = Some r \<Longrightarrow>
    vote_reply_handler V now reply (r, nodes k c) = (r', n) \<Longrightarrow>
    cluster_step V M (fresh_reply r reply (nodes k c)) k
      (k\<lparr>nodes := (nodes k)(c := n), rounds := (rounds k)((c, t) \<mapsto> r'),
        tasks := (tasks k)((c, t, v) \<mapsto> Handled reply)\<rparr>)"
| lost: "\<forall>reply. tasks k (c, t, v) \<noteq> Some (Handled reply) \<Longrightarrow> cluster_step V M True k (k\<lparr>tasks := (tasks k)((c, t, v) := None)\<rparr>)"
| local: "v \<in> set M \<Longrightarrow> local_step V (nodes k v) n \<Longrightarrow> peers n = peers (nodes k v) \<Longrightarrow>
    cluster_step V M True k (k\<lparr>nodes := (nodes k)(v := n)\<rparr>)"
| tx_vote_reply: "v \<in> set M \<Longrightarrow> cluster_step V M (state (nodes k v) = Leader \<longrightarrow> current_term (nodes k v) < t) k
    (k\<lparr>nodes := (nodes k)(v := step_down_on V t (nodes k v))\<rparr>)"

inductive cluster_run :: "('b, 'w, 'c) node_env \<Rightarrow> string list \<Rightarrow> bool \<Rightarrow> ('b, 'w, 'c) cluster \<Rightarrow> ('b, 'w, 'c) cluster \<Rightarrow> bool"
  for V :: "('b, 'w, 'c) node_env" and M :: "string list" where
  start: "cluster_run V M True k k"
| step: "cluster_run V M b k k' \<Longrightarrow> cluster_step V M b' k' k'' \<Longrightarrow> cluster_run V M (b \<and> b') k k''"

text \<open>All nodes are fresh processes on their own disks, and nobody has asked for votes yet.\<close>

definition cluster_init :: "('b, 'w, 'c) node_env \<Rightarrow> string list \<Rightarrow> ('b, 'w, 'c) cluster \<Rightarrow> bool" where
  "cluster_init V M k \<longleftrightarrow> distinct M \<and> 2 \<le> length M \<and> rounds k = Map.empty \<and> tasks k = Map.empty \<and>
     (\<forall>a \<in> set M. \<exists>now sm st. nodes k a = new_node V now a (filter (\<lambda>p. p \<noteq> a) M) sm st \<and>
        store_ok (codec_of V) st \<and> sm_ok (sm_env_of V) sm)"

section \<open>The invariant of elections\<close>

definition promised :: "('b, 'w, 'c) raft_node \<Rightarrow> nat \<Rightarrow> string \<Rightarrow> bool" where
  "promised n t c \<longleftrightarrow> t < current_term n \<or> t = current_term n \<and> vote_for n = Some c"

definition counted :: "('b, 'w, 'c) cluster \<Rightarrow> string \<Rightarrow> nat \<Rightarrow> string \<Rightarrow> bool" where
  "counted k c t v \<longleftrightarrow> v = c \<or> (\<exists>reply. tasks k (c, t, v) = Some (Handled reply) \<and> vote_granted reply)"

text \<open>\<open>v\<close> has voted for \<open>c\<close> in term \<open>t\<close>: the candidate itself, or a granting answer.\<close>

definition voted :: "('b, 'w, 'c) cluster \<Rightarrow> string \<Rightarrow> nat \<Rightarrow> string \<Rightarrow> bool" where
  "voted k c t v \<longleftrightarrow> v = c \<and> rounds k (c, t) \<noteq> None \<or>
     (\<exists>reply. tasks k (c, t, v) \<in> {Some (Answered reply), Some (Handled reply)} \<and> vote_granted reply)"

definition members_ok :: "('b, 'w, 'c) node_env \<Rightarrow> string list \<Rightarrow> ('b, 'w, 'c) cluster \<Rightarrow> bool" where
  "members_ok V M k \<longleftrightarrow> distinct M \<and> 2 \<le> length M \<and>
     (\<forall>a \<in> set M. node_inv V (nodes k a) \<and> node_id (nodes k a) = a \<and> peers (nodes k a) = filter (\<lambda>p. p \<noteq> a) M)"

definition rounds_ok :: "string list \<Rightarrow> ('b, 'w, 'c) cluster \<Rightarrow> bool" where
  "rounds_ok M k \<longleftrightarrow> (\<forall>c t r. rounds k (c, t) = Some r \<longrightarrow> c \<in> set M \<and> round_term r = t \<and> round_total r = length M \<and>
     round_count r \<le> card {v \<in> set M. counted k c t v})"

definition tasks_ok :: "string list \<Rightarrow> ('b, 'w, 'c) cluster \<Rightarrow> bool" where
  "tasks_ok M k \<longleftrightarrow> (\<forall>c t v x. tasks k (c, t, v) = Some x \<longrightarrow> rounds k (c, t) \<noteq> None \<and> v \<in> set M \<and> v \<noteq> c \<and>
     (\<forall>args. x = Sent args \<longrightarrow> rv_term args = t \<and> candidate_id args = c))"

definition votes_ok :: "('b, 'w, 'c) cluster \<Rightarrow> bool" where
  "votes_ok k \<longleftrightarrow> (\<forall>c t v. voted k c t v \<longrightarrow> promised (nodes k v) t c) \<and>
     (\<forall>c c' t v. voted k c t v \<longrightarrow> voted k c' t v \<longrightarrow> c = c')"

definition leaders_ok :: "string list \<Rightarrow> ('b, 'w, 'c) cluster \<Rightarrow> bool" where
  "leaders_ok M k \<longleftrightarrow> (\<forall>c \<in> set M. state (nodes k c) = Leader \<longrightarrow>
     (\<exists>r. rounds k (c, current_term (nodes k c)) = Some r \<and> length M div 2 < round_count r))"

definition cluster_inv :: "('b, 'w, 'c) node_env \<Rightarrow> string list \<Rightarrow> ('b, 'w, 'c) cluster \<Rightarrow> bool" where
  "cluster_inv V M k \<longleftrightarrow> members_ok V M k \<and> rounds_ok M k \<and> tasks_ok M k \<and> votes_ok k \<and> leaders_ok M k"

lemma promised_le: "promised n t c \<Longrightarrow> vote_le n m \<Longrightarrow> promised m t c"
  by (auto simp: promised_def vote_le_def)

lemma promised_unique: "promised n t c \<Longrightarrow> promised n t c' \<Longrightarrow> current_term n \<le> t \<Longrightarrow> c = c'"
  by (auto simp: promised_def)

text \<open>Only the node of \<open>a\<close> changes, and it stays the same member.\<close>

lemma members_ok_update:
  assumes "members_ok V M k" and "a \<in> set M \<Longrightarrow> node_inv V n \<and> node_id n = a \<and> peers n = peers (nodes k a)"
    and "nodes k' = (nodes k)(a := n)"
  shows "members_ok V M k'"
  using assms by (auto simp: members_ok_def)

lemma peers_nonempty:
  assumes "members_ok V M k" and "a \<in> set M"
  shows "peers (nodes k a) \<noteq> []" and "length (peers (nodes k a)) + 1 = length M"
proof -
  have d: "distinct M" and len: "2 \<le> length M" and p: "peers (nodes k a) = filter (\<lambda>p. p \<noteq> a) M"
    using assms by (auto simp: members_ok_def)
  have "length (filter (\<lambda>p. p \<noteq> a) M) + 1 = length M"
    using assms(2) d
  proof (induction M)
    case (Cons b M)
    then show ?case by (cases "b = a") (auto simp: filter_id_conv [THEN iffD2] intro!: arg_cong [where f = length] filter_True)
  qed simp
  then show "length (peers (nodes k a)) + 1 = length M" by (simp add: p)
  then show "peers (nodes k a) \<noteq> []" using len by auto
qed

lemma start_round_sel [simp]:
  "nodes (start_round c r msgs n k) = (nodes k)(c := n)"
  "rounds (start_round c r msgs n k) = (rounds k)((c, round_term r) \<mapsto> r)"
  "tasks (start_round c r msgs n k) (c', t, v) =
     (if c' = c \<and> t = round_term r then map_option Sent (map_of msgs v) else tasks k (c', t, v))"
  by (simp_all add: start_round_def)

text \<open>What a new round of votes looks like, however it was started.\<close>

lemma request_votes_round:
  assumes "request_votes now (promote_to_candidate_locked V now' n) = (r, msgs, m)" and "peers n \<noteq> []"
  shows "round_term r = current_term n + 1" "round_total r = length (peers n) + 1" "round_count r = 1"
    "m = promote_to_candidate_locked V now' n"
    "map_of msgs v = Some args \<Longrightarrow> v \<in> set (peers n) \<and> rv_term args = current_term n + 1 \<and> candidate_id args = node_id n"
  using assms by (auto simp: request_votes_def Let_def frame_simps vote_args_for_def dest!: map_of_SomeD)

lemma no_round_yet:
  assumes "votes_ok k" and "tasks_ok M k" and "current_term (nodes k c) < t"
  shows "rounds k (c, t) = None" and "tasks k (c, t, v) = None" and "\<not> voted k c' t c"
proof -
  show not_voted: "\<not> voted k c' t c" for c'
  proof
    assume "voted k c' t c"
    then have "promised (nodes k c) t c'" using assms(1) by (simp add: votes_ok_def)
    then show False using assms(3) by (auto simp: promised_def)
  qed
  then show none: "rounds k (c, t) = None" by (auto simp: voted_def)
  show "tasks k (c, t, v) = None"
    using assms(2) none unfolding tasks_ok_def by (metis option.exhaust)
qed

lemma voted_start_round:
  "voted (start_round c r msgs n k) c' t v \<longleftrightarrow> (if c' = c \<and> t = round_term r then v = c else voted k c' t v)"
  by (auto simp: voted_def split: if_splits)

lemma start_round_votes_ok:
  assumes "votes_ok k" and "vote_le (nodes k c) n" and "promised n (round_term r) c"
    and "\<And>c'. \<not> voted k c' (round_term r) c"
  shows "votes_ok (start_round c r msgs n k)"
  unfolding votes_ok_def
proof (intro conjI allI impI)
  let ?k = "start_round c r msgs n k"
  fix c' t v assume v: "voted ?k c' t v"
  show "promised (nodes ?k v) t c'"
  proof (cases "c' = c \<and> t = round_term r")
    case True
    then show ?thesis using v voted_start_round [of c r msgs n k c' t v] assms(3) by simp
  next
    case False
    then have "voted k c' t v" using v voted_start_round [of c r msgs n k c' t v] by auto
    then have "promised (nodes k v) t c'" using assms(1) by (simp add: votes_ok_def)
    then show ?thesis using promised_le [OF _ assms(2)] by (cases "v = c") auto
  qed
next
  let ?k = "start_round c r msgs n k"
  fix c' c'' t v assume "voted ?k c' t v" and "voted ?k c'' t v"
  then show "c' = c''"
    using voted_start_round [of c r msgs n k c' t v] voted_start_round [of c r msgs n k c'' t v] assms(1,4)
    unfolding votes_ok_def by (metis (full_types))
qed

lemma start_round_inv:
  assumes inv: "cluster_inv V M k" and c: "c \<in> set M"
    and r: "round_term r = current_term (nodes k c) + 1" "round_total r = length M" "round_count r = 1"
    and n: "n = promote_to_candidate_locked V now (nodes k c)"
    and msgs: "\<And>v args. map_of msgs v = Some args \<Longrightarrow>
        v \<in> set M \<and> v \<noteq> c \<and> rv_term args = round_term r \<and> candidate_id args = c"
  shows "cluster_inv V M (start_round c r msgs n k)"
proof -
  let ?k = "start_round c r msgs n k" and ?T = "current_term (nodes k c) + 1"
  have ok: "members_ok V M k" "rounds_ok M k" "tasks_ok M k" "votes_ok k" "leaders_ok M k"
    using inv by (simp_all add: cluster_inv_def)
  have T: "current_term (nodes k c) < round_term r" using r(1) by simp
  note new = no_round_yet [OF ok(4,3) T]
  have id: "node_inv V (nodes k c)" "node_id (nodes k c) = c" using ok(1) c by (simp_all add: members_ok_def)
  have le: "vote_le (nodes k c) n" by (simp add: n vote_le_def frame_simps)
  have counted_iff: "c' = c \<and> t = round_term r \<or> counted ?k c' t = counted k c' t" for c' t
    by (auto simp: counted_def fun_eq_iff)
  have "members_ok V M ?k"
    by (rule members_ok_update [OF ok(1), of c n])
      (simp_all add: n frame_simps id node_inv_promote [OF id(1)])
  moreover have "rounds_ok M ?k"
    unfolding rounds_ok_def
  proof (intro allI impI)
    fix c' t r' assume r': "rounds ?k (c', t) = Some r'"
    show "c' \<in> set M \<and> round_term r' = t \<and> round_total r' = length M \<and> round_count r' \<le> card {v \<in> set M. counted ?k c' t v}"
    proof (cases "c' = c \<and> t = round_term r")
      case True
      have "{c} \<subseteq> {v \<in> set M. counted ?k c t v}" using c by (simp add: counted_def)
      from card_mono [OF _ this] show ?thesis using True r' r c by simp
    next
      case False
      then show ?thesis using r' ok(2) counted_iff [of c' t] by (auto simp: rounds_ok_def)
    qed
  qed
  moreover have "tasks_ok M ?k"
    using ok(3) by (auto simp: tasks_ok_def split: if_splits dest: msgs)
  moreover have "votes_ok ?k"
    by (rule start_round_votes_ok [OF ok(4) le]) (use new(3) r(1) id(2) in \<open>simp_all add: promised_def n frame_simps\<close>)
  moreover have "leaders_ok M ?k"
    using ok(5) by (auto simp: leaders_ok_def n frame_simps)
  ultimately show ?thesis by (simp add: cluster_inv_def)
qed

text \<open>Changing one node to a later state of itself, with the recorded votes as they were.\<close>

lemma votes_ok_node:
  assumes "votes_ok k" and "vote_le (nodes k v) n" and "nodes k' = (nodes k)(v := n)" and "voted k' = voted k"
  shows "votes_ok k'"
  using assms promised_le [OF _ assms(2)] by (auto simp: votes_ok_def)

lemma local_inv:
  assumes inv: "cluster_inv V M k" and v: "v \<in> set M" and s: "local_step V (nodes k v) n"
    and p: "peers n = peers (nodes k v)"
  shows "cluster_inv V M (k\<lparr>nodes := (nodes k)(v := n)\<rparr>)"
proof -
  let ?k = "k\<lparr>nodes := (nodes k)(v := n)\<rparr>"
  have ok: "members_ok V M k" "rounds_ok M k" "tasks_ok M k" "votes_ok k" "leaders_ok M k"
    using inv by (simp_all add: cluster_inv_def)
  have i: "node_inv V (nodes k v)" "node_id (nodes k v) = v" using ok(1) v by (simp_all add: members_ok_def)
  have np: "no_promotion (nodes k v) n" using no_promotion_local [OF s] peers_nonempty(1) [OF ok(1) v] by blast
  have same: "voted ?k = voted k" "counted ?k = counted k" by (simp_all add: voted_def counted_def fun_eq_iff)
  have "members_ok V M ?k"
    by (rule members_ok_update [OF ok(1), of v n])
      (use node_inv_local [OF s i(1)] np i(2) p in \<open>simp_all add: no_promotion_def\<close>)
  moreover have "votes_ok ?k"
    by (rule votes_ok_node [OF ok(4) vote_le_local [OF s i(1)]]) (simp_all add: same)
  moreover have "leaders_ok M ?k" using ok(5) np v by (auto simp: leaders_ok_def no_promotion_def)
  ultimately show ?thesis
    using ok(2,3) by (simp add: cluster_inv_def rounds_ok_def tasks_ok_def same)
qed

lemma step_down_peers: "peers (step_down_on V t n) = peers n"
  by (simp add: step_down_on_def frame_simps)

lemma tx_vote_reply_inv:
  assumes "cluster_inv V M k" and "v \<in> set M" and "state (nodes k v) = Leader \<longrightarrow> current_term (nodes k v) < t"
  shows "cluster_inv V M (k\<lparr>nodes := (nodes k)(v := step_down_on V t (nodes k v))\<rparr>)"
proof (cases "state (nodes k v) = Leader")
  case True
  then show ?thesis using assms by (intro local_inv) (simp_all add: local_step.tx_step_down step_down_peers)
next
  case False
  then show ?thesis using assms(1) by (simp add: step_down_on_def)
qed

lemma request_vote_peers: "peers (snd (handle_request_vote V now args n)) = peers n"
  by (simp add: handle_request_vote_eq frame_simps)

lemma answer_inv:
  assumes inv: "cluster_inv V M k" and v: "v \<in> set M" and sent: "tasks k (c, t, v) = Some (Sent args)"
    and h: "handle_request_vote V now args (nodes k v) = (reply, n)"
  shows "cluster_inv V M (k\<lparr>nodes := (nodes k)(v := n), tasks := (tasks k)((c, t, v) \<mapsto> Answered reply)\<rparr>)"
proof -
  let ?kv = "k\<lparr>nodes := (nodes k)(v := n)\<rparr>"
  let ?k = "k\<lparr>nodes := (nodes k)(v := n), tasks := (tasks k)((c, t, v) \<mapsto> Answered reply)\<rparr>"
  have ok: "members_ok V M k" "tasks_ok M k" "votes_ok k" using inv by (simp_all add: cluster_inv_def)
  have n: "n = snd (handle_request_vote V now args (nodes k v))" "reply = fst (handle_request_vote V now args (nodes k v))"
    using h by simp_all
  have "cluster_inv V M ?kv"
    by (rule local_inv [OF inv v]) (simp_all add: n request_vote_peers local_step.request_vote)
  then have ok0: "members_ok V M ?kv" "rounds_ok M ?kv" "tasks_ok M ?kv" "votes_ok ?kv" "leaders_ok M ?kv"
    by (simp_all add: cluster_inv_def)
  have args: "rv_term args = t" "candidate_id args = c" "v \<noteq> c" "rounds k (c, t) \<noteq> None"
    using ok(2) sent by (auto simp: tasks_ok_def)
  have i: "node_inv V (nodes k v)" using ok(1) v by (simp add: members_ok_def)
  have voted_iff: "voted ?k c' t' v' \<longleftrightarrow> voted k c' t' v' \<or> c' = c \<and> t' = t \<and> v' = v \<and> vote_granted reply" for c' t' v'
    using sent args(3) by (auto simp: voted_def)
  have "counted ?k = counted ?kv" using sent by (auto simp: counted_def fun_eq_iff)
  then have "rounds_ok M ?k" using ok0(2) by (simp add: rounds_ok_def)
  moreover have "members_ok V M ?k" "leaders_ok M ?k" using ok0(1,5) by (simp_all add: members_ok_def leaders_ok_def)
  moreover have "tasks_ok M ?k" using ok(2) sent by (auto simp: tasks_ok_def)
  moreover have "votes_ok ?k"
  proof -
    have g: "grants_vote args (nodes k v) \<and> promised n t c" if "vote_granted reply"
      using that request_vote_spec [OF node_invD(1,2) [OF i], of now args] args(1,2)
      by (auto simp: n promised_def grants_vote_def)
    have u: "c' = c" if "vote_granted reply" and "voted k c' t v" for c'
    proof -
      have "promised (nodes k v) t c'" using that(2) ok(3) by (simp add: votes_ok_def)
      then show ?thesis using g [OF that(1)] args(1,2) by (auto simp: promised_def grants_vote_def)
    qed
    have "voted ?kv = voted k" by (simp add: voted_def fun_eq_iff)
    then have p: "voted k c' t' v' \<Longrightarrow> promised (nodes ?k v') t' c'" for c' t' v'
      using ok0(4) by (simp add: votes_ok_def)
    show ?thesis
      unfolding votes_ok_def voted_iff using p g u ok(3) by (auto simp: votes_ok_def)
  qed
  ultimately show ?thesis by (simp add: cluster_inv_def)
qed

lemma vote_reply_shape:
  assumes "vote_reply_handler V now reply (r, n) = (r', m)"
  shows "round_term r' = round_term r" "round_total r' = round_total r"
    "round_count r' = round_count r + (if vote_granted reply then 1 else 0)"
    "node_id m = node_id n" "peers m = peers n"
    "state m = Leader \<Longrightarrow> m = n \<or>
       current_term m = round_term r \<and> round_total r div 2 < round_count r'"
  using assms by (auto simp: vote_reply_handler_def become_leader_def frame_simps Let_def split: if_splits)

lemma reply_inv:
  assumes inv: "cluster_inv V M k" and c: "c \<in> set M" and ans: "tasks k (c, t, v) = Some (Answered reply)"
    and r: "rounds k (c, t) = Some r" and h: "vote_reply_handler V now reply (r, nodes k c) = (r', n)"
    and fresh: "fresh_reply r reply (nodes k c)"
  shows "cluster_inv V M (k\<lparr>nodes := (nodes k)(c := n), rounds := (rounds k)((c, t) \<mapsto> r'),
      tasks := (tasks k)((c, t, v) \<mapsto> Handled reply)\<rparr>)"
proof -
  let ?k = "k\<lparr>nodes := (nodes k)(c := n), rounds := (rounds k)((c, t) \<mapsto> r'),
      tasks := (tasks k)((c, t, v) \<mapsto> Handled reply)\<rparr>"
  have ok: "members_ok V M k" "rounds_ok M k" "tasks_ok M k" "votes_ok k" "leaders_ok M k"
    using inv by (simp_all add: cluster_inv_def)
  note shape = vote_reply_shape [OF h]
  have i: "node_inv V (nodes k c)" "node_id (nodes k c) = c" using ok(1) c by (simp_all add: members_ok_def)
  have v: "v \<in> set M" "v \<noteq> c" using ok(3) ans by (auto simp: tasks_ok_def)
  have rr: "round_term r = t" "round_total r = length M" "round_count r \<le> card {u \<in> set M. counted k c t u}"
    using ok(2) r by (auto simp: rounds_ok_def)
  have n: "n = snd (vote_reply_handler V now reply (r, nodes k c))" using h by simp
  have "voted ?k = voted k" using ans r by (auto simp: voted_def fun_eq_iff)
  then have "votes_ok ?k"
    by (intro votes_ok_node [OF ok(4), of c n]) (simp_all add: n vote_le_vote_reply [OF fresh])
  moreover have "members_ok V M ?k"
    by (rule members_ok_update [OF ok(1), of c n]) (use shape i node_inv_vote_reply [OF i(1)] n in simp_all)
  moreover have "tasks_ok M ?k" using ok(3) ans r by (auto simp: tasks_ok_def)
  moreover have "length M div 2 < round_count r" if "state (nodes k c) = Leader" "current_term (nodes k c) = t"
    using that ok(5) c r by (auto simp: leaders_ok_def)
  then have "leaders_ok M ?k"
    using ok(5) shape r rr(1,2) by (auto simp: leaders_ok_def intro: less_SucI)
  moreover have "rounds_ok M ?k"
    unfolding rounds_ok_def
  proof (intro allI impI)
    fix c' t' q assume q: "rounds ?k (c', t') = Some q"
    show "c' \<in> set M \<and> round_term q = t' \<and> round_total q = length M \<and> round_count q \<le> card {u \<in> set M. counted ?k c' t' u}"
    proof (cases "c' = c \<and> t' = t")
      case False
      then have "counted ?k c' t' = counted k c' t'" by (auto simp: counted_def fun_eq_iff)
      then show ?thesis using False q ok(2) by (auto simp: rounds_ok_def)
    next
      case True
      let ?S = "{u \<in> set M. counted k c t u}"
      have "{u \<in> set M. counted ?k c t u} = (if vote_granted reply then insert v ?S else ?S)"
        using ans v by (auto simp: counted_def)
      moreover have "v \<notin> ?S" using ans v by (simp add: counted_def)
      ultimately have "round_count r' \<le> card {u \<in> set M. counted ?k c t u}" using rr(3) shape(3) by simp
      then show ?thesis using True q c rr shape by auto
    qed
  qed
  ultimately show ?thesis by (simp add: cluster_inv_def)
qed

lemma lost_inv:
  assumes inv: "cluster_inv V M k" and "\<forall>reply. tasks k (c, t, v) \<noteq> Some (Handled reply)"
  shows "cluster_inv V M (k\<lparr>tasks := (tasks k)((c, t, v) := None)\<rparr>)"
proof -
  let ?k = "k\<lparr>tasks := (tasks k)((c, t, v) := None)\<rparr>"
  have sub: "voted ?k c' t' v' \<Longrightarrow> voted k c' t' v'" for c' t' v' by (auto simp: voted_def split: if_splits)
  have "counted ?k = counted k" using assms(2) by (auto simp: counted_def fun_eq_iff)
  moreover have "votes_ok k" using inv by (simp add: cluster_inv_def)
  then have "votes_ok ?k" using sub unfolding votes_ok_def by (metis cluster.select_convs(1) cluster.surjective cluster.update_convs(3))
  ultimately show ?thesis
    using inv by (auto simp: cluster_inv_def members_ok_def rounds_ok_def tasks_ok_def leaders_ok_def)
qed

lemma round_messages:
  assumes "members_ok V M k" and "c \<in> set M"
    and "request_votes now (promote_to_candidate_locked V now' (nodes k c)) = (r, msgs, n)"
    and "cluster_inv V M k"
  shows "cluster_inv V M (start_round c r msgs n k)"
proof -
  note p = peers_nonempty [OF assms(1,2)]
  note q = request_votes_round [OF assms(3) p(1)]
  have "node_id (nodes k c) = c" "peers (nodes k c) = filter (\<lambda>p. p \<noteq> c) M"
    using assms(1,2) by (simp_all add: members_ok_def)
  then show ?thesis
    using q p(2) by (intro start_round_inv [OF assms(4,2) q(1) _ q(3,4)]) auto
qed

lemma cluster_step_inv: "cluster_step V M b k k' \<Longrightarrow> b \<Longrightarrow> cluster_inv V M k \<Longrightarrow> cluster_inv V M k'"
proof (induction rule: cluster_step.induct)
  case (campaign c now k r msgs n)
  then show ?case
    by (intro round_messages [of V M k c now now]) (simp_all add: become_candidate_def cluster_inv_def)
next
  case (probe_quorum c now reply pr k pr' r msgs n)
  then show ?case
    by (intro round_messages [of V M k c now now])
      (auto simp: process_pre_vote_reply_def cluster_inv_def Let_def split: if_splits prod.splits)
qed (simp_all add: answer_inv reply_inv lost_inv local_inv tx_vote_reply_inv)

lemma cluster_init_inv:
  assumes "cluster_init V M k"
  shows "cluster_inv V M k"
proof -
  have node: "node_inv V (nodes k a) \<and> node_id (nodes k a) = a \<and> peers (nodes k a) = filter (\<lambda>p. p \<noteq> a) M \<and>
      state (nodes k a) = Follower" if "a \<in> set M" for a
  proof -
    from assms that obtain now sm st where n: "nodes k a = new_node V now a (filter (\<lambda>p. p \<noteq> a) M) sm st"
      "store_ok (codec_of V) st" "sm_ok (sm_env_of V) sm" unfolding cluster_init_def by blast
    have "a \<notin> set (filter (\<lambda>p. p \<noteq> a) M)" by simp
    from node_inv_new [OF n(2,3) this, of now] show ?thesis
      by (simp add: n(1)) (simp add: new_node_def load_initial_state_def)
  qed
  then have "members_ok V M k" using assms by (simp add: members_ok_def cluster_init_def)
  moreover have "state (nodes k a) = Follower" if "a \<in> set M" for a using node that by blast
  ultimately show ?thesis
    using assms by (auto simp: cluster_inv_def cluster_init_def rounds_ok_def tasks_ok_def votes_ok_def
        voted_def leaders_ok_def)
qed

lemma cluster_run_inv:
  assumes "cluster_run V M b k k'" and "b" and "cluster_init V M k"
  shows "cluster_inv V M k'"
proof -
  have "b \<longrightarrow> cluster_inv V M k'"
    using assms(1) cluster_init_inv [OF assms(3)]
  proof (induction rule: cluster_run.induct)
    case (step b k k' b' k'')
    then show ?case using cluster_step_inv [of V M b' k' k''] by blast
  qed simp
  then show ?thesis using assms(2) by simp
qed

text \<open>A candidate has won a term when its round has counted a majority; that stays so.\<close>

definition won :: "string list \<Rightarrow> ('b, 'w, 'c) cluster \<Rightarrow> string \<Rightarrow> nat \<Rightarrow> bool" where
  "won M k c t \<longleftrightarrow> (\<exists>r. rounds k (c, t) = Some r \<and> length M div 2 < round_count r)"

lemma won_majority:
  assumes "cluster_inv V M k" and "won M k c t"
  shows "is_majority M {v. voted k c t v}"
proof -
  from assms(1) have inv: "members_ok V M k" "rounds_ok M k" by (simp_all add: cluster_inv_def)
  from assms(2) obtain r where r: "rounds k (c, t) = Some r" "length M div 2 < round_count r" by (auto simp: won_def)
  have d: "distinct M" using inv(1) by (simp add: members_ok_def)
  have "round_count r \<le> card {v \<in> set M. counted k c t v}" using inv(2) r(1) unfolding rounds_ok_def by blast
  also have "\<dots> \<le> card ({v. voted k c t v} \<inter> set M)"
    by (intro card_mono) (auto simp: counted_def voted_def r(1))
  finally show ?thesis using r(2) by (simp add: is_majority_def distinct_card [OF d])
qed

lemma won_unique:
  assumes "cluster_inv V M k" and "won M k c t" and "won M k c' t"
  shows "c = c'"
proof -
  obtain v where "voted k c t v" "voted k c' t v"
    using majority.overlap [OF won_majority [OF assms(1,2)] won_majority [OF assms(1,3)]] by blast
  then show ?thesis using assms(1) unfolding cluster_inv_def votes_ok_def by blast
qed

lemma leader_won:
  assumes "cluster_inv V M k" and "c \<in> set M" and "state (nodes k c) = Leader"
  shows "won M k c (current_term (nodes k c))"
  using assms by (auto simp: cluster_inv_def leaders_ok_def won_def)

lemma one_leader_per_term:
  assumes "cluster_inv V M k'" and "a \<in> set M" and "state (nodes k' a) = Leader"
    and "c \<in> set M" and "state (nodes k' c) = Leader" and "current_term (nodes k' a) = current_term (nodes k' c)"
  shows "a = c"
  using won_unique [OF assms(1) leader_won [OF assms(1-3)]] leader_won [OF assms(1,4,5)] assms(6) by simp

text \<open>C3: Election safety: in a cluster with fixed membership, along every run in which no vote refusal
  and no answer to a vote on a transaction is handled after the node has already moved on to the term of the
  reply or beyond, at most one node is leader in any term. Votes may be answered, lost and counted in any order, all other messages
  may arrive at any time, and nodes may restart.\<close>

theorem election_safety:
  assumes "cluster_init V M k" and "cluster_run V M b k k'" and "b"
    and "a \<in> set M" and "state (nodes k' a) = Leader"
    and "c \<in> set M" and "state (nodes k' c) = Leader"
    and "current_term (nodes k' a) = current_term (nodes k' c)"
  shows "a = c"
  using one_leader_per_term [OF cluster_run_inv [OF assms(2,3,1)] assms(4-8)] .

section \<open>Runs of a three-node cluster\<close>

abbreviation M3 :: "string list" where
  "M3 \<equiv> [''a'', ''b'', ''c'']"

type_synonym ex_cluster = "(doc, wal_unit, raft_doc) cluster"

definition init3 :: ex_cluster where
  "init3 = \<lparr>nodes = (\<lambda>a. ex_start a (filter (\<lambda>p. p \<noteq> a) M3)), rounds = Map.empty, tasks = Map.empty\<rparr>"

definition do_campaign :: "string \<Rightarrow> ex_cluster \<Rightarrow> ex_cluster" where
  "do_campaign c k = (case become_candidate V0 0 (nodes k c) of (r, msgs, n) \<Rightarrow> start_round c r msgs n k)"

definition do_answer :: "string \<Rightarrow> nat \<Rightarrow> string \<Rightarrow> ex_cluster \<Rightarrow> ex_cluster" where
  "do_answer c t v k = (case tasks k (c, t, v) of
      Some (Sent args) \<Rightarrow> (case handle_request_vote V0 0 args (nodes k v) of (reply, n) \<Rightarrow>
        k\<lparr>nodes := (nodes k)(v := n), tasks := (tasks k)((c, t, v) \<mapsto> Answered reply)\<rparr>)
    | _ \<Rightarrow> k)"

definition do_reply :: "string \<Rightarrow> nat \<Rightarrow> string \<Rightarrow> ex_cluster \<Rightarrow> ex_cluster" where
  "do_reply c t v k = (case (tasks k (c, t, v), rounds k (c, t)) of
      (Some (Answered reply), Some r) \<Rightarrow> (case vote_reply_handler V0 0 reply (r, nodes k c) of (r', n) \<Rightarrow>
        k\<lparr>nodes := (nodes k)(c := n), rounds := (rounds k)((c, t) \<mapsto> r'),
          tasks := (tasks k)((c, t, v) \<mapsto> Handled reply)\<rparr>)
    | _ \<Rightarrow> k)"

definition run3 :: "ex_cluster \<Rightarrow> bool" where
  "run3 k \<longleftrightarrow> (\<exists>b. cluster_run V0 M3 b init3 k)"

lemma run3_start: "run3 init3"
  unfolding run3_def by (blast intro: cluster_run.start)

lemma run3_step: "run3 k \<Longrightarrow> cluster_step V0 M3 b k k' \<Longrightarrow> run3 k'"
  unfolding run3_def by (blast intro: cluster_run.step)

lemma run3_campaign: "run3 k \<Longrightarrow> c \<in> set M3 \<Longrightarrow> run3 (do_campaign c k)"
proof -
  assume k: "run3 k" and c: "c \<in> set M3"
  obtain r msgs n where e: "become_candidate V0 0 (nodes k c) = (r, msgs, n)" by (metis prod_cases3)
  show ?thesis using run3_step [OF k cluster_step.campaign [OF c e]] by (simp add: do_campaign_def e)
qed

lemma run3_answer: "run3 k \<Longrightarrow> v \<in> set M3 \<Longrightarrow> run3 (do_answer c t v k)"
proof -
  assume k: "run3 k" and v: "v \<in> set M3"
  show ?thesis
  proof (cases "\<exists>args. tasks k (c, t, v) = Some (Sent args)")
    case True
    then obtain args where a: "tasks k (c, t, v) = Some (Sent args)" by blast
    obtain reply n where e: "handle_request_vote V0 0 args (nodes k v) = (reply, n)" by fastforce
    show ?thesis using run3_step [OF k cluster_step.answer [OF v a e]] by (simp add: do_answer_def a e)
  next
    case False
    then have "do_answer c t v k = k" by (auto simp: do_answer_def split: option.splits task.splits)
    then show ?thesis using k by simp
  qed
qed

lemma run3_reply: "run3 k \<Longrightarrow> c \<in> set M3 \<Longrightarrow> run3 (do_reply c t v k)"
proof -
  assume k: "run3 k" and c: "c \<in> set M3"
  show ?thesis
  proof (cases "\<exists>reply r. tasks k (c, t, v) = Some (Answered reply) \<and> rounds k (c, t) = Some r")
    case True
    then obtain reply r where a: "tasks k (c, t, v) = Some (Answered reply)" "rounds k (c, t) = Some r" by blast
    obtain r' n where e: "vote_reply_handler V0 0 reply (r, nodes k c) = (r', n)" by fastforce
    show ?thesis using run3_step [OF k cluster_step.reply [OF c a e]] by (simp add: do_reply_def a e)
  next
    case False
    then have "do_reply c t v k = k" by (auto simp: do_reply_def split: option.splits task.splits)
    then show ?thesis using k by simp
  qed
qed

lemma init3_ok: "cluster_init V0 M3 init3"
  unfolding cluster_init_def
proof (intro conjI ballI)
  fix a assume "a \<in> set M3"
  show "\<exists>now sm st. nodes init3 a = new_node V0 now a (filter (\<lambda>p. p \<noteq> a) M3) sm st \<and>
      store_ok (codec_of V0) st \<and> sm_ok (sm_env_of V0) sm"
    by (rule exI [of _ 0], rule exI [of _ "fresh_sm 1000"], rule exI [of _ "empty_store []"])
      (use empty_store_ok fresh_sm_ok in \<open>simp add: init3_def ex_start_def\<close>)
qed (simp_all add: init3_def)

definition elected_a :: ex_cluster where
  "elected_a = do_reply ''a'' 1 ''b'' (do_answer ''a'' 1 ''b'' (do_campaign ''a'' init3))"

lemma elected_a_facts:
  "state (nodes elected_a ''a'') = Leader" "current_term (nodes elected_a ''a'') = 1"
  by code_simp+

lemma elected_a_steps:
  "cluster_step V0 M3 True init3 (do_campaign ''a'' init3)"
  "cluster_step V0 M3 True (do_campaign ''a'' init3) (do_answer ''a'' 1 ''b'' (do_campaign ''a'' init3))"
  "cluster_step V0 M3 True (do_answer ''a'' 1 ''b'' (do_campaign ''a'' init3)) elected_a"
proof -
  let ?k1 = "do_campaign ''a'' init3" and ?k2 = "do_answer ''a'' 1 ''b'' (do_campaign ''a'' init3)"
  obtain r msgs n where 1: "become_candidate V0 0 (nodes init3 ''a'') = (r, msgs, n)" by (metis prod_cases3)
  define args where "args = vote_args_for 1 (nodes ?k1 ''a'')"
  have s: "tasks ?k1 (''a'', 1, ''b'') = Some (Sent args)" unfolding args_def by code_simp
  obtain reply m where 2: "handle_request_vote V0 0 args (nodes ?k1 ''b'') = (reply, m)" by fastforce
  have t: "tasks ?k2 (''a'', 1, ''b'') = Some (Answered \<lparr>vr_term = 1, vote_granted = True\<rparr>)"
    "rounds ?k2 (''a'', 1) = Some \<lparr>round_term = 1, round_total = 3, round_count = 1\<rparr>" by code_simp+
  obtain r' q where 3: "vote_reply_handler V0 0 \<lparr>vr_term = 1, vote_granted = True\<rparr>
      (\<lparr>round_term = 1, round_total = 3, round_count = 1\<rparr>, nodes ?k2 ''a'') = (r', q)" by fastforce
  show "cluster_step V0 M3 True init3 ?k1"
    using cluster_step.campaign [OF _ 1, of M3] by (simp add: do_campaign_def 1)
  show "cluster_step V0 M3 True ?k1 ?k2"
    using cluster_step.answer [OF _ s 2, of M3] by (simp add: do_answer_def s 2 del: One_nat_def)
  show "cluster_step V0 M3 True ?k2 elected_a"
    using cluster_step.reply [OF _ t 3, of M3] by (simp add: elected_a_def do_reply_def t 3 fresh_reply_def del: One_nat_def)
qed

theorem election_safety_witness:
  "\<not> (state (nodes elected_a ''c'') = Leader \<and> current_term (nodes elected_a ''c'') = current_term (nodes elected_a ''a''))"
proof
  assume c: "state (nodes elected_a ''c'') = Leader \<and> current_term (nodes elected_a ''c'') = current_term (nodes elected_a ''a'')"
  from elected_a_steps have "cluster_run V0 M3 (((True \<and> True) \<and> True) \<and> True) init3 elected_a"
    by (intro cluster_run.step) (rule cluster_run.start)
  from election_safety [OF init3_ok this, of "''a''" "''c''"] c show False by (simp add: elected_a_facts)
qed

text \<open>\<open>b\<close> is elected in term 2 with the vote of \<open>a\<close>; the late refusal that \<open>b\<close> had sent to \<open>a\<close> in
  term 1 makes \<open>a\<close> forget that vote; \<open>c\<close> gets it again.\<close>

definition split_brain :: ex_cluster where
  "split_brain =
     (let k = do_campaign ''b'' (do_campaign ''b'' (do_campaign ''a'' init3));
          k = do_answer ''a'' 1 ''b'' k;
          k = do_reply ''b'' 2 ''a'' (do_answer ''b'' 2 ''a'' k);
          k = do_reply ''a'' 1 ''b'' k;
          k = do_campaign ''c'' (do_campaign ''c'' k)
      in do_reply ''c'' 2 ''a'' (do_answer ''c'' 2 ''a'' k))"

text \<open>C34: The restriction on late refusals is needed: the handler of a refused vote adopts the term of
  the reply without comparing it with its own and forgets its vote, and so a run of a three-node
  cluster ends with two leaders in the same term.\<close>

theorem late_refusal_splits_cluster:
  "\<exists>k b. cluster_init V0 M3 k \<and> cluster_run V0 M3 b k split_brain \<and>
     state (nodes split_brain ''b'') = Leader \<and> state (nodes split_brain ''c'') = Leader \<and>
     current_term (nodes split_brain ''b'') = 2 \<and> current_term (nodes split_brain ''c'') = 2"
proof -
  have "run3 split_brain"
    unfolding split_brain_def Let_def by (intro run3_campaign run3_answer run3_reply run3_start) simp_all
  moreover have "state (nodes split_brain ''b'') = Leader" "state (nodes split_brain ''c'') = Leader"
    "current_term (nodes split_brain ''b'') = 2" "current_term (nodes split_brain ''c'') = 2" by code_simp+
  ultimately show ?thesis using init3_ok unfolding run3_def by blast
qed

end
