(* ===== verification/Invariants.thy ===== *)
theory Invariants
  imports Cluster
begin

text \<open>
  The checkers of \<open>src/raft/invariants.rs\<close> that every simulated run calls at the end. They read
  the nodes of the cluster, here the list of their leader_ids and states, and return the first violation
  they find; \<open>None\<close> stands for the panic of an index beyond the end of a log. The lemmas say
  exactly when each checker accepts, that two of the five are implied by the others, that the
  printed form of a command, which one of them compares, does not determine the command, and that
  a cluster run satisfies the election check.
\<close>

section \<open>Definitions\<close>

datatype invariant_violation =
    ElectionSafety nat "string list"
  | StateMachineSafety nat string string string string
  | LogMatchingProperty nat string string nat nat string string
  | CommittedEntryDurability nat string string string
  | TwoPhaseCommitAtomicity string "(string \<times> string) list"

type_synonym invariant_result = "(invariant_violation + unit) option"

definition and_then :: "invariant_result \<Rightarrow> invariant_result \<Rightarrow> invariant_result" where
  "and_then r r' = (case r of Some (Inr _) \<Rightarrow> r' | _ \<Rightarrow> r)"

lemma and_then_ok [simp]: "and_then r r' = Some (Inr ()) \<longleftrightarrow> r = Some (Inr ()) \<and> r' = Some (Inr ())"
  by (auto simp: and_then_def split: option.splits sum.splits)

fun show_decision :: "tx_decision \<Rightarrow> string" where
  "show_decision Commit = ''Commit''"
| "show_decision Abort = ''Abort''"

fun fmt_command :: "command \<Rightarrow> string" where
  "fmt_command (CmdSet k v) = ''Set('' @ k @ '','' @ v @ '')''"
| "fmt_command (CmdGet k) = ''Get('' @ k @ '')''"
| "fmt_command (CmdDelete k) = ''Delete('' @ k @ '')''"
| "fmt_command CmdCompact = ''Compact''"
| "fmt_command (CmdBeginTx tx ops) = ''BeginTx('' @ tx @ '', '' @ show_nat (length ops) @ '' ops)''"
| "fmt_command (CmdDecideTx tx d) = ''DecideTx('' @ tx @ '','' @ show_decision d @ '')''"
| "fmt_command (CmdAddNode s) = ''AddNode('' @ node_id_of s @ '','' @ addr_of_server s @ '')''"
| "fmt_command (CmdRemoveNode i) = ''RemoveNode('' @ i @ '')''"
| "fmt_command (CmdInstallConfiguration (Simple s)) =
     ''InstallConfiguration(Simple,'' @ show_nat (length s) @ '' servers)''"
| "fmt_command (CmdInstallConfiguration (Joint old new)) =
     ''InstallConfiguration(Joint, old:'' @ show_nat (length old) @ '' new:'' @ show_nat (length new) @ '')''"
| "fmt_command (CmdAbortTx tx) = ''AbortTx('' @ tx @ '')''"

type_synonym ('b, 'w, 'c) sim_nodes = "(string \<times> ('b, 'w, 'c) raft_node) list"

text \<open>\<open>by_term.entry(t).or_default().push(id)\<close> for every leader, then the scan in order of terms.\<close>

fun leaders_by_term :: "('b, 'w, 'c) sim_nodes \<Rightarrow> (nat \<times> string list) list \<Rightarrow> (nat \<times> string list) list" where
  "leaders_by_term [] m = m"
| "leaders_by_term ((i, r) # ns) m =
     leaders_by_term ns
       (if state r = Leader
        then bt_insert (current_term r) ((case map_of m (current_term r) of None \<Rightarrow> [] | Some leader_ids \<Rightarrow> leader_ids) @ [i]) m
        else m)"

definition check_election_safety :: "('b, 'w, 'c) sim_nodes \<Rightarrow> invariant_result" where
  "check_election_safety ns =
     (case find (\<lambda>(t, leader_ids). 1 < length leader_ids) (leaders_by_term ns []) of
        Some (t, leader_ids) \<Rightarrow> Some (Inl (ElectionSafety t leader_ids))
      | None \<Rightarrow> Some (Inr ()))"

text \<open>The two nested loops over pairs of nodes and the loop over the first \<open>n\<close> entries of both logs.\<close>

fun check_against :: "('n \<Rightarrow> 'n \<Rightarrow> invariant_result) \<Rightarrow> 'n \<Rightarrow> 'n list \<Rightarrow> invariant_result" where
  "check_against f a [] = Some (Inr ())"
| "check_against f a (b # bs) = and_then (f a b) (check_against f a bs)"

fun check_pairs :: "('n \<Rightarrow> 'n \<Rightarrow> invariant_result) \<Rightarrow> 'n list \<Rightarrow> invariant_result" where
  "check_pairs f [] = Some (Inr ())"
| "check_pairs f (a # bs) = and_then (check_against f a bs) (check_pairs f bs)"

fun walk_logs :: "(nat \<Rightarrow> log_entry \<Rightarrow> log_entry \<Rightarrow> invariant_violation option) \<Rightarrow> nat \<Rightarrow> nat
    \<Rightarrow> log_entry list \<Rightarrow> log_entry list \<Rightarrow> invariant_result" where
  "walk_logs f k 0 la lb = Some (Inr ())"
| "walk_logs f k (Suc n) (ea # la) (eb # lb) =
     (case f k ea eb of Some v \<Rightarrow> Some (Inl v) | None \<Rightarrow> walk_logs f (Suc k) n la lb)"
| "walk_logs f k (Suc n) _ _ = None"

definition check_log_matching_property :: "('b, 'w, 'c) sim_nodes \<Rightarrow> invariant_result" where
  "check_log_matching_property ns =
     check_pairs (\<lambda>(i, ra) (j, rb).
       walk_logs (\<lambda>k ea eb.
           if le_term ea \<noteq> le_term eb \<or> le_command ea \<noteq> le_command eb
           then Some (LogMatchingProperty (k + 1) i j (le_term ea) (le_term eb)
                  (fmt_command (le_command ea)) (fmt_command (le_command eb)))
           else None)
         0 (min (commit_index ra) (commit_index rb)) (log ra) (log rb)) ns"

definition check_state_machine_safety :: "('b, 'w, 'c) sim_nodes \<Rightarrow> invariant_result" where
  "check_state_machine_safety ns =
     check_pairs (\<lambda>(i, ra) (j, rb).
       walk_logs (\<lambda>k ea eb.
           if le_command ea \<noteq> le_command eb
           then Some (StateMachineSafety (k + 1) i j (fmt_command (le_command ea)) (fmt_command (le_command eb)))
           else None)
         0 (min (last_applied ra) (last_applied rb)) (log ra) (log rb)) ns"

definition min_commit :: "('b, 'w, 'c) sim_nodes \<Rightarrow> nat" where
  "min_commit ns = foldl (\<lambda>m (i, r). if commit_index r < m then commit_index r else m) (2 ^ 64 - 1) ns"

text \<open>The first node with the highest commit index: \<open>(ref_idx, best_commit)\<close> through the loop.\<close>

fun best_commit_from :: "nat \<Rightarrow> nat \<times> nat \<Rightarrow> ('b, 'w, 'c) sim_nodes \<Rightarrow> nat \<times> nat" where
  "best_commit_from idx acc [] = acc"
| "best_commit_from idx (ref_idx, best) ((i, r) # ns) =
     best_commit_from (Suc idx) (if best < commit_index r then (idx, commit_index r) else (ref_idx, best)) ns"

fun check_node_log :: "string \<Rightarrow> nat \<Rightarrow> (nat \<times> string) list \<Rightarrow> log_entry list \<Rightarrow> invariant_result" where
  "check_node_log i k [] l = Some (Inr ())"
| "check_node_log i k (expected # es) [] =
     Some (Inl (CommittedEntryDurability (k + 1) i (snd expected) ''<missing>''))"
| "check_node_log i k (expected # es) (e # l) =
     (if fmt_command (le_command e) \<noteq> snd expected
      then Some (Inl (CommittedEntryDurability (k + 1) i (snd expected) (fmt_command (le_command e))))
      else check_node_log i (Suc k) es l)"

fun check_nodes_from :: "nat \<Rightarrow> nat \<Rightarrow> (nat \<times> string) list \<Rightarrow> ('b, 'w, 'c) sim_nodes \<Rightarrow> invariant_result" where
  "check_nodes_from idx ref_idx ref_log [] = Some (Inr ())"
| "check_nodes_from idx ref_idx ref_log ((i, r) # ns) =
     and_then (if idx = ref_idx then Some (Inr ()) else check_node_log i 0 ref_log (log r))
       (check_nodes_from (Suc idx) ref_idx ref_log ns)"

definition check_committed_entry_durability :: "('b, 'w, 'c) sim_nodes \<Rightarrow> invariant_result" where
  "check_committed_entry_durability ns =
     (if ns = [] then Some (Inr ())
      else if min_commit ns = 2 ^ 64 - 1 then Some (Inr ())
      else let ref_idx = fst (best_commit_from 0 (0, 0) ns);
               ref_log = map (\<lambda>e. (le_term e, fmt_command (le_command e))) (take (min_commit ns) (log (snd (ns ! ref_idx))))
           in check_nodes_from 0 ref_idx ref_log ns)"

type_synonym decisions = "(string \<times> (string \<times> nat \<times> string) list) list"

fun log_decisions :: "string \<Rightarrow> log_entry list \<Rightarrow> decisions \<Rightarrow> decisions" where
  "log_decisions i [] m = m"
| "log_decisions i (e # es) m =
     log_decisions i es
       (case le_command e of
          CmdDecideTx tx d \<Rightarrow>
            bt_insert tx (bt_insert i (le_term e, show_decision d) (case map_of m tx of None \<Rightarrow> [] | Some nm \<Rightarrow> nm)) m
        | _ \<Rightarrow> m)"

fun tx_decisions :: "('b, 'w, 'c) sim_nodes \<Rightarrow> decisions \<Rightarrow> decisions" where
  "tx_decisions [] m = m"
| "tx_decisions ((i, r) # ns) m = tx_decisions ns (log_decisions i (log r) m)"

definition check_2pc_atomicity :: "('b, 'w, 'c) sim_nodes \<Rightarrow> invariant_result" where
  "check_2pc_atomicity ns =
     (if ns = [] then Some (Inr ())
      else case find (\<lambda>(tx, per_node). 1 < length (remdups_adj (sort (map (\<lambda>(n, t, d). d) per_node)))) (tx_decisions ns []) of
             Some (tx, per_node) \<Rightarrow> Some (Inl (TwoPhaseCommitAtomicity tx (map (\<lambda>(n, t, d). (n, d)) per_node)))
           | None \<Rightarrow> Some (Inr ()))"

definition assert_invariants :: "('b, 'w, 'c) sim_nodes \<Rightarrow> invariant_result" where
  "assert_invariants ns =
     and_then (check_election_safety ns)
      (and_then (check_log_matching_property ns)
        (and_then (check_state_machine_safety ns)
          (and_then (check_committed_entry_durability ns) (check_2pc_atomicity ns))))"

section \<open>Election safety\<close>

definition leaders_of :: "nat \<Rightarrow> ('b, 'w, 'c) sim_nodes \<Rightarrow> string list" where
  "leaders_of t ns = map fst (filter (\<lambda>(i, r). state r = Leader \<and> current_term r = t) ns)"

lemma leaders_of_simps [simp]:
  "leaders_of t [] = []"
  "leaders_of t ((i, r) # ns) = (if state r = Leader \<and> current_term r = t then i # leaders_of t ns else leaders_of t ns)"
  by (simp_all add: leaders_of_def)

lemma leaders_by_term_wf: "bt_wf m \<Longrightarrow> bt_wf (leaders_by_term ns m)"
  by (induction ns m rule: leaders_by_term.induct) simp_all

definition or_default :: "'a list option \<Rightarrow> 'a list" where
  "or_default x = (case x of None \<Rightarrow> [] | Some l \<Rightarrow> l)"

lemma leaders_by_term_lookup:
  "bt_wf m \<Longrightarrow> map_of (leaders_by_term ns m) t =
     (if leaders_of t ns = [] then map_of m t else Some (or_default (map_of m t) @ leaders_of t ns))"
  by (induction ns m rule: leaders_by_term.induct) (simp_all add: or_default_def)

lemma find_in_map:
  assumes "bt_wf m"
  shows "find (\<lambda>(k, v). P v) m = None \<longleftrightarrow> (\<forall>k v. map_of m k = Some v \<longrightarrow> \<not> P v)"
    and "find (\<lambda>(k, v). P v) m = Some (k, v) \<Longrightarrow> map_of m k = Some v \<and> P v"
  using bt_wf_distinct [OF assms] by (auto simp: find_None_iff find_Some_iff dest: nth_mem)

lemma leaders_found:
  "map_of (leaders_by_term ns []) t = Some l \<longleftrightarrow> l = leaders_of t ns \<and> l \<noteq> []"
  by (auto simp: leaders_by_term_lookup or_default_def)

lemma election_check_ok:
  "check_election_safety ns = Some (Inr ()) \<longleftrightarrow> (\<forall>t. length (leaders_of t ns) \<le> 1)"
proof -
  have "find (\<lambda>(t, l). 1 < length l) (leaders_by_term ns []) = None \<longleftrightarrow> (\<forall>t. length (leaders_of t ns) \<le> 1)"
    using find_in_map(1) [OF leaders_by_term_wf, of "[]" "\<lambda>l. 1 < length l" ns]
    by (simp add: leaders_found not_less) (metis le0 list.size(3))
  then show ?thesis by (auto simp: check_election_safety_def split: option.splits)
qed

text \<open>The election check accepts exactly the clusters in which every term has at most one leader,
  and otherwise reports a term together with the ids of all its leaders, in the order of the nodes.\<close>

theorem election_check_exact:
  "(check_election_safety ns = Some (Inr ()) \<longleftrightarrow> (\<forall>t. length (leaders_of t ns) \<le> 1)) \<and>
   (check_election_safety ns = Some (Inr ()) \<or>
    (\<exists>t. check_election_safety ns = Some (Inl (ElectionSafety t (leaders_of t ns))) \<and> 1 < length (leaders_of t ns)))"
proof (cases "find (\<lambda>(t, l). 1 < length l) (leaders_by_term ns [])")
  case None
  then have "check_election_safety ns = Some (Inr ())" by (simp add: check_election_safety_def)
  then show ?thesis using election_check_ok [of ns] by simp
next
  case (Some tl)
  obtain t l where tl: "tl = (t, l)" by fastforce
  have "map_of (leaders_by_term ns []) t = Some l \<and> 1 < length l"
    using find_in_map(2) [OF leaders_by_term_wf, of "[]" "\<lambda>l. 1 < length l" ns t l] Some tl by simp
  then show ?thesis using Some tl election_check_ok [of ns]
    by (auto simp: check_election_safety_def leaders_found)
qed

section \<open>Agreement of logs\<close>

lemma check_against_ok: "check_against f a bs = Some (Inr ()) \<longleftrightarrow> (\<forall>b \<in> set bs. f a b = Some (Inr ()))"
  by (induction bs) simp_all

lemma check_pairs_ok: "check_pairs f ns = Some (Inr ()) \<longleftrightarrow> sorted_wrt (\<lambda>a b. f a b = Some (Inr ())) ns"
  by (induction ns) (simp_all add: check_against_ok)

text \<open>Two logs that both reach index \<open>n\<close> and look the same through \<open>g\<close> up to there.\<close>

definition agree_upto :: "(log_entry \<Rightarrow> 'x) \<Rightarrow> nat \<Rightarrow> log_entry list \<Rightarrow> log_entry list \<Rightarrow> bool" where
  "agree_upto g n la lb \<longleftrightarrow> n \<le> length la \<and> n \<le> length lb \<and> take n (map g la) = take n (map g lb)"

lemma walk_logs_ok:
  assumes "\<And>k ea eb. f k ea eb = None \<longleftrightarrow> g ea = g eb"
  shows "walk_logs f k n la lb = Some (Inr ()) \<longleftrightarrow> agree_upto g n la lb"
proof (induction n arbitrary: k la lb)
  case (Suc n)
  show ?case
  proof (cases "la = [] \<or> lb = []")
    case False
    then obtain ea la' eb lb' where [simp]: "la = ea # la'" "lb = eb # lb'" by (meson neq_Nil_conv)
    show ?thesis using Suc.IH [of "Suc k" la' lb'] assms [of k ea eb]
      by (cases "f k ea eb") (auto simp: agree_upto_def)
  qed (cases la; auto simp: agree_upto_def)
qed (simp add: agree_upto_def)

abbreviation term_command :: "log_entry \<Rightarrow> nat \<times> command" where
  "term_command e \<equiv> (le_term e, le_command e)"

definition committed_agree :: "string \<times> ('b, 'w, 'c) raft_node \<Rightarrow> string \<times> ('b, 'w, 'c) raft_node \<Rightarrow> bool" where
  "committed_agree a b \<longleftrightarrow>
     agree_upto term_command (min (commit_index (snd a)) (commit_index (snd b))) (log (snd a)) (log (snd b))"

definition applied_agree :: "string \<times> ('b, 'w, 'c) raft_node \<Rightarrow> string \<times> ('b, 'w, 'c) raft_node \<Rightarrow> bool" where
  "applied_agree a b \<longleftrightarrow>
     agree_upto le_command (min (last_applied (snd a)) (last_applied (snd b))) (log (snd a)) (log (snd b))"

lemma log_matching_ok: "check_log_matching_property ns = Some (Inr ()) \<longleftrightarrow> sorted_wrt committed_agree ns"
  unfolding check_log_matching_property_def check_pairs_ok
  by (rule arg_cong [where f = "\<lambda>R. sorted_wrt R ns"], intro ext)
    (auto simp: committed_agree_def walk_logs_ok [where g = term_command] split: prod.splits)

lemma state_machine_ok: "check_state_machine_safety ns = Some (Inr ()) \<longleftrightarrow> sorted_wrt applied_agree ns"
  unfolding check_state_machine_safety_def check_pairs_ok
  by (rule arg_cong [where f = "\<lambda>R. sorted_wrt R ns"], intro ext)
    (auto simp: applied_agree_def walk_logs_ok [where g = le_command] split: prod.splits)

lemma agree_upto_sym: "agree_upto g n la lb \<Longrightarrow> agree_upto g n lb la"
  by (auto simp: agree_upto_def)

lemma agree_upto_le:
  assumes "agree_upto g n la lb" "m \<le> n"
  shows "agree_upto g m la lb"
proof -
  have "take m (take n (map g la)) = take m (take n (map g lb))" using assms(1) by (simp add: agree_upto_def)
  then show ?thesis using assms by (simp add: agree_upto_def min_def)
qed

lemma agree_upto_comp:
  assumes "agree_upto g n la lb"
  shows "agree_upto (\<lambda>e. h (g e)) n la lb"
proof -
  have "map h (take n (map g la)) = map h (take n (map g lb))" using assms by (simp add: agree_upto_def)
  then show ?thesis using assms by (simp add: agree_upto_def take_map comp_def)
qed

lemma sorted_wrt_sym_nth:
  assumes "sorted_wrt R xs" "\<And>a b. R a b \<Longrightarrow> R b a" "i < length xs" "j < length xs" "i \<noteq> j"
  shows "R (xs ! i) (xs ! j)"
  using assms sorted_wrt_nth_less [OF assms(1), of i j] sorted_wrt_nth_less [OF assms(1), of j i] by (cases "i < j") auto

lemma committed_agree_sym: "committed_agree a b \<Longrightarrow> committed_agree b a"
  by (simp add: committed_agree_def agree_upto_sym min.commute)

section \<open>Durability\<close>

lemma min_commit_le: "(i, r) \<in> set ns \<Longrightarrow> min_commit ns \<le> commit_index r"
proof -
  let ?step = "\<lambda>m (i, r). if commit_index r < m then commit_index r else m"
  have b: "foldl ?step b ns \<le> b" for b and ns :: "('a, 'b, 'c) sim_nodes"
  proof (induction ns arbitrary: b)
    case (Cons a ns)
    show ?case using Cons [of "?step b a"] by (auto split: prod.splits if_splits)
  qed simp
  have "(i, r) \<in> set ns \<Longrightarrow> foldl ?step b ns \<le> commit_index r" for b
  proof (induction ns arbitrary: b)
    case (Cons a ns)
    show ?case
    proof (cases "a = (i, r)")
      case True
      then show ?thesis using b [of "?step b a" ns] by (auto split: if_splits)
    next
      case False
      then show ?thesis using Cons by simp
    qed
  qed simp
  then show "(i, r) \<in> set ns \<Longrightarrow> ?thesis" unfolding min_commit_def by blast
qed

lemma best_commit_from_bound:
  "fst acc < idx + length ns \<Longrightarrow> fst (best_commit_from idx acc ns) < idx + length ns"
  by (induction idx acc ns rule: best_commit_from.induct) auto

lemma check_node_log_ok:
  "agree_upto (\<lambda>e. fmt_command (le_command e)) n la lb \<Longrightarrow>
     check_node_log i k (map (\<lambda>e. (le_term e, fmt_command (le_command e))) (take n la)) lb = Some (Inr ())"
proof (induction n arbitrary: k la lb)
  case (Suc n)
  then obtain ea la' eb lb' where "la = ea # la'" "lb = eb # lb'"
    by (cases la; cases lb) (auto simp: agree_upto_def)
  with Suc show ?case by (simp add: agree_upto_def)
qed simp

lemma check_nodes_from_ok:
  assumes "\<And>j. j < length ns \<Longrightarrow> idx + j \<noteq> ref_idx \<Longrightarrow> \<forall>i. check_node_log i 0 ref_log (log (snd (ns ! j))) = Some (Inr ())"
  shows "check_nodes_from idx ref_idx ref_log ns = Some (Inr ())"
  using assms
proof (induction idx ref_idx ref_log ns rule: check_nodes_from.induct)
  case (2 idx ref_idx ref_log i r ns)
  have "check_nodes_from (Suc idx) ref_idx ref_log ns = Some (Inr ())"
  proof (rule "2.IH")
    fix j assume "j < length ns" "Suc idx + j \<noteq> ref_idx"
    then show "\<forall>i. check_node_log i 0 ref_log (log (snd (ns ! j))) = Some (Inr ())" using "2.prems" [of "Suc j"] by simp
  qed
  moreover have "idx \<noteq> ref_idx \<Longrightarrow> check_node_log i 0 ref_log (log r) = Some (Inr ())" using "2.prems" [of 0] by simp
  ultimately show ?case by simp
qed simp

text \<open>A cluster that passes the log matching check passes the durability check.\<close>

lemma durability_implied:
  assumes "sorted_wrt committed_agree ns"
  shows "check_committed_entry_durability ns = Some (Inr ())"
proof (cases "ns = [] \<or> min_commit ns = 2 ^ 64 - 1")
  case False
  define q where "q = fst (best_commit_from 0 (0, 0) ns)"
  have q: "q < length ns" using best_commit_from_bound [of "(0, 0)" 0 ns] False by (auto simp: q_def)
  have le: "min_commit ns \<le> commit_index (snd (ns ! j))" if "j < length ns" for j
    using min_commit_le [of "fst (ns ! j)" "snd (ns ! j)" ns] that by simp
  have "check_node_log i 0 (map (\<lambda>e. (le_term e, fmt_command (le_command e))) (take (min_commit ns) (log (snd (ns ! q)))))
      (log (snd (ns ! j))) = Some (Inr ())" if j: "j < length ns" "j \<noteq> q" for i j
  proof (rule check_node_log_ok)
    have "committed_agree (ns ! q) (ns ! j)"
      using sorted_wrt_sym_nth [OF assms committed_agree_sym q j(1)] j(2) by simp
    then have "agree_upto term_command (min_commit ns) (log (snd (ns ! q))) (log (snd (ns ! j)))"
      using le [OF q] le [OF j(1)] by (auto simp: committed_agree_def intro: agree_upto_le)
    from agree_upto_comp [OF this, of "\<lambda>p. fmt_command (snd p)"]
    show "agree_upto (\<lambda>e. fmt_command (le_command e)) (min_commit ns) (log (snd (ns ! q))) (log (snd (ns ! j)))" by simp
  qed
  then show ?thesis using False
    by (auto simp: check_committed_entry_durability_def Let_def q_def [symmetric] intro!: check_nodes_from_ok)
qed (auto simp: check_committed_entry_durability_def)

section \<open>Atomicity\<close>

text \<open>The decision a log records for a transaction: the last one wins.\<close>

fun last_decision :: "string \<Rightarrow> log_entry list \<Rightarrow> tx_decision option" where
  "last_decision tx [] = None"
| "last_decision tx (e # es) =
     (case last_decision tx es of
        Some d \<Rightarrow> Some d
      | None \<Rightarrow> (case le_command e of CmdDecideTx tx' d \<Rightarrow> if tx' = tx then Some d else None | _ \<Rightarrow> None))"

definition decisions_wf :: "decisions \<Rightarrow> bool" where
  "decisions_wf m \<longleftrightarrow> bt_wf m \<and> (\<forall>tx nm. map_of m tx = Some nm \<longrightarrow> bt_wf nm \<and> nm \<noteq> [])"

definition decision_of :: "decisions \<Rightarrow> string \<Rightarrow> string \<Rightarrow> string option" where
  "decision_of m tx i = map_option snd (map_of (or_default (map_of m tx)) i)"

lemma decisions_wf_default: "decisions_wf m \<Longrightarrow> bt_wf (or_default (map_of m tx))"
  by (auto simp: decisions_wf_def or_default_def split: option.splits)

lemma decisions_insert:
  assumes "decisions_wf m"
  shows "decisions_wf (bt_insert tx (bt_insert i x (or_default (map_of m tx))) m)"
    and "decision_of (bt_insert tx (bt_insert i x (or_default (map_of m tx))) m) tx' j =
      (if tx' = tx \<and> j = i then Some (snd x) else decision_of m tx' j)"
proof -
  have w: "bt_wf m" using assms by (simp add: decisions_wf_def)
  note d = decisions_wf_default [OF assms, of tx]
  show "decisions_wf (bt_insert tx (bt_insert i x (or_default (map_of m tx))) m)"
    using assms w d by (simp add: decisions_wf_def)
  show "decision_of (bt_insert tx (bt_insert i x (or_default (map_of m tx))) m) tx' j =
      (if tx' = tx \<and> j = i then Some (snd x) else decision_of m tx' j)"
    using w d by (simp add: decision_of_def or_default_def)
qed

lemma log_decisions_spec:
  assumes "decisions_wf m"
  shows "decisions_wf (log_decisions i l m) \<and>
    decision_of (log_decisions i l m) tx j =
      (case last_decision tx l of Some d \<Rightarrow> if j = i then Some (show_decision d) else decision_of m tx j
       | None \<Rightarrow> decision_of m tx j)"
  using assms
proof (induction i l m rule: log_decisions.induct)
  case (2 i e es m)
  show ?case
  proof (cases "\<exists>tx' d. le_command e = CmdDecideTx tx' d")
    case True
    then obtain tx' d where e: "le_command e = CmdDecideTx tx' d" by blast
    note ins = decisions_insert [OF "2.prems", of tx' i "(le_term e, show_decision d)"]
    show ?thesis using "2.IH" ins e by (auto simp: or_default_def split: option.splits)
  next
    case False
    then have "log_decisions i (e # es) m = log_decisions i es m" "last_decision tx (e # es) = last_decision tx es"
      by (auto split: command.splits option.splits)
    then show ?thesis using 2 False by (auto split: command.splits)
  qed
qed simp

lemma tx_decisions_spec:
  assumes "decisions_wf m" "distinct (map fst ns)"
  shows "decisions_wf (tx_decisions ns m) \<and>
    decision_of (tx_decisions ns m) tx j =
      (case map_of ns j of None \<Rightarrow> decision_of m tx j
       | Some r \<Rightarrow> (case last_decision tx (log r) of Some d \<Rightarrow> Some (show_decision d) | None \<Rightarrow> decision_of m tx j))"
  using assms
proof (induction ns m rule: tx_decisions.induct)
  case (2 i r ns m)
  note s = log_decisions_spec [OF "2.prems"(1), of i "log r" tx j]
  have "map_of ns i = None" using "2.prems"(2) by (simp add: map_of_eq_None_iff)
  then show ?case using 2 s by (auto split: option.splits)
qed simp

lemma all_equal_iff: "\<not> 1 < length (remdups_adj (sort xs)) \<longleftrightarrow> (\<forall>x \<in> set xs. \<forall>y \<in> set xs. x = y)"
proof
  assume "\<not> 1 < length (remdups_adj (sort xs))"
  moreover have "set (remdups_adj (sort xs)) = set xs" by simp
  ultimately show "\<forall>x \<in> set xs. \<forall>y \<in> set xs. x = y"
    by (cases "remdups_adj (sort xs)") (simp_all add: not_less, metis singletonD)
next
  assume a: "\<forall>x \<in> set xs. \<forall>y \<in> set xs. x = y"
  show "\<not> 1 < length (remdups_adj (sort xs))"
  proof (cases xs)
    case (Cons x ys)
    then have "y = x" if "y \<in> set (sort xs)" for y using a that by (metis list.set_intros(1) set_sort)
    then have "sort xs = replicate (length xs) x" by (intro replicate_eqI) simp_all
    then show ?thesis by (simp add: remdups_adj_replicate)
  qed simp
qed

definition decisions_agree :: "('b, 'w, 'c) sim_nodes \<Rightarrow> bool" where
  "decisions_agree ns \<longleftrightarrow>
     (\<forall>tx i j r r' d d'. (i, r) \<in> set ns \<and> (j, r') \<in> set ns \<and>
        last_decision tx (log r) = Some d \<and> last_decision tx (log r') = Some d' \<longrightarrow> d = d')"

lemma show_decision_inj [simp]: "show_decision d = show_decision d' \<longleftrightarrow> d = d'"
  by (cases d; cases d') simp_all

lemma recorded_values:
  assumes "distinct (map fst nm)"
  shows "s \<in> set (map (\<lambda>(n, t, d). d) nm) \<longleftrightarrow> (\<exists>i. map_option snd (map_of nm i) = Some s)"
proof
  assume "s \<in> set (map (\<lambda>(n, t, d). d) nm)"
  then obtain n t where "(n, t, s) \<in> set nm" by auto
  then have "map_of nm n = Some (t, s)" using assms by simp
  then show "\<exists>i. map_option snd (map_of nm i) = Some s" by (intro exI [of _ n]) simp
next
  assume "\<exists>i. map_option snd (map_of nm i) = Some s"
  then obtain i t where "map_of nm i = Some (t, s)" by auto
  then show "s \<in> set (map (\<lambda>(n, t, d). d) nm)" by (auto dest!: map_of_SomeD intro: rev_image_eqI)
qed

abbreviation outcomes :: "(string \<times> nat \<times> string) list \<Rightarrow> string list" where
  "outcomes nm \<equiv> map (\<lambda>(n, t, d). d) nm"

lemma split_outcomes_found:
  assumes "decisions_wf m"
  shows "find (\<lambda>(tx, nm). 1 < length (remdups_adj (sort (outcomes nm)))) m = None \<longleftrightarrow>
    (\<forall>tx i j s s'. decision_of m tx i = Some s \<and> decision_of m tx j = Some s' \<longrightarrow> s = s')"
proof -
  have w: "bt_wf m" using assms by (simp add: decisions_wf_def)
  have v: "s \<in> set (outcomes nm) \<longleftrightarrow> (\<exists>i. decision_of m tx i = Some s)" if "map_of m tx = Some nm" for tx nm s
  proof -
    have "distinct (map fst nm)" using assms that by (simp add: decisions_wf_def bt_wf_distinct)
    from recorded_values [OF this, of s] show ?thesis using that by (simp add: decision_of_def or_default_def)
  qed
  have "find (\<lambda>(tx, nm). 1 < length (remdups_adj (sort (outcomes nm)))) m = None \<longleftrightarrow>
      (\<forall>tx nm. map_of m tx = Some nm \<longrightarrow> (\<forall>x \<in> set (outcomes nm). \<forall>y \<in> set (outcomes nm). x = y))"
    unfolding all_equal_iff [symmetric]
    by (rule find_in_map(1) [OF w, of "\<lambda>nm. 1 < length (remdups_adj (sort (outcomes nm)))"])
  also have "\<dots> \<longleftrightarrow> (\<forall>tx i j s s'. decision_of m tx i = Some s \<and> decision_of m tx j = Some s' \<longrightarrow> s = s')"
  proof (intro iffI allI impI ballI)
    fix tx i j s s'
    assume all: "\<forall>tx nm. map_of m tx = Some nm \<longrightarrow> (\<forall>x \<in> set (outcomes nm). \<forall>y \<in> set (outcomes nm). x = y)"
      and ds: "decision_of m tx i = Some s \<and> decision_of m tx j = Some s'"
    then obtain nm where nm: "map_of m tx = Some nm"
      by (cases "map_of m tx") (auto simp: decision_of_def or_default_def)
    have "s \<in> set (outcomes nm)" "s' \<in> set (outcomes nm)" using ds v [OF nm] by blast+
    then show "s = s'" using all nm by blast
  next
    fix tx nm x y
    assume all: "\<forall>tx i j s s'. decision_of m tx i = Some s \<and> decision_of m tx j = Some s' \<longrightarrow> s = s'"
      and nm: "map_of m tx = Some nm" and xy: "x \<in> set (outcomes nm)" "y \<in> set (outcomes nm)"
    from xy v [OF nm] obtain i j where "decision_of m tx i = Some x" "decision_of m tx j = Some y" by blast
    then show "x = y" using all by blast
  qed
  finally show ?thesis .
qed

lemma atomicity_ok:
  assumes "distinct (map fst ns)"
  shows "check_2pc_atomicity ns = Some (Inr ()) \<longleftrightarrow> decisions_agree ns"
proof -
  let ?m = "tx_decisions ns []"
  have "decisions_wf []" by (simp add: decisions_wf_def)
  note spec = tx_decisions_spec [OF this assms]
  have wf: "decisions_wf ?m" using spec by blast
  have dec: "decision_of ?m tx i = Some s \<longleftrightarrow> (\<exists>r d. (i, r) \<in> set ns \<and> last_decision tx (log r) = Some d \<and> s = show_decision d)"
    for tx i s
  proof -
    have "decision_of [] tx i = None" by (simp add: decision_of_def or_default_def)
    then have "decision_of ?m tx i = Some s \<longleftrightarrow> (\<exists>r d. map_of ns i = Some r \<and> last_decision tx (log r) = Some d \<and> s = show_decision d)"
      using spec [of tx i] by (auto split: option.splits)
    then show ?thesis using assms by simp
  qed
  have "decisions_agree ns \<longleftrightarrow>
      (\<forall>tx i j s s'. decision_of ?m tx i = Some s \<and> decision_of ?m tx j = Some s' \<longrightarrow> s = s')" (is "_ = ?R")
  proof
    assume a: "decisions_agree ns"
    show ?R unfolding dec by (intro allI impI, elim conjE exE) (use a [unfolded decisions_agree_def] in blast)
  next
    assume r: ?R
    show "decisions_agree ns" unfolding decisions_agree_def
    proof (intro allI impI, elim conjE)
      fix tx i j r r' d d'
      assume "(i, r) \<in> set ns" "(j, r') \<in> set ns" "last_decision tx (log r) = Some d" "last_decision tx (log r') = Some d'"
      then have "decision_of ?m tx i = Some (show_decision d)" "decision_of ?m tx j = Some (show_decision d')"
        unfolding dec by blast+
      then have "show_decision d = show_decision d'" using r by blast
      then show "d = d'" by simp
    qed
  qed
  moreover have "check_2pc_atomicity ns = Some (Inr ()) \<longleftrightarrow>
      find (\<lambda>(tx, nm). 1 < length (remdups_adj (sort (outcomes nm)))) ?m = None"
    by (cases "ns = []") (auto simp: check_2pc_atomicity_def split: option.splits)
  ultimately show ?thesis using split_outcomes_found [OF wf] by (simp only:)
qed

section \<open>All checks together\<close>

text \<open>C22: What \<open>assert_invariants\<close> accepts, for a cluster whose nodes have distinct ids: at most one
  leader per term; every two nodes hold the same terms and commands up to the lower of their commit
  indices; the same commands up to the lower of their applied indices; and the same decision for
  every transaction both have decided. The durability check adds nothing to these.\<close>

theorem assert_invariants_exact:
  assumes "distinct (map fst ns)"
  shows "assert_invariants ns = Some (Inr ()) \<longleftrightarrow>
    (\<forall>t. length (leaders_of t ns) \<le> 1) \<and> sorted_wrt committed_agree ns \<and> sorted_wrt applied_agree ns \<and> decisions_agree ns"
  unfolding assert_invariants_def and_then_ok election_check_ok log_matching_ok state_machine_ok atomicity_ok [OF assms]
  using durability_implied [of ns] by blast

text \<open>A cluster that runs without late vote refusals never fails the election check.\<close>

theorem cluster_passes_election_check:
  assumes "cluster_init V M k" and "cluster_run V M b k k'" and "b"
  shows "check_election_safety (map (\<lambda>a. (a, nodes k' a)) M) = Some (Inr ())"
  unfolding election_check_ok
proof
  fix t
  have inv: "cluster_inv V M k'" using cluster_run_inv [OF assms(2,3,1)] .
  then have d: "distinct M" by (simp add: cluster_inv_def members_ok_def)
  let ?L = "filter (\<lambda>a. state (nodes k' a) = Leader \<and> current_term (nodes k' a) = t) M"
  have "a = c" if "a \<in> set ?L" "c \<in> set ?L" for a c
  proof (rule one_leader_per_term [OF inv])
    show "a \<in> set M" "state (nodes k' a) = Leader" "c \<in> set M" "state (nodes k' c) = Leader"
      "current_term (nodes k' a) = current_term (nodes k' c)" using that by simp_all
  qed
  then have "\<forall>a \<in> set ?L. \<forall>c \<in> set ?L. a = c" by blast
  then have "card (set ?L) \<le> 1" using card_le_Suc0_iff_eq [OF finite_set, of ?L] by (simp only: One_nat_def)
  then have "length ?L \<le> 1" using distinct_card [OF distinct_filter [OF d]] by (simp only:)
  then show "length (leaders_of t (map (\<lambda>a. (a, nodes k' a)) M)) \<le> 1"
    by (simp add: leaders_of_def filter_map comp_def)
qed

text \<open>A node that has committed and applied one command in term 1.\<close>

definition committed_node :: "string \<Rightarrow> command \<Rightarrow> string \<times> (doc, wal_unit, raft_doc) raft_node" where
  "committed_node i c = (i, (ex_start i [])\<lparr>log := [entry 1 1 c], commit_index := 1, last_applied := 1\<rparr>)"

abbreviation tx_node :: "string \<Rightarrow> tx_op \<Rightarrow> string \<times> (doc, wal_unit, raft_doc) raft_node" where
  "tx_node i x \<equiv> committed_node i (CmdBeginTx ''t'' [x])"

lemma min_commit_example: "min_commit [committed_node i c, committed_node j d] = 1"
  by (simp add: min_commit_def committed_node_def)

text \<open>The durability check compares printed commands, and two transactions with the same id and
  the same number of operations print alike: it accepts two nodes that have committed different
  transactions at the same index. The log matching check, which runs before it, refuses them.\<close>

theorem durability_check_blind:
  "check_committed_entry_durability [tx_node ''a'' (TxPut ''k'' ''v''), tx_node ''b'' (TxDelete ''k'')] = Some (Inr ()) \<and>
   \<not> committed_agree (tx_node ''a'' (TxPut ''k'' ''v'')) (tx_node ''b'' (TxDelete ''k'')) \<and>
   check_log_matching_property [tx_node ''a'' (TxPut ''k'' ''v''), tx_node ''b'' (TxDelete ''k'')] \<noteq> Some (Inr ())"
proof -
  have "check_committed_entry_durability [tx_node ''a'' (TxPut ''k'' ''v''), tx_node ''b'' (TxDelete ''k'')] = Some (Inr ())"
    unfolding check_committed_entry_durability_def min_commit_example
    by (simp add: committed_node_def entry_def)
  moreover have "\<not> committed_agree (tx_node ''a'' (TxPut ''k'' ''v'')) (tx_node ''b'' (TxDelete ''k''))"
    by (simp add: committed_agree_def agree_upto_def committed_node_def entry_def)
  ultimately show ?thesis by (simp add: log_matching_ok)
qed

theorem assert_invariants_exact_witness:
  "assert_invariants [committed_node ''a'' CmdCompact, committed_node ''b'' CmdCompact] = Some (Inr ()) \<and>
   assert_invariants [committed_node ''a'' CmdCompact, committed_node ''b'' (CmdGet ''k'')] \<noteq> Some (Inr ())"
  using assert_invariants_exact [of "[committed_node ''a'' CmdCompact, committed_node ''b'' CmdCompact]"]
    assert_invariants_exact [of "[committed_node ''a'' CmdCompact, committed_node ''b'' (CmdGet ''k'')]"]
  by (auto simp: committed_node_def committed_agree_def applied_agree_def agree_upto_def decisions_agree_def
      entry_def ex_start_def new_node_def leaders_of_def split: prod.splits)

theorem cluster_passes_election_check_witness:
  "check_election_safety (map (\<lambda>a. (a, nodes init3 a)) M3) = Some (Inr ())"
  using cluster_passes_election_check [OF init3_ok cluster_run.start] by blast

end
