(* ===== verification/Harness.thy ===== *)
theory Harness
  imports Simulation Invariants
begin

text \<open>
  The simulation harness of \<open>src/raft/sim_harness.rs\<close>: building a cluster on the simulated network, finding the
  leader, submitting commands, killing and restarting nodes. A node of the harness is a Raft node
  with its channel; the tasks it spawns are the steps of \<open>Cluster\<close> and the deliveries of \<open>Simulation\<close>.
  The lemmas show that the clusters it builds satisfy the assumptions of election safety, that
  its nodes reach each other, and what a crash and a restart keep.
\<close>

section \<open>Definitions\<close>

record ('b, 'w, 'c) sim_node =
  sn_id :: string
  sn_raft :: "('b, 'w, 'c) raft_node"
  sn_channel :: nat

record ('b, 'w, 'c) sim_cluster =
  sc_nodes :: "('b, 'w, 'c) sim_node list"
  sc_network :: sim_network

definition sim_id :: "nat \<Rightarrow> string" where
  "sim_id i = ''n'' @ show_nat i"

definition sim_ids :: "nat \<Rightarrow> string list" where
  "sim_ids n = map sim_id [0..<n]"

fun register_all :: "string list \<Rightarrow> sim_network \<Rightarrow> (string \<times> nat) list \<times> sim_network" where
  "register_all [] nw = ([], nw)"
| "register_all (i # is) nw =
     (case register i nw of (ch, nw) \<Rightarrow> (case register_all is nw of (rs, nw) \<Rightarrow> ((i, ch) # rs, nw)))"

text \<open>The directories of the nodes are an argument: the opened state machine and the storage of each.\<close>

definition new_n_nodes :: "('b, 'w, 'c) node_env \<Rightarrow> nat \<Rightarrow> (string \<Rightarrow> 'b state_machine) \<Rightarrow> (string \<Rightarrow> ('w, 'c) raft_storage) \<Rightarrow> nat
    \<Rightarrow> ('b, 'w, 'c) sim_cluster option" where
  "new_n_nodes V now sms sts n =
     (if n < 1 then None
      else case register_all (sim_ids n) (network_new 2000) of (receivers, nw) \<Rightarrow>
        Some \<lparr>sc_nodes = map (\<lambda>(i, ch). \<lparr>sn_id = i,
                sn_raft = new_node V now i (filter (\<lambda>p. p \<noteq> i) (sim_ids n)) (sms i) (sts i), sn_channel = ch\<rparr>) receivers,
              sc_network = nw\<rparr>)"

fun position :: "('a \<Rightarrow> bool) \<Rightarrow> 'a list \<Rightarrow> nat option" where
  "position P [] = None"
| "position P (x # xs) = (if P x then Some 0 else map_option Suc (position P xs))"

definition leader_index :: "('b, 'w, 'c) sim_cluster \<Rightarrow> nat option" where
  "leader_index c = position (\<lambda>s. state (sn_raft s) = Leader) (sc_nodes c)"

definition update_node :: "nat \<Rightarrow> (('b, 'w, 'c) sim_node \<Rightarrow> ('b, 'w, 'c) sim_node) \<Rightarrow> ('b, 'w, 'c) sim_cluster \<Rightarrow> ('b, 'w, 'c) sim_cluster" where
  "update_node i f c = c\<lparr>sc_nodes := (sc_nodes c)[i := f (sc_nodes c ! i)]\<rparr>"

text \<open>\<open>None\<close> is a panic: an index out of range or a failed assertion.\<close>

definition submit_command :: "('b, 'w, 'c) node_env \<Rightarrow> nat \<Rightarrow> command \<Rightarrow> ('b, 'w, 'c) sim_cluster
    \<Rightarrow> (nat \<times> ('b, 'w, 'c) sim_cluster) option" where
  "submit_command V i cmd c =
     (if i < length (sc_nodes c) then
        let n = sn_raft (sc_nodes c ! i); new_index = length (log n) + 1 in
        case propose V cmd n of (ok, m) \<Rightarrow>
          if ok then Some (new_index, update_node i (\<lambda>s. s\<lparr>sn_raft := m\<rparr>) c) else None
      else None)"

definition submit_set :: "('b, 'w, 'c) node_env \<Rightarrow> nat \<Rightarrow> string \<Rightarrow> string \<Rightarrow> ('b, 'w, 'c) sim_cluster
    \<Rightarrow> (nat \<times> ('b, 'w, 'c) sim_cluster) option" where
  "submit_set V i key val c = submit_command V i (CmdSet key val) c"

text \<open>After the stop signal the serve loop ends and drops the receiver.\<close>

definition kill_node :: "nat \<Rightarrow> ('b, 'w, 'c) sim_cluster \<Rightarrow> ('b, 'w, 'c) sim_cluster" where
  "kill_node i c =
     (let s = sc_nodes c ! i in
      (update_node i (\<lambda>s. s\<lparr>sn_raft := (sn_raft s)\<lparr>state := Follower\<rparr>\<rparr>) c)
        \<lparr>sc_network := serve_stopped (sn_channel s) (sc_network c)\<rparr>)"

definition restart_node :: "nat \<Rightarrow> ('b, 'w, 'c) sim_cluster \<Rightarrow> ('b, 'w, 'c) sim_cluster" where
  "restart_node i c =
     (let s = sc_nodes c ! i;
          (ch, nw) = re_register (sn_id s) (serve_stopped (sn_channel s) (sc_network c)) in
      (update_node i (\<lambda>s. s\<lparr>sn_channel := ch\<rparr>) c)\<lparr>sc_network := nw\<rparr>)"

definition replicated :: "nat \<Rightarrow> nat list \<Rightarrow> ('b, 'w, 'c) sim_cluster \<Rightarrow> bool" where
  "replicated target excluded c \<longleftrightarrow>
     list_all (\<lambda>(i, s). i \<in> set excluded \<or> target \<le> last_applied (sn_raft s)) (enumerate 0 (sc_nodes c))"

definition sim_read :: "('b, 'w, 'c) node_env \<Rightarrow> nat \<Rightarrow> string \<Rightarrow> ('b, 'w, 'c) sim_cluster \<Rightarrow> string option" where
  "sim_read V i key c = sm_get (sm_env_of V) (state_machine_of (sn_raft (sc_nodes c ! i))) key"

definition sim_term :: "nat \<Rightarrow> ('b, 'w, 'c) sim_cluster \<Rightarrow> nat" where
  "sim_term i c = current_term (sn_raft (sc_nodes c ! i))"

section \<open>Construction\<close>

lemma show_nat_inj: "show_nat i = show_nat j \<Longrightarrow> i = j"
  by (metis show_nat_value)

lemma sim_ids_distinct: "distinct (sim_ids n)"
  by (auto simp: sim_ids_def sim_id_def distinct_map inj_on_def dest: show_nat_inj)

lemma register_all_facts:
  assumes "register_all is nw = (rs, nw')" and "distinct is"
    and "\<And>ch. ch \<in> net_alive nw \<Longrightarrow> ch < net_next nw"
  shows "map fst rs = is \<and> (\<forall>(i, ch) \<in> set rs. net_peers nw' i = Some ch \<and> ch \<in> net_alive nw' \<and> net_next nw \<le> ch) \<and>
    distinct (map snd rs) \<and> net_alive nw \<subseteq> net_alive nw' \<and> (\<forall>j. j \<notin> set is \<longrightarrow> net_peers nw' j = net_peers nw j)"
  using assms
proof (induction "is" arbitrary: nw rs)
  case (Cons i "is")
  let ?nw = "snd (register i nw)"
  obtain rs' where r: "register_all is ?nw = (rs', nw')" "rs = (i, net_next nw) # rs'"
    using Cons.prems(1) by (auto simp: register_def split: prod.splits)
  have alive: "\<And>ch. ch \<in> net_alive ?nw \<Longrightarrow> ch < net_next ?nw"
    using Cons.prems(3) by (auto simp: register_def less_Suc_eq)
  have "distinct is" "i \<notin> set is" using Cons.prems(2) by auto
  from Cons.IH [OF r(1) this(1) alive] this(2) show ?case
    unfolding r(2) by (auto simp: register_def Suc_le_eq)
qed auto

text \<open>Every node is reached under its name through the channel it serves, and channels are fresh.\<close>

definition wired :: "('b, 'w, 'c) sim_cluster \<Rightarrow> bool" where
  "wired c \<longleftrightarrow> distinct (map sn_id (sc_nodes c)) \<and> distinct (map sn_channel (sc_nodes c)) \<and>
     (\<forall>s \<in> set (sc_nodes c). net_peers (sc_network c) (sn_id s) = Some (sn_channel s) \<and> sn_channel s < net_next (sc_network c))"

definition serving :: "('b, 'w, 'c) sim_cluster \<Rightarrow> nat \<Rightarrow> bool" where
  "serving c i \<longleftrightarrow> sn_channel (sc_nodes c ! i) \<in> net_alive (sc_network c)"

definition cluster_of :: "('b, 'w, 'c) sim_cluster \<Rightarrow> ('b, 'w, 'c) cluster" where
  "cluster_of c = \<lparr>nodes = (\<lambda>a. sn_raft (the (find (\<lambda>s. sn_id s = a) (sc_nodes c)))), rounds = Map.empty, tasks = Map.empty\<rparr>"

lemma register_all_next:
  "register_all is nw = (rs, nw') \<Longrightarrow> net_next nw \<le> net_next nw' \<and> (\<forall>(i, ch) \<in> set rs. ch < net_next nw')"
proof (induction "is" arbitrary: nw rs)
  case (Cons i "is")
  let ?nw = "snd (register i nw)"
  obtain rs' where r: "register_all is ?nw = (rs', nw')" "rs = (i, net_next nw) # rs'"
    using Cons.prems(1) by (auto simp: register_def split: prod.splits)
  from Cons.IH [OF r(1)] show ?case unfolding r(2) by (auto simp: register_def)
qed auto

lemma find_map_fst:
  assumes "distinct (map fst rs)" and "(a, ch) \<in> set rs"
  shows "find (\<lambda>s. sn_id s = a) (map (\<lambda>(i, ch). \<lparr>sn_id = i, sn_raft = f i, sn_channel = ch\<rparr>) rs) =
    Some \<lparr>sn_id = a, sn_raft = f a, sn_channel = ch\<rparr>"
  using assms by (induction rs) (auto simp: image_iff)

text \<open>C23: The clusters of the harness meet the assumptions of election safety: with two nodes or more on
  intact disks, every node has all others as its peers, no two nodes share a name or a channel,
  every node serves its channel and is reached under its name, and there is no leader yet.\<close>

theorem harness_cluster_ready:
  assumes "2 \<le> n" and "\<forall>a. store_ok (codec_of V) (sts a) \<and> sm_ok (sm_env_of V) (sms a)"
  shows "\<exists>c. new_n_nodes V now sms sts n = Some c \<and> cluster_init V (sim_ids n) (cluster_of c) \<and>
    wired c \<and> length (sc_nodes c) = n \<and> (\<forall>i < n. serving c i) \<and> leader_index c = None"
proof -
  obtain rs nw where r: "register_all (sim_ids n) (network_new 2000) = (rs, nw)" by fastforce
  have f: "map fst rs = sim_ids n" "\<forall>(i, ch) \<in> set rs. net_peers nw i = Some ch \<and> ch \<in> net_alive nw" "distinct (map snd rs)"
    using register_all_facts [OF r sim_ids_distinct] by (auto simp: network_new_def)
  note g = register_all_next [OF r]
  let ?new = "\<lambda>i. new_node V now i (filter (\<lambda>p. p \<noteq> i) (sim_ids n)) (sms i) (sts i)"
  define c where "c = \<lparr>sc_nodes = map (\<lambda>(i, ch). \<lparr>sn_id = i, sn_raft = ?new i, sn_channel = ch\<rparr>) rs, sc_network = nw\<rparr>"
  have c: "new_n_nodes V now sms sts n = Some c" using assms(1) r by (simp add: new_n_nodes_def c_def)
  have ids: "map sn_id (sc_nodes c) = sim_ids n" "map sn_channel (sc_nodes c) = map snd rs"
    by (simp_all add: c_def f(1) [symmetric] comp_def split_def)
  have "nodes (cluster_of c) a = ?new a" if "a \<in> set (sim_ids n)" for a
  proof -
    have "a \<in> fst ` set rs" using that unfolding f(1) [symmetric] by simp
    then obtain ch where ch: "(a, ch) \<in> set rs" by auto
    have "distinct (map fst rs)" unfolding f(1) by (rule sim_ids_distinct)
    from find_map_fst [OF this ch, of ?new] show ?thesis by (simp add: cluster_of_def c_def)
  qed
  then have "\<forall>a \<in> set (sim_ids n). \<exists>now sm st. nodes (cluster_of c) a = new_node V now a (filter (\<lambda>p. p \<noteq> a) (sim_ids n)) sm st \<and>
      store_ok (codec_of V) st \<and> sm_ok (sm_env_of V) sm" using assms(2) by blast
  moreover have "rounds (cluster_of c) = Map.empty" "tasks (cluster_of c) = Map.empty" by (simp_all add: cluster_of_def)
  moreover have "length (sim_ids n) = n" by (simp add: sim_ids_def)
  ultimately have "cluster_init V (sim_ids n) (cluster_of c)"
    unfolding cluster_init_def using assms(1) sim_ids_distinct by simp
  moreover have "wired c"
  proof -
    have "net_peers nw (sn_id s) = Some (sn_channel s) \<and> sn_channel s < net_next nw" if "s \<in> set (sc_nodes c)" for s
      using that f(2) conjunct2 [OF g] by (auto simp: c_def)
    then show ?thesis unfolding wired_def ids using sim_ids_distinct f(3) by (simp add: c_def)
  qed
  moreover have "length (sc_nodes c) = n" using arg_cong [OF ids(1), of length] by (simp add: sim_ids_def)
  moreover have "serving c i" if "i < length (sc_nodes c)" for i
  proof -
    have "rs ! i \<in> set rs" using that by (simp add: c_def)
    then have "snd (rs ! i) \<in> net_alive nw" using f(2) by (auto simp: split_def)
    then show ?thesis using that by (simp add: serving_def c_def split_def)
  qed
  moreover
  have "position (\<lambda>s. state (sn_raft s) = Leader) (map (\<lambda>(i, ch). \<lparr>sn_id = i, sn_raft = ?new i, sn_channel = ch\<rparr>) xs) = None" for xs
    by (induction xs) (simp_all add: new_node_def load_initial_state_def split_def)
  then have "leader_index c = None" by (simp add: leader_index_def c_def)
  ultimately show ?thesis using c by blast
qed

section \<open>Crashes\<close>

lemma position_sat: "position P xs = Some i \<Longrightarrow> i < length xs \<and> P (xs ! i)"
  by (induction xs arbitrary: i) (auto split: if_splits)

lemma wired_restart:
  assumes "wired c" and "i < length (sc_nodes c)"
    and "sc_nodes r = (sc_nodes c)[i := (sc_nodes c ! i)\<lparr>sn_raft := n, sn_channel := net_next (sc_network c)\<rparr>]"
    and "sc_network r = (sc_network c)\<lparr>net_peers := (net_peers (sc_network c))(sn_id (sc_nodes c ! i) \<mapsto> net_next (sc_network c)),
       net_alive := A, net_next := Suc (net_next (sc_network c))\<rparr>"
  shows "wired r"
proof -
  let ?next = "net_next (sc_network c)"
  have ids: "map sn_id (sc_nodes r) = map sn_id (sc_nodes c)"
    using assms(2) by (simp add: assms(3) map_update) (metis list_update_id nth_map)
  have ch: "map sn_channel (sc_nodes r) = (map sn_channel (sc_nodes c))[i := ?next]"
    by (simp add: assms(3) map_update)
  have w: "net_peers (sc_network c) (sn_id s) = Some (sn_channel s)" "sn_channel s < ?next" if "s \<in> set (sc_nodes c)" for s
    using assms(1) that by (auto simp: wired_def)
  have old: "distinct (map sn_id (sc_nodes c))" "distinct (map sn_channel (sc_nodes c))"
    "\<And>j. j < length (sc_nodes c) \<Longrightarrow> net_peers (sc_network c) (sn_id (sc_nodes c ! j)) = Some (sn_channel (sc_nodes c ! j)) \<and>
       sn_channel (sc_nodes c ! j) < ?next"
    using assms(1) by (auto simp: wired_def)
  have "?next \<notin> set (map sn_channel (sc_nodes c))" using w(2) by (metis (no_types, lifting) imageE less_irrefl list.set_map)
  then have "distinct (map sn_channel (sc_nodes r))" unfolding ch using old(2) by (simp add: distinct_list_update)
  moreover have "net_peers (sc_network r) (sn_id (sc_nodes r ! j)) = Some (sn_channel (sc_nodes r ! j)) \<and>
      sn_channel (sc_nodes r ! j) < net_next (sc_network r)" if "j < length (sc_nodes c)" for j
  proof (cases "j = i")
    case False
    have "sn_id (sc_nodes c ! j) \<noteq> sn_id (sc_nodes c ! i)"
      using False that assms(2) old(1) nth_eq_iff_index_eq [of "map sn_id (sc_nodes c)" j i] by simp
    then show ?thesis using False old(3) [OF that] by (simp add: assms(3,4))
  qed (use assms(2) in \<open>simp add: assms(3,4)\<close>)
  moreover have "length (sc_nodes r) = length (sc_nodes c)" by (simp add: assms(3))
  ultimately show ?thesis unfolding wired_def ids all_set_conv_all_nth using old(1) by simp
qed

text \<open>What a crash and a restart keep: a killed node is unreachable and gets nothing, all others are as
  before, and it is no leader; after the restart it serves a fresh channel under its name, and
  everything it had but its role, in memory and on disk, is there. The cluster stays wired.\<close>

theorem kill_restart_keeps_node:
  assumes "wired c" and "i < length (sc_nodes c)"
  shows "let s = sc_nodes c ! i; k = kill_node i c; r = restart_node i k in
    fst (send_raft always_deliver (sc_network k) me (sn_id s) msg answer ()) =
      \<lparr>sent_result = Inl (Unreachable ''peer inbound channel closed''), sent_at = 0, sent_pushes = []\<rparr> \<and>
    (\<forall>j < length (sc_nodes c). j \<noteq> i \<longrightarrow> sc_nodes r ! j = sc_nodes c ! j \<and> (serving r j \<longleftrightarrow> serving c j)) \<and>
    leader_index k \<noteq> Some i \<and>
    sn_raft (sc_nodes r ! i) = (sn_raft s)\<lparr>state := Follower\<rparr> \<and> sn_id (sc_nodes r ! i) = sn_id s \<and>
    sent_pushes (fst (send_raft always_deliver (sc_network r) me (sn_id s) msg answer ())) = [0] \<and> wired r"
proof -
  let ?s = "sc_nodes c ! i" and ?nw = "sc_network c"
  let ?f = "?s\<lparr>sn_raft := (sn_raft ?s)\<lparr>state := Follower\<rparr>\<rparr>"
  let ?next = "net_next ?nw"
  define k where "k = kill_node i c"
  define r where "r = restart_node i k"
  have k: "sc_nodes k = (sc_nodes c)[i := ?f]" "sc_network k = ?nw\<lparr>net_alive := net_alive ?nw - {sn_channel ?s}\<rparr>"
    by (simp_all add: k_def kill_node_def Let_def update_node_def serve_stopped_def)
  have r: "sc_nodes r = (sc_nodes c)[i := ?f\<lparr>sn_channel := ?next\<rparr>]"
    "sc_network r = ?nw\<lparr>net_peers := (net_peers ?nw)(sn_id ?s \<mapsto> ?next),
       net_alive := insert ?next (net_alive ?nw - {sn_channel ?s}), net_next := Suc ?next\<rparr>"
    using assms(2) by (simp_all add: r_def restart_node_def Let_def update_node_def k re_register_def register_def serve_stopped_def split_def)
  have w: "net_peers ?nw (sn_id s) = Some (sn_channel s)" "sn_channel s < ?next" if "s \<in> set (sc_nodes c)" for s
    using assms(1) that by (auto simp: wired_def)
  have i: "?s \<in> set (sc_nodes c)" using assms(2) by simp
  have other: "sn_id (sc_nodes c ! j) \<noteq> sn_id ?s" "sn_channel (sc_nodes c ! j) \<noteq> sn_channel ?s"
    "sn_channel (sc_nodes c ! j) < ?next" if "j < length (sc_nodes c)" "j \<noteq> i" for j
    using assms that w(2) [of "sc_nodes c ! j"] by (auto simp: wired_def distinct_conv_nth)
  have "fst (send_raft always_deliver (sc_network k) me (sn_id ?s) msg answer ()) =
      \<lparr>sent_result = Inl (Unreachable ''peer inbound channel closed''), sent_at = 0, sent_pushes = []\<rparr>"
    using w(1) [OF i] by (simp add: k send_raft_def send_body_def always_deliver_def lookup_peer_def push_with_reply_def)
  moreover have "\<forall>j < length (sc_nodes c). j \<noteq> i \<longrightarrow> sc_nodes r ! j = sc_nodes c ! j \<and> (serving r j \<longleftrightarrow> serving c j)"
  proof (intro allI impI)
    fix j
    assume "j < length (sc_nodes c)" "j \<noteq> i"
    from other [OF this] this show "sc_nodes r ! j = sc_nodes c ! j \<and> (serving r j \<longleftrightarrow> serving c j)" by (simp add: r serving_def)
  qed
  moreover have "leader_index k \<noteq> Some i"
    using position_sat [of "\<lambda>s. state (sn_raft s) = Leader" "sc_nodes k" i] assms(2) by (auto simp: leader_index_def k)
  moreover have "sn_raft (sc_nodes r ! i) = (sn_raft ?s)\<lparr>state := Follower\<rparr>" "sn_id (sc_nodes r ! i) = sn_id ?s"
    using assms(2) by (simp_all add: r)
  moreover have "sent_pushes (fst (send_raft always_deliver (sc_network r) me (sn_id ?s) msg answer ())) = [0]"
    by (simp add: r send_raft_def send_body_def always_deliver_def lookup_peer_def split_def Let_def)
  moreover have "wired r" by (rule wired_restart [OF assms r])
  ultimately show ?thesis by (simp add: k_def [symmetric] r_def [symmetric] Let_def)
qed

section \<open>Submitting\<close>

lemma submit_command_spec:
  assumes "i < length (sc_nodes c)" and "state (sn_raft (sc_nodes c ! i)) = Leader"
    and "node_inv V (sn_raft (sc_nodes c ! i))"
  shows "\<exists>c'. submit_command V i cmd c = Some (length (log (sn_raft (sc_nodes c ! i))) + 1, c') \<and>
    log (sn_raft (sc_nodes c' ! i)) = log (sn_raft (sc_nodes c ! i)) @ [next_entry (sn_raft (sc_nodes c ! i)) cmd]"
proof -
  let ?n = "sn_raft (sc_nodes c ! i)"
  from append_entry_good [OF node_invD(1) [OF assms(3)], of "next_entry ?n cmd"] obtain st where
    "append_entry V (next_entry ?n cmd) ?n = (Inr (), ?n\<lparr>storage := st, log := log ?n @ [next_entry ?n cmd]\<rparr>)" by blast
  then have "propose V cmd ?n = (True, ?n\<lparr>storage := st, log := log ?n @ [next_entry ?n cmd]\<rparr>)"
    using assms(2) by (simp add: propose_def)
  then show ?thesis using assms(1) by (simp add: submit_command_def Let_def update_node_def)
qed

section \<open>Examples\<close>

definition harness3 :: "(doc, wal_unit, raft_doc) sim_cluster" where
  "harness3 = the (new_n_nodes V0 0 (\<lambda>_. fresh_sm 1000) (\<lambda>_. empty_store []) 3)"

lemma harness3_disks: "\<forall>a. store_ok (codec_of V0) ((\<lambda>_. empty_store []) a) \<and> sm_ok (sm_env_of V0) ((\<lambda>_. fresh_sm 1000) a)"
  using empty_store_ok fresh_sm_ok by (simp add: V0_def)

theorem harness_cluster_ready_witness:
  "new_n_nodes V0 0 (\<lambda>_. fresh_sm 1000) (\<lambda>_. empty_store []) 3 = Some harness3 \<and>
   cluster_init V0 (sim_ids 3) (cluster_of harness3) \<and> wired harness3 \<and> leader_index harness3 = None"
  using harness_cluster_ready [OF _ harness3_disks, of 3 0] by (auto simp: harness3_def)

definition two_nodes :: "(doc, wal_unit, raft_doc) sim_cluster" where
  "two_nodes = \<lparr>sc_nodes = [\<lparr>sn_id = ''a'', sn_raft = leader_a, sn_channel = 0\<rparr>, \<lparr>sn_id = ''b'', sn_raft = node_b, sn_channel = 1\<rparr>],
     sc_network = net_ab\<rparr>"

theorem kill_restart_keeps_node_witness:
  "sent_pushes (fst (send_raft always_deliver (sc_network (kill_node 0 two_nodes)) ''b'' ''a'' (RequestVote vote_a) NoAnswer ())) = [] \<and>
   sn_raft (sc_nodes (restart_node 0 (kill_node 0 two_nodes)) ! 0) = leader_a\<lparr>state := Follower\<rparr>"
proof -
  have "wired two_nodes"
    by (simp add: wired_def two_nodes_def net_ab_def register_def network_new_def)
  from kill_restart_keeps_node [OF this, of 0 "''b''" "RequestVote vote_a" NoAnswer] show ?thesis
    by (simp add: Let_def two_nodes_def)
qed

end
