(* ===== verification/HarnessWaits.thy ===== *)
theory HarnessWaits
  imports Harness Coordinator_Props
begin

text \<open>
  The driving side of the simulation harness (\<open>raft/sim_harness.rs\<close>): forcing an election and waiting for
  its end, waiting for replication, running a transaction round with a bound, and stopping all nodes.
  What the tasks of the cluster do between two looks of a wait is an argument. A wait that
  gives up yields \<open>False\<close>; where the code panics instead, the definition yields \<open>None\<close>.
\<close>

section \<open>Definitions\<close>

definition new_3_nodes :: "('b, 'w, 'c) node_env \<Rightarrow> nat \<Rightarrow> (string \<Rightarrow> 'b state_machine) \<Rightarrow> (string \<Rightarrow> ('w, 'c) raft_storage)
    \<Rightarrow> ('b, 'w, 'c) sim_cluster option" where
  "new_3_nodes V now sms sts = new_n_nodes V now sms sts 3"

text \<open>The candidacy that both ways of driving an election start; the messages go to the simulated network.\<close>

definition begin_election :: "('b, 'w, 'c) node_env \<Rightarrow> nat \<Rightarrow> nat \<Rightarrow> ('b, 'w, 'c) sim_cluster
    \<Rightarrow> vote_round \<times> (string \<times> request_vote_args) list \<times> ('b, 'w, 'c) sim_cluster" where
  "begin_election V now i c =
     (case become_candidate V now (sn_raft (sc_nodes c ! i)) of (r, msgs, n) \<Rightarrow>
        (r, msgs, update_node i (\<lambda>s. s\<lparr>sn_raft := n\<rparr>) c))"

definition poll_leader :: "nat \<Rightarrow> nat \<Rightarrow> nat \<Rightarrow> ('b, 'w, 'c) sim_cluster \<Rightarrow> bool poll" where
  "poll_leader i timeout elapsed c =
     (if state (sn_raft (sc_nodes c ! i)) = Leader then Done True
      else if timeout \<le> elapsed then Done False else Again)"

definition election_bound_ms :: nat where
  "election_bound_ms = 5000"

text \<open>\<open>obs\<close> gives the cluster at each look, as the candidacy and all tasks have left it; \<open>clock\<close> the time.\<close>

definition try_drive_election :: "nat \<Rightarrow> nat \<Rightarrow> (nat \<Rightarrow> nat) \<Rightarrow> (nat \<Rightarrow> ('b, 'w, 'c) sim_cluster) \<Rightarrow> nat \<Rightarrow> bool option" where
  "try_drive_election i timeout clock obs fuel = poll_loop (poll_leader i timeout) clock obs (clock 0) 0 fuel"

definition drive_election :: "nat \<Rightarrow> (nat \<Rightarrow> nat) \<Rightarrow> (nat \<Rightarrow> ('b, 'w, 'c) sim_cluster) \<Rightarrow> nat \<Rightarrow> unit option option" where
  "drive_election i clock obs fuel =
     map_option (\<lambda>won. if won then Some () else None) (poll_loop (poll_leader i election_bound_ms) clock obs (clock 0) 0 fuel)"

definition poll_replication :: "nat \<Rightarrow> nat list \<Rightarrow> nat \<Rightarrow> nat \<Rightarrow> ('b, 'w, 'c) sim_cluster \<Rightarrow> bool poll" where
  "poll_replication target excluded timeout elapsed c =
     (if replicated target excluded c then Done True else if timeout \<le> elapsed then Done False else Again)"

definition wait_for_replication_except :: "nat \<Rightarrow> nat list \<Rightarrow> nat \<Rightarrow> (nat \<Rightarrow> nat) \<Rightarrow> (nat \<Rightarrow> ('b, 'w, 'c) sim_cluster) \<Rightarrow> nat
    \<Rightarrow> unit option option" where
  "wait_for_replication_except target excluded timeout clock obs fuel =
     map_option (\<lambda>ok. if ok then Some () else None)
       (poll_loop (poll_replication target excluded timeout) clock obs (clock 0) 0 fuel)"

definition wait_for_replication :: "nat \<Rightarrow> nat \<Rightarrow> (nat \<Rightarrow> nat) \<Rightarrow> (nat \<Rightarrow> ('b, 'w, 'c) sim_cluster) \<Rightarrow> nat \<Rightarrow> unit option option" where
  "wait_for_replication target timeout clock obs fuel = wait_for_replication_except target [] timeout clock obs fuel"

text \<open>A round of the coordinator on node \<open>i\<close>, to its end or cut off by the bound between two sections.\<close>

inductive run_tx :: "('b, 'w, 'c) node_env \<Rightarrow> nat \<Rightarrow> string \<Rightarrow> tx_op list \<Rightarrow> ('b, 'w, 'c) sim_cluster \<Rightarrow> tx_outcome option
    \<Rightarrow> ('b, 'w, 'c) sim_cluster \<Rightarrow> bool"
  for V :: "('b, 'w, 'c) node_env" where
  round_ends: "i < length (sc_nodes c) \<Longrightarrow> tx_run V tx ops (sn_raft (sc_nodes c ! i)) votes (Finished out) n \<Longrightarrow>
    run_tx V i tx ops c (Some out) (update_node i (\<lambda>s. s\<lparr>sn_raft := n\<rparr>) c)"
| round_cancelled: "i < length (sc_nodes c) \<Longrightarrow> tx_run V tx ops (sn_raft (sc_nodes c ! i)) votes p n \<Longrightarrow>
    (\<forall>out. p \<noteq> Finished out) \<Longrightarrow> run_tx V i tx ops c None (update_node i (\<lambda>s. s\<lparr>sn_raft := n\<rparr>) c)"

definition shutdown :: "('b, 'w, 'c) sim_cluster \<Rightarrow> ('b, 'w, 'c) sim_cluster" where
  "shutdown c = c\<lparr>sc_network := fold (\<lambda>s. serve_stopped (sn_channel s)) (sc_nodes c) (sc_network c)\<rparr>"

section \<open>Elections\<close>

interpretation leader_wait: bounded_poll "poll_leader i timeout" timeout for i timeout
  by unfold_locales (simp add: poll_leader_def)

interpretation replication_wait: bounded_poll "poll_replication target excluded timeout" timeout for target excluded timeout
  by unfold_locales (simp add: poll_replication_def)

text \<open>A forced candidacy is the campaign step of the cluster: a term up, a vote for itself, requests to all others.\<close>

lemma begin_election_campaigns:
  assumes "i < length (sc_nodes c)" and "wired c"
    and "become_candidate V now (sn_raft (sc_nodes c ! i)) = (r, msgs, n)" and "nodes k = nodes (cluster_of c)"
  shows "nodes (cluster_of (snd (snd (begin_election V now i c)))) (sn_id (sc_nodes c ! i)) =
    nodes (start_round (sn_id (sc_nodes c ! i)) r msgs n k) (sn_id (sc_nodes c ! i))"
proof -
  let ?s = "sc_nodes c ! i"
  have d: "distinct (map sn_id (sc_nodes c))" using assms(2) by (simp add: wired_def)
  have "find (\<lambda>s. sn_id s = sn_id ?s) ((sc_nodes c)[i := ?s\<lparr>sn_raft := n\<rparr>]) = Some (?s\<lparr>sn_raft := n\<rparr>)"
    using assms(1) d by (auto simp: find_Some_iff nth_list_update distinct_conv_nth)
  then show ?thesis by (simp add: begin_election_def assms(3) update_node_def cluster_of_def)
qed

text \<open>The waits end: with pauses of at least 10 and 20 milliseconds, within the time-out divided by the pause
  and two more looks, whatever the cluster does. They succeed only if the candidate was leader,
  or all nodes that count had applied the index, at one of the looks.\<close>

theorem harness_waits_end:
  assumes "\<And>j. clock 0 + 10 * j \<le> clock j" and "\<And>j. clock' 0 + 20 * j \<le> clock' j"
  shows "(\<exists>w. try_drive_election i timeout clock obs (timeout div 10 + 1) = Some w \<and>
      (w \<longrightarrow> (\<exists>j \<le> timeout div 10 + 1. state (sn_raft (sc_nodes (obs j) ! i)) = Leader))) \<and>
    (\<exists>w. drive_election i clock obs 501 = Some w \<and>
      (w \<noteq> None \<longrightarrow> (\<exists>j \<le> 501. state (sn_raft (sc_nodes (obs j) ! i)) = Leader))) \<and>
    (\<exists>w. wait_for_replication_except target excluded timeout clock' obs (timeout div 20 + 1) = Some w \<and>
      (w \<noteq> None \<longrightarrow> (\<exists>j \<le> timeout div 20 + 1. replicated target excluded (obs j))))"
proof -
  have e: "election_bound_ms div 10 + 1 = 501" by (simp add: election_bound_ms_def)
  obtain w where w: "poll_loop (poll_leader i timeout) clock obs (clock 0) 0 (timeout div 10 + 1) = Some w"
    using leader_wait.paced_loop_returns [of 10 "clock 0" clock i timeout obs] assms(1) by auto
  obtain w' where w': "poll_loop (poll_leader i election_bound_ms) clock obs (clock 0) 0 501 = Some w'"
    using leader_wait.paced_loop_returns [of 10 "clock 0" clock i election_bound_ms obs] assms(1) unfolding e by auto
  obtain w'' where w'': "poll_loop (poll_replication target excluded timeout) clock' obs (clock' 0) 0 (timeout div 20 + 1) = Some w''"
    using replication_wait.paced_loop_returns [of 20 "clock' 0" clock' target excluded timeout obs] assms(2) by auto
  have "\<exists>j \<le> fuel. state (sn_raft (sc_nodes (obs j) ! i)) = Leader"
    if "poll_loop (poll_leader i b) clock obs (clock 0) 0 fuel = Some True" for b fuel
    using leader_wait.loop_result [OF that] by (auto simp: poll_leader_def split: if_splits)
  moreover have "\<exists>j \<le> fuel. replicated target excluded (obs j)"
    if "poll_loop (poll_replication target excluded timeout) clock' obs (clock' 0) 0 fuel = Some True" for fuel
    using replication_wait.loop_result [OF that] by (auto simp: poll_replication_def split: if_splits)
  ultimately show ?thesis
    using w w' w'' by (auto simp: try_drive_election_def drive_election_def wait_for_replication_except_def)
qed

section \<open>Replication\<close>

text \<open>A node that counts and never applies the index makes the wait fail.\<close>

lemma unapplied_blocks_wait:
  assumes "\<And>j. i < length (sc_nodes (obs j)) \<and> last_applied (sn_raft (sc_nodes (obs j) ! i)) < target" and "i \<notin> set excluded"
    and "\<And>j. clock 0 + 20 * j \<le> clock j"
  shows "wait_for_replication_except target excluded timeout clock obs (timeout div 20 + 1) = Some None"
proof -
  have "\<not> replicated target excluded (obs j)" for j
    using assms(1) [of j] assms(2) by (force simp: replicated_def list_all_iff in_set_enumerate_eq)
  moreover have "clock 0 + 10 * j \<le> clock j" for j using assms(3) [of j] by simp
  from harness_waits_end [of clock clock i timeout obs target excluded, OF this assms(3)] obtain w where
    "wait_for_replication_except target excluded timeout clock obs (timeout div 20 + 1) = Some w"
    "w \<noteq> None \<longrightarrow> (\<exists>j \<le> timeout div 20 + 1. replicated target excluded (obs j))" by blast
  ultimately show ?thesis by metis
qed

text \<open>\<open>wait_for_replication\<close> counts killed nodes: the wait for a write fails if a node was killed before it
  applied the write, however far the others are.\<close>

theorem killed_node_blocks_wait:
  assumes "i < length (sc_nodes c)" and "last_applied (sn_raft (sc_nodes c ! i)) < target"
    and "\<And>j. clock 0 + 20 * j \<le> clock j"
    and "\<And>j. i < length (sc_nodes (obs j)) \<and> sc_nodes (obs j) ! i = sc_nodes (kill_node i c) ! i"
  shows "wait_for_replication target timeout clock obs (timeout div 20 + 1) = Some None"
proof -
  have "last_applied (sn_raft (sc_nodes (obs j) ! i)) < target" for j
    using assms(1,2) assms(4) [of j] by (simp add: kill_node_def Let_def update_node_def)
  then show ?thesis
    unfolding wait_for_replication_def using assms(4) by (intro unapplied_blocks_wait [OF _ _ assms(3), of i]) auto
qed

section \<open>Stopping\<close>

lemma fold_stopped: "net_alive (fold (\<lambda>s. serve_stopped (sn_channel s)) ss nw) = net_alive nw - sn_channel ` set ss"
  by (induction ss arbitrary: nw) (auto simp: serve_stopped_def)

text \<open>After a shutdown nobody serves and the nodes are as they were; doing it again changes nothing more.\<close>

theorem shutdown_stops_all:
  "(\<forall>i < length (sc_nodes c). \<not> serving (shutdown c) i) \<and> sc_nodes (shutdown c) = sc_nodes c \<and>
   net_alive (sc_network (shutdown (shutdown c))) = net_alive (sc_network (shutdown c))"
  by (auto simp: serving_def shutdown_def fold_stopped)

text \<open>The restart of a node that is running is not a no-op: the node gets another channel, and what waits in
  the old one is dropped.\<close>

theorem restart_running_replaces_channel:
  assumes "wired c" and "i < length (sc_nodes c)" and "serving c i"
  shows "sn_channel (sc_nodes (restart_node i c) ! i) \<noteq> sn_channel (sc_nodes c ! i) \<and>
    sn_channel (sc_nodes c ! i) \<notin> net_alive (sc_network (restart_node i c))"
proof -
  have "sn_channel (sc_nodes c ! i) < net_next (sc_network c)" using assms(1,2) by (simp add: wired_def)
  then show ?thesis
    using assms(2) by (auto simp: restart_node_def Let_def update_node_def re_register_def register_def serve_stopped_def split_def)
qed

section \<open>Transactions\<close>

text \<open>A round, finished or cancelled, changes the node that coordinates it and no other.\<close>

lemma run_tx_keeps_others:
  "run_tx V i tx ops c out c' \<Longrightarrow> j \<noteq> i \<Longrightarrow> sc_nodes c' ! j = sc_nodes c ! j \<and> sc_network c' = sc_network c"
  by (induction rule: run_tx.induct) (simp_all add: update_node_def)

end
