(* ===== verification/LogMatching.thy ===== *)
theory LogMatching
  imports Cluster SyncLogs
begin

text \<open>
  Log Matching in a cluster. On top of the elections of \<open>Cluster\<close>, the appends that leaders send stay
  in the network for ever and may be delivered any number of times, to any member, in any order.
  Leaders extend their logs by proposals and by the second phase of a membership change; every
  other step of any node is allowed as long as it leaves the logs alone, restarts and lost
  messages included. The proof follows one log per term, that of its leader: every prefix of any
  log that ends in an entry of term \<open>t\<close> is a prefix of the log of the leader of \<open>t\<close>.
\<close>

section \<open>Steps\<close>

inductive proposal :: "('b, 'w, 'c) node_env \<Rightarrow> ('b, 'w, 'c) raft_node \<Rightarrow> ('b, 'w, 'c) raft_node \<Rightarrow> bool"
  for V :: "('b, 'w, 'c) node_env" where
  proposed: "proposal V n (snd (propose V c n))"
| batch_proposed: "proposal V n (snd (propose_batch V cs n))"
| adding: "proposal V n (snd (propose_add_node V srv n))"
| removing: "proposal V n (snd (propose_remove_node V nid n))"
| aborting: "proposal V n (snd (propose_abort_tx V tx n))"

inductive leader_append :: "('b, 'w, 'c) node_env \<Rightarrow> ('b, 'w, 'c) raft_node \<Rightarrow> ('b, 'w, 'c) raft_node \<Rightarrow> bool"
  for V :: "('b, 'w, 'c) node_env" where
  proposing: "proposal V n m \<Longrightarrow> leader_append V n m"
| acknowledged: "leader_append V n (append_reply_handler V now peer args areply n)"

type_synonym ('b, 'w, 'c) raft_state = "('b, 'w, 'c) cluster \<times> append_entries_args set"

inductive raft_step :: "('b, 'w, 'c) node_env \<Rightarrow> string list \<Rightarrow> bool \<Rightarrow> ('b, 'w, 'c) raft_state \<Rightarrow> ('b, 'w, 'c) raft_state \<Rightarrow> bool"
  for V :: "('b, 'w, 'c) node_env" and M :: "string list" where
  quiet: "cluster_step V M b k k' \<Longrightarrow> \<forall>a \<in> set M. log (nodes k' a) = log (nodes k a) \<Longrightarrow>
    raft_step V M b (k, ms) (k', ms)"
| extend: "c \<in> set M \<Longrightarrow> state (nodes k c) = Leader \<Longrightarrow> leader_append V (nodes k c) n \<Longrightarrow> peers n = peers (nodes k c) \<Longrightarrow>
    raft_step V M True (k, ms) (k\<lparr>nodes := (nodes k)(c := n)\<rparr>, ms)"
| send: "c \<in> set M \<Longrightarrow> still_leading v (nodes k c) \<Longrightarrow> append_args_at v (nodes k c) p = Some args \<Longrightarrow>
    raft_step V M True (k, ms) (k, insert args ms)"
| deliver: "v \<in> set M \<Longrightarrow> args \<in> ms \<Longrightarrow> n = snd (handle_append_entries V now args (nodes k v)) \<Longrightarrow>
    peers n = peers (nodes k v) \<Longrightarrow> raft_step V M True (k, ms) (k\<lparr>nodes := (nodes k)(v := n)\<rparr>, ms)"

inductive raft_run :: "('b, 'w, 'c) node_env \<Rightarrow> string list \<Rightarrow> bool \<Rightarrow> ('b, 'w, 'c) raft_state \<Rightarrow> ('b, 'w, 'c) raft_state \<Rightarrow> bool"
  for V :: "('b, 'w, 'c) node_env" and M :: "string list" where
  begin_run: "raft_run V M True s s"
| next_step: "raft_run V M b s s' \<Longrightarrow> raft_step V M b' s' s'' \<Longrightarrow> raft_run V M (b \<and> b') s s''"

text \<open>A new cluster: fresh processes with empty logs, and nothing sent.\<close>

definition raft_init :: "('b, 'w, 'c) node_env \<Rightarrow> string list \<Rightarrow> ('b, 'w, 'c) raft_state \<Rightarrow> bool" where
  "raft_init V M s \<longleftrightarrow> cluster_init V M (fst s) \<and> (\<forall>a \<in> set M. log (nodes (fst s) a) = []) \<and> snd s = {}"

section \<open>How a leader extends its log\<close>

definition extends :: "nat \<Rightarrow> log_entry list \<Rightarrow> log_entry list \<Rightarrow> bool" where
  "extends t l l' \<longleftrightarrow> (\<exists>ext. l' = l @ ext \<and> indexed_from (length l) ext \<and> (\<forall>e \<in> set ext. le_term e = t))"

lemma extends_refl [simp]: "extends t l l"
  by (simp add: extends_def)

lemma extends_trans: "extends t l l' \<Longrightarrow> extends t l' l'' \<Longrightarrow> extends t l l''"
  by (fastforce simp: extends_def indexed_from_append)

lemma extends_next: "extends (current_term n) (log n) (log n @ [next_entry n c])"
  by (simp add: extends_def next_entry_def)

lemma append_entry_extends:
  assumes "le_term e = t" and "le_index e = length l + 1" and "log n = l"
  shows "extends t l (log (snd (append_entry V e n)))"
  using assms by (auto simp: append_entry_def extends_def split: prod.splits sum.splits)

lemma propose_loop_extends:
  "i = length (log n) + 1 \<Longrightarrow> extends (current_term n) (log n) (log (snd (propose_loop V i cs n)))"
proof (induction V i cs n rule: propose_loop.induct)
  case (2 V i c cs n)
  let ?e = "\<lparr>le_term = current_term n, le_index = i, le_command = c\<rparr>"
  obtain r m where a: "append_entry V ?e n = (r, m)" by fastforce
  have e: "extends (current_term n) (log n) (log m)" using append_entry_extends [of ?e "current_term n" "log n" n V] 2(2) a by simp
  show ?case
  proof (cases r)
    case (Inl x)
    then show ?thesis using a e by simp
  next
    case (Inr u)
    then have m: "log m = log n @ [?e]" using a by (auto simp: append_entry_def split: prod.splits sum.splits)
    have t: "current_term m = current_term n" using append_entry_frame(4) [of V ?e n] a by simp
    have "i + 1 = length (log m) + 1" using m 2(2) by simp
    from "2.IH" [OF a [symmetric] Inr this] show ?thesis using extends_trans [OF e] a Inr t by simp
  qed
qed simp

lemma apply_command_extends:
  "extends (current_term n) (log n) (log (apply_command V c n))"
proof (cases c)
  case (CmdInstallConfiguration cfg)
  show ?thesis
    by (auto simp: CmdInstallConfiguration install_configuration_def Let_def next_entry_def split: option.splits
        intro: append_entry_extends)
qed simp_all

lemma apply_logs_extends: "extends (current_term n) (log n) (log (apply_logs V n))"
proof -
  define P where "P m \<longleftrightarrow> current_term m = current_term n \<and> extends (current_term n) (log n) (log m)" for m :: "('a, 'b, 'c) raft_node"
  have "P (apply_logs V n)"
  proof (rule apply_logs_rule)
    fix m
    assume "P m"
    then show "P (apply_step V m)"
      using extends_trans apply_command_extends [of m V "le_command (log m ! last_applied m)"]
      by (auto simp: P_def apply_step_def frame_simps)
  qed (simp add: P_def)
  then show ?thesis by (simp add: P_def)
qed

lemma maybe_commit_extends: "extends (current_term n) (log n) (log (maybe_commit V n))"
proof (cases V n rule: maybe_commit_cases)
  case (advance j)
  then show ?thesis using apply_logs_extends [of "n\<lparr>commit_index := j\<rparr>" V] by simp
qed simp

lemma next_entry_appended:
  "extends (current_term n) (log n) (log (snd (append_entry V (next_entry n c) n))) \<and>
   current_term (snd (append_entry V (next_entry n c) n)) = current_term n"
  using append_entry_extends [of "next_entry n c" "current_term n" "log n" n V] by (simp add: next_entry_def frame_simps)

lemma propose_joint_extends:
  "extends (current_term n) (log n) (log (snd (propose_joint V old new n))) \<and>
   current_term (snd (propose_joint V old new n)) = current_term n"
  using next_entry_appended [of n V "CmdInstallConfiguration (Joint old new)"]
  by (auto simp: propose_joint_def split: prod.splits sum.splits)

lemma proposal_extends:
  "proposal V n m \<Longrightarrow> extends (current_term n) (log n) (log m) \<and> current_term m = current_term n"
proof (induction rule: proposal.induct)
  case (proposed n c)
  then show ?case using next_entry_appended [of n V c] by (auto simp: propose_def split: prod.splits sum.splits)
next
  case (batch_proposed n cs)
  then show ?case using propose_loop_extends by (auto simp: propose_batch_def frame_simps)
next
  case (adding n srv)
  show ?case by (simp add: propose_add_node_def Let_def propose_joint_extends)
next
  case (removing n nid)
  show ?case by (simp add: propose_remove_node_def Let_def propose_joint_extends)
next
  case (aborting n tx)
  then show ?case using next_entry_appended [of n V "CmdDecideTx tx Abort"]
    by (auto simp: propose_abort_tx_def split: prod.splits sum.splits)
qed

lemma leader_append_extends:
  "leader_append V n m \<Longrightarrow> extends (current_term n) (log n) (log m) \<and> (log m \<noteq> log n \<longrightarrow> current_term m = current_term n)"
proof (induction rule: leader_append.induct)
  case (proposing n m)
  then show ?case using proposal_extends by blast
next
  case (acknowledged n now peer args areply)
  then show ?case
    using maybe_commit_extends [of "n\<lparr>match_index := mi, next_index := ni, last_quorum_heartbeat_at := t\<rparr>" V for mi ni t]
    by (auto simp: append_reply_handler_def Let_def frame_simps)
qed

lemma proposal_local: "proposal V n m \<Longrightarrow> local_step V n m"
  by (induction rule: proposal.induct) (rule local_step.intros)+

lemma leader_append_local: "leader_append V n m \<Longrightarrow> local_step V n m"
  by (induction rule: leader_append.induct) (simp add: proposal_local, rule local_step.intros)

section \<open>One log per term\<close>

definition follows :: "(nat \<Rightarrow> log_entry list) \<Rightarrow> log_entry list \<Rightarrow> bool" where
  "follows L l \<longleftrightarrow> (\<forall>i < length l. i < length (L (le_term (l ! i))) \<and> take (Suc i) l = take (Suc i) (L (le_term (l ! i))))"

lemma follows_Nil [simp]: "follows L []"
  by (simp add: follows_def)

lemma follows_matching: "follows L l \<Longrightarrow> follows L l' \<Longrightarrow> log_matching l l'"
  by (simp add: follows_def log_matching_def)

lemma follows_cong:
  assumes "follows L l" and "\<And>t. L t \<noteq> [] \<Longrightarrow> L' t = L t"
  shows "follows L' l"
  unfolding follows_def
proof (intro allI impI)
  fix i assume "i < length l"
  then have i: "i < length (L (le_term (l ! i)))" "take (Suc i) l = take (Suc i) (L (le_term (l ! i)))"
    using assms(1) by (auto simp: follows_def)
  then have "L' (le_term (l ! i)) = L (le_term (l ! i))" using assms(2) by force
  then show "i < length (L' (le_term (l ! i))) \<and> take (Suc i) l = take (Suc i) (L' (le_term (l ! i)))" using i by simp
qed

lemma follows_extend:
  assumes "follows L l"
  shows "follows (L(t := L t @ es)) l"
  using assms by (auto simp: follows_def)

lemma follows_own_extension:
  assumes "follows L (L t)" and "\<forall>e \<in> set es. le_term e = t"
  shows "follows (L(t := L t @ es)) (L t @ es)"
  unfolding follows_def
proof (intro allI impI)
  fix i assume i: "i < length (L t @ es)"
  let ?L = "L(t := L t @ es)"
  show "i < length (?L (le_term ((L t @ es) ! i))) \<and> take (Suc i) (L t @ es) = take (Suc i) (?L (le_term ((L t @ es) ! i)))"
  proof (cases "i < length (L t)")
    case True
    then show ?thesis using follows_extend [OF assms(1), of t es] by (simp add: follows_def nth_append)
  next
    case False
    then have "le_term ((L t @ es) ! i) = t" using assms(2) i by (simp add: nth_append)
    then show ?thesis using i by simp
  qed
qed

text \<open>A message carries a part of the log of the leader of its term.\<close>

definition message_ok :: "(nat \<Rightarrow> log_entry list) \<Rightarrow> append_entries_args \<Rightarrow> bool" where
  "message_ok L args \<longleftrightarrow> ae_entries args = [] \<or>
     (\<exists>l rest. L (ae_term args) = l @ rest \<and> follows L l \<and> log_wf l \<and> prev_log_index args \<le> length l \<and>
        ae_entries args = drop (prev_log_index args) l \<and>
        (0 < prev_log_index args \<longrightarrow> le_term (l ! (prev_log_index args - 1)) = prev_log_term args))"

lemma message_okI:
  assumes "L (ae_term args) = l @ rest" and "follows L l" and "log_wf l" and "prev_log_index args \<le> length l"
    and "ae_entries args = drop (prev_log_index args) l"
    and "0 < prev_log_index args \<longrightarrow> le_term (l ! (prev_log_index args - 1)) = prev_log_term args"
  shows "message_ok L args"
  unfolding message_ok_def by (rule disjI2, intro exI conjI) (rule assms)+

lemma message_okE:
  assumes "message_ok L args" and "ae_entries args \<noteq> []"
  obtains l rest where "L (ae_term args) = l @ rest" "follows L l" "log_wf l" "prev_log_index args \<le> length l"
    "ae_entries args = drop (prev_log_index args) l"
    "0 < prev_log_index args \<longrightarrow> le_term (l ! (prev_log_index args - 1)) = prev_log_term args"
proof -
  from assms show ?thesis unfolding message_ok_def by (elim disjE exE conjE) (simp, rule that)
qed

lemma merge_log_prefix_same:
  assumes "p \<le> length l" and "f = l @ rest"
  shows "merge_log p (drop p l) f = f"
  using assms(1)
proof (induction "length l - p" arbitrary: p)
  case (Suc k)
  then have p: "p < length l" by simp
  have "merge_log (Suc p) (drop (Suc p) l) f = f" using Suc.hyps p by simp
  moreover have "drop p l = l ! p # drop (Suc p) l" using p by (simp add: Cons_nth_drop_Suc)
  ultimately show ?case using p by (simp add: assms(2) nth_append)
qed simp

lemma deliver_log:
  fixes V :: "('b, 'w, 'c) node_env" and now :: nat
  assumes "message_ok L args" and "follows L (log n)" and "log_wf (log n)"
  defines "m \<equiv> snd (handle_append_entries V now args n)"
  shows "follows L (log m) \<and> log_wf (log m) \<and> (log m = log n \<or> (\<forall>rest. log n \<noteq> L (ae_term args) @ rest))"
proof (cases "ar_success (fst (handle_append_entries V now args n))")
  case False
  then have "log m = log n" unfolding m_def by (auto simp: handle_append_entries_eq frame_simps split: if_splits)
  then show ?thesis using assms(2,3) by simp
next
  case acc: True
  let ?p = "prev_log_index args"
  show ?thesis
  proof (cases "ae_entries args = []")
    case True
    then have "log m = log n" using append_accepted_log(1) [OF acc] by (simp add: m_def)
    then show ?thesis using assms(2,3) by simp
  next
    case False
    then obtain l rest where l: "L (ae_term args) = l @ rest" "follows L l" "log_wf l" "?p \<le> length l"
        "ae_entries args = drop ?p l" "0 < ?p \<longrightarrow> le_term (l ! (?p - 1)) = prev_log_term args"
      by (rule message_okE [OF assms(1)])
    have ix: "indexed_from ?p (ae_entries args)" using indexed_from_drop [OF l(3), of ?p] l(5) by simp
    have new: "log m = merge_log ?p (drop ?p l) (log n)" "?p \<le> length (log n)"
      using append_accepted_log [OF acc ix] l(5) by (simp_all add: m_def)
    have mt: "log_matching (log n) l" using assms(2) l(2) by (rule follows_matching)
    have "take ?p (log n) = take ?p l"
    proof (cases ?p)
      case (Suc q)
      then have "le_term (log n ! q) = le_term (l ! q)"
        using append_accepted(1) [OF acc] l(6) by (simp add: ae_accepts_def prev_matches_def)
      then show ?thesis using mt Suc new(2) l(4) by (simp add: log_matching_def)
    qed simp
    from merge_log_cases [OF new(2) this l(4) mt] have c: "log m = log n \<or> log m = l" using new(1) by auto
    have "log m = log n" if "log n = L (ae_term args) @ r" for r
      using merge_log_prefix_same [OF l(4), of "log n" "rest @ r"] that l(1) new(1) by simp
    moreover have "follows L (log m) \<and> log_wf (log m)" using c assms(2,3) l(2,3) by (elim disjE) simp_all
    ultimately show ?thesis by blast
  qed
qed

section \<open>The invariant\<close>

definition one_log_per_term :: "string list \<Rightarrow> ('b, 'w, 'c) raft_state \<Rightarrow> (nat \<Rightarrow> log_entry list) \<Rightarrow> bool" where
  "one_log_per_term M s L \<longleftrightarrow>
     (\<forall>a \<in> set M. follows L (log (nodes (fst s) a)) \<and> log_wf (log (nodes (fst s) a))) \<and>
     (\<forall>args \<in> snd s. message_ok L args) \<and>
     (\<forall>c \<in> set M. won M (fst s) c (current_term (nodes (fst s) c)) \<longrightarrow> L (current_term (nodes (fst s) c)) = log (nodes (fst s) c)) \<and>
     (\<forall>t. L t \<noteq> [] \<longrightarrow> (\<exists>c \<in> set M. won M (fst s) c t))"

lemma won_current:
  assumes "cluster_inv V M k" and "won M k c t"
  shows "t \<le> current_term (nodes k c)" and "c \<in> set M"
proof -
  from assms(2) obtain r where "rounds k (c, t) = Some r" by (auto simp: won_def)
  then have "voted k c t c" and "c \<in> set M" using assms(1) by (auto simp: voted_def cluster_inv_def rounds_ok_def)
  moreover from this(1) have "promised (nodes k c) t c" using assms(1) by (simp add: cluster_inv_def votes_ok_def)
  ultimately show "t \<le> current_term (nodes k c)" "c \<in> set M" by (auto simp: promised_def)
qed

lemma cluster_step_vote_le:
  "cluster_step V M b k k' \<Longrightarrow> b \<Longrightarrow> cluster_inv V M k \<Longrightarrow> vote_le (nodes k a) (nodes k' a)"
proof (induction rule: cluster_step.induct)
  case (campaign d now k r msgs n)
  then show ?case using vote_le_elections(1) [of "nodes k d" V now] by (simp add: vote_le_refl)
next
  case (probe_quorum d now reply pr k pr' r msgs n)
  then show ?case using vote_le_elections(3) [of "nodes k d" V now reply pr] by (simp add: vote_le_refl)
next
  case (answer v k d t args now reply n)
  then show ?case using vote_le_request_vote [of "nodes k v" V now args] by (simp add: vote_le_refl)
next
  case (reply d k t v reply r now r' n)
  then show ?case using vote_le_vote_reply [of r reply "nodes k d" V now] by (simp add: vote_le_refl)
next
  case (local v k n)
  then have "node_inv V (nodes k v)" by (simp add: cluster_inv_def members_ok_def)
  then show ?case using vote_le_local [OF local(2)] by (simp add: vote_le_refl)
next
  case (tx_vote_reply v k t)
  then show ?case using vote_le_coordinator(2) [of "nodes k v" t V] by (simp add: vote_le_refl)
qed (simp add: vote_le_refl)

lemma new_round_keeps_won:
  assumes "cluster_inv V M k" and "d \<in> set M"
    and "request_votes now (promote_to_candidate_locked V now' (nodes k d)) = (r, msgs, n)" and "won M k c t"
  shows "won M (start_round d r msgs n k) c t"
proof -
  have ok: "members_ok V M k" "votes_ok k" "tasks_ok M k" using assms(1) by (simp_all add: cluster_inv_def)
  have "current_term (nodes k d) < round_term r"
    using request_votes_round(1) [OF assms(3) peers_nonempty(1) [OF ok(1) assms(2)]] by simp
  from no_round_yet(1) [OF ok(2,3) this] show ?thesis using assms(4) by (auto simp: won_def)
qed

lemma cluster_step_won:
  "cluster_step V M b k k' \<Longrightarrow> b \<Longrightarrow> cluster_inv V M k \<Longrightarrow> won M k c t \<Longrightarrow> won M k' c t"
proof (induction rule: cluster_step.induct)
  case (campaign d now k r msgs n)
  then show ?case by (intro new_round_keeps_won [of V M k d now now]) (simp_all add: become_candidate_def)
next
  case (probe_quorum d now reply pr k pr' r msgs n)
  then show ?case
    by (intro new_round_keeps_won [of V M k d now now])
      (auto simp: process_pre_vote_reply_def Let_def split: if_splits prod.splits)
next
  case (reply d k t' v reply r now r' n)
  then show ?case using vote_reply_shape(3) [OF reply(4)] by (auto simp: won_def)
qed (simp_all add: won_def)

text \<open>A step that leaves the logs alone: a term that is won by a node that is still in that term gets
  the log of its winner.\<close>

definition wins_now :: "string list \<Rightarrow> ('b, 'w, 'c) cluster \<Rightarrow> ('b, 'w, 'c) cluster \<Rightarrow> string \<Rightarrow> nat \<Rightarrow> bool" where
  "wins_now M k k' c t \<longleftrightarrow> won M k' c t \<and> \<not> won M k c t \<and> current_term (nodes k' c) = t"

definition led_logs :: "string list \<Rightarrow> ('b, 'w, 'c) cluster \<Rightarrow> ('b, 'w, 'c) cluster \<Rightarrow> (nat \<Rightarrow> log_entry list) \<Rightarrow> nat \<Rightarrow> log_entry list" where
  "led_logs M k k' L t = (if \<exists>c. wins_now M k k' c t then log (nodes k' (THE c. wins_now M k k' c t)) else L t)"

lemma led_logs_new:
  assumes "cluster_inv V M k'" and "wins_now M k k' c t"
  shows "led_logs M k k' L t = log (nodes k' c)"
proof -
  have "(THE d. wins_now M k k' d t) = c"
    using assms(2) won_unique [OF assms(1)] by (intro the_equality) (auto simp: wins_now_def)
  then show ?thesis using assms(2) by (auto simp: led_logs_def)
qed

lemma led_logs_old:
  assumes "cluster_step V M b k k'" and "b" and "cluster_inv V M k" and "won M k c t"
  shows "led_logs M k k' L t = L t"
  using won_unique [OF cluster_step_inv [OF assms(1-3)] cluster_step_won [OF assms]] assms(4)
  by (auto simp: led_logs_def wins_now_def)

lemma message_ok_mono:
  assumes "message_ok L args" and "\<And>l. follows L l \<Longrightarrow> follows L' l"
    and "L (ae_term args) \<noteq> [] \<Longrightarrow> \<exists>more. L' (ae_term args) = L (ae_term args) @ more"
  shows "message_ok L' args"
proof (cases "ae_entries args = []")
  case False
  then obtain l rest where l: "L (ae_term args) = l @ rest" "follows L l" "log_wf l" "prev_log_index args \<le> length l"
      "ae_entries args = drop (prev_log_index args) l"
      "0 < prev_log_index args \<longrightarrow> le_term (l ! (prev_log_index args - 1)) = prev_log_term args"
    by (rule message_okE [OF assms(1)])
  then have "L (ae_term args) \<noteq> []" using False by auto
  then obtain more where "L' (ae_term args) = l @ (rest @ more)" using assms(3) l(1) by auto
  then show ?thesis by (rule message_okI [OF _ assms(2)]) (fact l)+
qed (simp add: message_ok_def)

lemma quiet_keeps:
  assumes "cluster_step V M b k k'" and "b" and "cluster_inv V M k" and "\<forall>a \<in> set M. log (nodes k' a) = log (nodes k a)"
    and "one_log_per_term M (k, ms) L"
  shows "one_log_per_term M (k', ms) (led_logs M k k' L)"
proof -
  let ?L = "led_logs M k k' L"
  have inv': "cluster_inv V M k'" by (rule cluster_step_inv [OF assms(1-3)])
  have old: "\<forall>a \<in> set M. follows L (log (nodes k a)) \<and> log_wf (log (nodes k a))" "\<forall>args \<in> ms. message_ok L args"
    "\<forall>c \<in> set M. won M k c (current_term (nodes k c)) \<longrightarrow> L (current_term (nodes k c)) = log (nodes k c)"
    "\<forall>t. L t \<noteq> [] \<longrightarrow> (\<exists>c \<in> set M. won M k c t)"
    using assms(5) by (simp_all add: one_log_per_term_def)
  have same: "?L t = L t" if "L t \<noteq> []" for t using that old(4) led_logs_old [OF assms(1-3)] by blast
  have logs: "\<forall>a \<in> set M. follows ?L (log (nodes k' a)) \<and> log_wf (log (nodes k' a))"
    using old(1) assms(4) follows_cong [OF _ same] by auto
  have "message_ok ?L args" if "args \<in> ms" for args
    by (rule message_ok_mono [of L]) (use that old(2) same follows_cong [OF _ same] in auto)
  then have msgs: "\<forall>args \<in> ms. message_ok ?L args" by blast
  have led: "?L (current_term (nodes k' c)) = log (nodes k' c)" if c: "c \<in> set M" "won M k' c (current_term (nodes k' c))" for c
  proof (cases "won M k c (current_term (nodes k' c))")
    case True
    then have "current_term (nodes k' c) \<le> current_term (nodes k c)" by (rule won_current(1) [OF assms(3)])
    moreover have "current_term (nodes k c) \<le> current_term (nodes k' c)"
      using cluster_step_vote_le [OF assms(1-3), of c] by (auto simp: vote_le_def)
    ultimately have eq: "current_term (nodes k' c) = current_term (nodes k c)" by simp
    then have "L (current_term (nodes k' c)) = log (nodes k c)" using old(3) c(1) True by simp
    then show ?thesis using led_logs_old [OF assms(1-3) True] c(1) assms(4) by simp
  next
    case False
    then show ?thesis using c(2) by (intro led_logs_new [OF inv']) (simp add: wins_now_def)
  qed
  have "\<exists>c \<in> set M. won M k' c t" if "?L t \<noteq> []" for t
  proof (cases "\<exists>c. wins_now M k k' c t")
    case True
    then show ?thesis using won_current(2) [OF inv'] by (auto simp: wins_now_def)
  next
    case False
    then have "L t \<noteq> []" using that by (simp add: led_logs_def)
    then show ?thesis using old(4) cluster_step_won [OF assms(1-3)] by blast
  qed
  then show ?thesis using logs msgs led by (simp add: one_log_per_term_def)
qed

text \<open>The leader of a term extends the log of the term.\<close>

lemma extend_keeps:
  assumes "cluster_inv V M k" and "c \<in> set M" and "state (nodes k c) = Leader" and "leader_append V (nodes k c) n"
    and "one_log_per_term M (k, ms) L"
  shows "one_log_per_term M (k\<lparr>nodes := (nodes k)(c := n)\<rparr>, ms) (L(current_term (nodes k c) := log n))"
proof -
  let ?T = "current_term (nodes k c)" and ?k = "k\<lparr>nodes := (nodes k)(c := n)\<rparr>"
  have old: "\<forall>a \<in> set M. follows L (log (nodes k a)) \<and> log_wf (log (nodes k a))" "\<forall>args \<in> ms. message_ok L args"
    "\<forall>c \<in> set M. won M k c (current_term (nodes k c)) \<longrightarrow> L (current_term (nodes k c)) = log (nodes k c)"
    "\<forall>t. L t \<noteq> [] \<longrightarrow> (\<exists>c \<in> set M. won M k c t)"
    using assms(5) by (simp_all add: one_log_per_term_def)
  have wc: "won M k c ?T" by (rule leader_won [OF assms(1-3)])
  then have lc: "L ?T = log (nodes k c)" using old(3) assms(2) by blast
  from leader_append_extends [OF assms(4)] obtain es where
    es: "log n = L ?T @ es" "indexed_from (length (L ?T)) es" "\<forall>e \<in> set es. le_term e = ?T"
    by (auto simp: extends_def lc)
  have "node_inv V (nodes k c)" using assms(1,2) by (simp add: cluster_inv_def members_ok_def)
  then have up: "?T \<le> current_term n"
    using vote_le_local [OF leader_append_local [OF assms(4)]] by (auto simp: vote_le_def)
  let ?L = "L(?T := L ?T @ es)"
  have same: "won M ?k = won M k" by (simp add: won_def fun_eq_iff)
  have mono: "follows ?L l" if "follows L l" for l using that by (rule follows_extend)
  have "follows L (L ?T)" "log_wf (L ?T)" using old(1) assms(2) lc by simp_all
  then have "follows ?L (log n)" "log_wf (log n)" using follows_own_extension [of L ?T es] es by (simp_all add: indexed_from_append)
  then have logs: "\<forall>a \<in> set M. follows ?L (log (nodes ?k a)) \<and> log_wf (log (nodes ?k a))" using old(1) mono by simp
  have "message_ok ?L args" if "args \<in> ms" for args
    by (rule message_ok_mono [of L]) (use that old(2) mono in auto)
  then have msgs: "\<forall>args \<in> ms. message_ok ?L args" by blast
  have led: "?L (current_term (nodes ?k d)) = log (nodes ?k d)" if d: "d \<in> set M" "won M ?k d (current_term (nodes ?k d))" for d
  proof (cases "d = c")
    case True
    then have "current_term n = ?T" using won_current(1) [OF assms(1), of c "current_term n"] d(2) up by (simp add: same)
    then show ?thesis using True es(1) by simp
  next
    case False
    then have "won M k d (current_term (nodes k d))" using d(2) by (simp add: same)
    moreover from this False have "current_term (nodes k d) \<noteq> ?T" using won_unique [OF assms(1) _ wc] by auto
    ultimately show ?thesis using False old(3) d(1) by simp
  qed
  have "\<exists>d \<in> set M. won M ?k d t" if "?L t \<noteq> []" for t
    using that old(4) wc assms(2) by (cases "t = ?T") (auto simp: same)
  then have "one_log_per_term M (?k, ms) ?L" using logs msgs led by (simp add: one_log_per_term_def)
  then show ?thesis using es(1) by simp
qed

lemma send_keeps:
  assumes "cluster_inv V M k" and "c \<in> set M" and "still_leading v (nodes k c)" and "one_log_per_term M (k, ms) L"
    and "append_args_at v (nodes k c) p = Some args"
  shows "one_log_per_term M (k, insert args ms) L"
proof -
  let ?n = "nodes k c"
  have "state ?n = Leader" using assms(3) by (simp add: still_leading_def)
  have n: "follows L (log ?n)" "log_wf (log ?n)" "L (current_term ?n) = log ?n"
    using assms(2,4) leader_won [OF assms(1,2) \<open>state ?n = Leader\<close>] by (auto simp: one_log_per_term_def)
  have "next_index ?n p \<noteq> Some 0" using assms(1,2) node_invD(4) by (auto simp: cluster_inv_def members_ok_def)
  note a = append_args_leading [OF assms(3,5) this]
  have "message_ok L args"
  proof (cases "ae_entries args = []")
    case False
    then have le: "ae_entries args = drop (prev_log_index args) (log ?n)" "prev_log_index args < length (log ?n)"
      using a(2,5) by auto
    have "0 < prev_log_index args \<longrightarrow> le_term (log ?n ! (prev_log_index args - 1)) = prev_log_term args"
      using a(2,4) le(2) by simp
    then show ?thesis
      by (intro message_okI [where l = "log ?n" and rest = "[]"]) (use a(1) n le in auto)
  qed (simp add: message_ok_def)
  then show ?thesis using assms(4) by (simp add: one_log_per_term_def)
qed

lemma deliver_keeps:
  assumes "cluster_inv V M k" and "v \<in> set M" and "args \<in> ms" and "one_log_per_term M (k, ms) L"
    and "n = snd (handle_append_entries V now args (nodes k v))"
  shows "one_log_per_term M (k\<lparr>nodes := (nodes k)(v := n)\<rparr>, ms) L"
proof -
  let ?k = "k\<lparr>nodes := (nodes k)(v := n)\<rparr>"
  have old: "\<forall>a \<in> set M. follows L (log (nodes k a)) \<and> log_wf (log (nodes k a))" "\<forall>args \<in> ms. message_ok L args"
    "\<forall>c \<in> set M. won M k c (current_term (nodes k c)) \<longrightarrow> L (current_term (nodes k c)) = log (nodes k c)"
    "\<forall>t. L t \<noteq> [] \<longrightarrow> (\<exists>c \<in> set M. won M k c t)"
    using assms(4) by (simp_all add: one_log_per_term_def)
  have same: "won M ?k = won M k" by (simp add: won_def fun_eq_iff)
  have d: "follows L (log n)" "log_wf (log n)" "log n = log (nodes k v) \<or> (\<forall>rest. log (nodes k v) \<noteq> L (ae_term args) @ rest)"
    using deliver_log [of L args "nodes k v" V now] old(1,2) assms(2,3,5) by auto
  have led: "L (current_term n) = log n" if w: "won M k v (current_term n)"
  proof -
    have "current_term n \<le> current_term (nodes k v)" by (rule won_current(1) [OF assms(1) w])
    moreover have "current_term (nodes k v) \<le> current_term n"
      using vote_le_append_entries [of "nodes k v" V now args] by (auto simp: assms(5) vote_le_def)
    ultimately have t: "current_term n = current_term (nodes k v)" by simp
    then have l: "L (current_term n) = log (nodes k v)" using old(3) assms(2) w by simp
    have "log n = log (nodes k v)"
    proof (cases "ae_term args = current_term n")
      case True
      then show ?thesis using d(3) l by force
    next
      case False
      then have "ae_term args < current_term (nodes k v)"
        using t by (auto simp: assms(5) handle_append_entries_eq ae_commit_def frame_simps split: if_splits)
      then show ?thesis by (simp add: assms(5) handle_append_entries_eq)
    qed
    then show ?thesis using l by simp
  qed
  show ?thesis using old d(1,2) led unfolding one_log_per_term_def by (auto simp: same)
qed

section \<open>Log Matching\<close>

lemma raft_step_keeps:
  assumes "raft_step V M b s s'" and "b" and "cluster_inv V M (fst s)" and "one_log_per_term M s L"
  shows "cluster_inv V M (fst s') \<and> (\<exists>L'. one_log_per_term M s' L')"
  using assms
proof (induction rule: raft_step.induct)
  case (quiet b k k' ms)
  then show ?case using cluster_step_inv [of V M b k k'] quiet_keeps [of V M b k k' ms L] by auto
next
  case (extend c k n ms)
  let ?k = "k\<lparr>nodes := (nodes k)(c := n)\<rparr>"
  have s: "cluster_step V M True k ?k"
    using extend(1,4) leader_append_local [OF extend(3)] by (intro cluster_step.local)
  then have "cluster_inv V M ?k" using extend(6) cluster_step_inv by auto
  moreover have "\<exists>L'. one_log_per_term M (?k, ms) L'"
    using extend_keeps [of V M k c n ms L] extend(1-3,6,7) by auto
  ultimately show ?case by simp
next
  case (send c v k p args ms)
  then show ?case using send_keeps [of V M k c v ms L p args] by auto
next
  case (deliver v args ms n now k)
  have "cluster_step V M True k (k\<lparr>nodes := (nodes k)(v := n)\<rparr>)"
    using deliver(1,3,4) local_step.append by (intro cluster_step.local) auto
  then show ?case using cluster_step_inv deliver_keeps [of V M k v args ms L n now] deliver by auto
qed

lemma raft_run_keeps:
  assumes "raft_run V M b s s'" and "b" and "raft_init V M s"
  shows "cluster_inv V M (fst s') \<and> (\<exists>L. one_log_per_term M s' L)"
proof -
  have "b \<longrightarrow> cluster_inv V M (fst s') \<and> (\<exists>L. one_log_per_term M s' L)"
    using assms(1,3)
  proof (induction rule: raft_run.induct)
    case (begin_run s)
    then have i: "cluster_inv V M (fst s)" by (simp add: raft_init_def cluster_init_inv)
    moreover have "rounds (fst s) = Map.empty" using begin_run by (simp add: raft_init_def cluster_init_def)
    then have "one_log_per_term M s (\<lambda>_. [])" using begin_run by (simp add: raft_init_def one_log_per_term_def won_def)
    ultimately show ?case by blast
  next
    case (next_step b s s' b' s'')
    then show ?case using raft_step_keeps [of V M b' s' s''] by blast
  qed
  then show ?thesis using assms(2) by blast
qed

text \<open>C5: Log Matching: in a new cluster with fixed membership, along every run without late replies (vote
  refusals and answers to votes on transactions, handled when the node is already in their term or beyond) and in which
  nodes build appends only while they lead in the term they put into them (\<open>still_leading\<close>; \<open>sync_logs\<close> does not check
  it), if two nodes have entries of the same term at the same index, their logs agree up to
  and including that index. Appends may be lost, delayed, repeated and reordered, and leaders
  may change at any time.\<close>

theorem cluster_log_matching:
  assumes "raft_init V M s" and "raft_run V M b s s'" and "b" and "a \<in> set M" and "c \<in> set M"
  shows "log_matching (log (nodes (fst s') a)) (log (nodes (fst s') c)) \<and>
    log_wf (log (nodes (fst s') a))"
proof -
  from raft_run_keeps [OF assms(2,3,1)] obtain L where "one_log_per_term M s' L" by blast
  then show ?thesis using assms(4,5) follows_matching by (auto simp: one_log_per_term_def)
qed

section \<open>A run of a three-node cluster\<close>

text \<open>Node \<open>a\<close> wins term 1, proposes a write and sends it to \<open>b\<close>, which stores it.\<close>

definition written_a :: ex_cluster where
  "written_a = elected_a\<lparr>nodes := (nodes elected_a)(''a'' := snd (propose V0 (CmdSet ''k'' ''v'') (nodes elected_a ''a'')))\<rparr>"

definition append_a :: append_entries_args where
  "append_a = append_args_for (nodes written_a ''a'') ''b''"

definition stored_b :: ex_cluster where
  "stored_b = written_a\<lparr>nodes := (nodes written_a)(''b'' := snd (handle_append_entries V0 0 append_a (nodes written_a ''b'')))\<rparr>"

lemma stored_b_logs:
  "log (nodes stored_b ''a'') = [\<lparr>le_term = 1, le_index = 1, le_command = CmdSet ''k'' ''v''\<rparr>]"
  "log (nodes stored_b ''b'') = [\<lparr>le_term = 1, le_index = 1, le_command = CmdSet ''k'' ''v''\<rparr>]"
  by code_simp+

lemma quiet_election:
  "\<forall>a \<in> set M3. log (nodes init3 a) = []"
  "\<forall>a \<in> set M3. log (nodes (do_campaign ''a'' init3) a) = log (nodes init3 a)"
  "\<forall>a \<in> set M3. log (nodes (do_answer ''a'' 1 ''b'' (do_campaign ''a'' init3)) a) = log (nodes (do_campaign ''a'' init3) a)"
  "\<forall>a \<in> set M3. log (nodes elected_a a) = log (nodes (do_answer ''a'' 1 ''b'' (do_campaign ''a'' init3)) a)"
  by code_simp+

lemma unchanged_peers:
  "peers (snd (propose V0 (CmdSet ''k'' ''v'') (nodes elected_a ''a''))) = peers (nodes elected_a ''a'')"
  "state (nodes written_a ''a'') = Leader" "commit_index (nodes written_a ''a'') \<le> length (log (nodes written_a ''a''))"
  "peers (snd (handle_append_entries V0 0 append_a (nodes written_a ''b''))) = peers (nodes written_a ''b'')"
  by code_simp+

lemma stored_b_run: "raft_run V0 M3 (((((((True \<and> True) \<and> True) \<and> True) \<and> True) \<and> True) \<and> True)) (init3, {}) (stored_b, {append_a})"
proof -
  have "raft_step V0 M3 True (elected_a, {}) (written_a, {})"
    unfolding written_a_def using leader_append.proposing [OF proposal.proposed]
    by (intro raft_step.extend) (simp_all add: elected_a_facts unchanged_peers)
  moreover have "raft_step V0 M3 True (written_a, {}) (written_a, {append_a})"
    unfolding append_a_def
    by (rule raft_step.send [OF _ still_leading_now append_args_undisturbed]) (simp_all add: unchanged_peers)
  moreover have "raft_step V0 M3 True (written_a, {append_a}) (stored_b, {append_a})"
    unfolding stored_b_def by (intro raft_step.deliver [where args = append_a and now = 0]) (simp_all add: unchanged_peers)
  ultimately show ?thesis
    using elected_a_steps [THEN raft_step.quiet] quiet_election by (intro raft_run.next_step) (rule raft_run.begin_run)
qed

theorem cluster_log_matching_witness:
  "log_matching (log (nodes stored_b ''a'')) (log (nodes stored_b ''b'')) \<and> length (log (nodes stored_b ''a'')) = 1 \<and>
   log (nodes stored_b ''b'') \<noteq> []"
proof -
  have "raft_init V0 M3 (init3, {})" using init3_ok quiet_election(1) by (simp add: raft_init_def)
  from cluster_log_matching [OF this stored_b_run, of "''a''" "''b''"] show ?thesis by (simp add: stored_b_logs)
qed

end
