(* ===== verification/LeaderLogs.thy ===== *)
theory LeaderLogs
  imports LogMatching "HOL-Library.Sublist"
begin

text \<open>
  Leader Completeness, stated on the history of a cluster: the set \<open>T\<close> of the terms that had a
  leader, the log \<open>L t\<close> of the leader of each term, and the acknowledgements \<open>A t p i\<close> (in term
  \<open>t\<close> node \<open>p\<close> acknowledged the first \<open>i\<close> entries). A voter backs the leader of a later term only
  with a log that covers what it has acknowledged; majorities overlap; so no leader of a later
  term can miss an entry that a majority acknowledged in the term that created it.
\<close>

section \<open>Histories\<close>

definition history :: "(nat \<Rightarrow> log_entry list) \<Rightarrow> nat set \<Rightarrow> bool" where
  "history L T \<longleftrightarrow> (\<forall>t. (t \<notin> T \<longrightarrow> L t = []) \<and> follows L (L t) \<and> log_wf (L t) \<and> sorted (map le_term (L t)) \<and>
     (\<forall>e \<in> set (L t). le_term e \<le> t \<and> le_term e \<in> T))"

lemma historyD:
  assumes "history L T"
  shows "t \<notin> T \<Longrightarrow> L t = []" and "follows L (L t)" and "log_wf (L t)" and "sorted (map le_term (L t))"
    and "e \<in> set (L t) \<Longrightarrow> le_term e \<le> t" and "e \<in> set (L t) \<Longrightarrow> le_term e \<in> T"
  using assms by (simp_all add: history_def)

lemma follows_last:
  assumes "follows L l" and "l \<noteq> []"
  shows "prefix l (L (le_term (last l)))"
proof -
  let ?i = "length l - 1"
  have i: "?i < length l" "Suc ?i = length l" "l ! ?i = last l" using assms(2) by (auto simp: last_conv_nth)
  then have "l = take (length l) (L (le_term (last l)))" using assms(1) unfolding follows_def by (metis take_all order_refl)
  then show ?thesis by (metis take_is_prefix)
qed

lemma follows_sorted:
  assumes "history L T" and "follows L l"
  shows "sorted (map le_term l)"
proof (cases "l = []")
  case False
  then obtain zs where "L (le_term (last l)) = l @ zs" using follows_last [OF assms(2)] by (auto elim: prefixE)
  then show ?thesis using historyD(4) [OF assms(1), of "le_term (last l)"] by (simp add: sorted_append)
qed simp

lemma follows_prefix: "follows L l \<Longrightarrow> prefix l' l \<Longrightarrow> follows L l'"
  unfolding follows_def
proof (intro allI impI)
  fix i assume f: "\<forall>i < length l. i < length (L (le_term (l ! i))) \<and> take (Suc i) l = take (Suc i) (L (le_term (l ! i)))"
    and l: "prefix l' l" and i: "i < length l'"
  from l obtain zs where "l = l' @ zs" by (auto elim: prefixE)
  with i have "l ! i = l' ! i" "take (Suc i) l = take (Suc i) l'" "i < length l" by (simp_all add: nth_append)
  then show "i < length (L (le_term (l' ! i))) \<and> take (Suc i) l' = take (Suc i) (L (le_term (l' ! i)))" using f by metis
qed

lemma log_wf_prefix: "log_wf l \<Longrightarrow> prefix l' l \<Longrightarrow> log_wf l'"
  by (auto simp: indexed_from_append elim!: prefixE)

text \<open>The entry at position \<open>i\<close> was created by the leader of \<open>t\<close> itself.\<close>

definition own_entry :: "(nat \<Rightarrow> log_entry list) \<Rightarrow> nat \<Rightarrow> nat \<Rightarrow> bool" where
  "own_entry L t i \<longleftrightarrow> 1 \<le> i \<and> i \<le> length (L t) \<and> le_term (L t ! (i - 1)) = t"

text \<open>The log the leader of \<open>s\<close> was elected with.\<close>

definition elected_log :: "(nat \<Rightarrow> log_entry list) \<Rightarrow> nat \<Rightarrow> log_entry list" where
  "elected_log L s = takeWhile (\<lambda>e. le_term e < s) (L s)"

lemma elected_log_prefix: "prefix (elected_log L s) (L s)"
  unfolding elected_log_def by (metis takeWhile_dropWhile_id prefixI)

lemma elected_log_term: "e \<in> set (elected_log L s) \<Longrightarrow> le_term e < s"
  by (auto simp: elected_log_def dest: set_takeWhileD)

definition covers :: "log_entry list \<Rightarrow> nat \<Rightarrow> nat \<Rightarrow> bool" where
  "covers l t i \<longleftrightarrow> l \<noteq> [] \<and> (t < le_term (last l) \<or> le_term (last l) = t \<and> i \<le> length l)"

text \<open>The leader of \<open>s\<close> misses an entry that was acknowledged in \<open>t\<close>.\<close>

definition misses :: "(nat \<Rightarrow> log_entry list) \<Rightarrow> nat set \<Rightarrow> nat \<Rightarrow> nat \<Rightarrow> nat \<Rightarrow> bool" where
  "misses L T t i s \<longleftrightarrow> t < s \<and> s \<in> T \<and> \<not> prefix (take i (L t)) (L s)"

type_synonym acks = "nat \<Rightarrow> string \<Rightarrow> nat \<Rightarrow> bool"

definition backs :: "(nat \<Rightarrow> log_entry list) \<Rightarrow> nat set \<Rightarrow> acks \<Rightarrow> nat \<Rightarrow> string \<Rightarrow> log_entry list \<Rightarrow> bool" where
  "backs L T A s p l \<longleftrightarrow> (\<forall>t i. A t p i \<longrightarrow> t < s \<longrightarrow> own_entry L t i \<longrightarrow> covers l t i \<or> (\<exists>s' < s. misses L T t i s'))"

definition chosen :: "string list \<Rightarrow> (nat \<Rightarrow> log_entry list) \<Rightarrow> nat set \<Rightarrow> acks \<Rightarrow> nat \<Rightarrow> nat \<Rightarrow> bool" where
  "chosen M L T A t i \<longleftrightarrow> t \<in> T \<and> own_entry L t i \<and> is_majority M {p. A t p i}"

definition elected :: "string list \<Rightarrow> (nat \<Rightarrow> log_entry list) \<Rightarrow> nat set \<Rightarrow> acks \<Rightarrow> bool" where
  "elected M L T A \<longleftrightarrow> (\<forall>s \<in> T. is_majority M {p. backs L T A s p (elected_log L s)})"

section \<open>Leader Completeness\<close>

lemma leader_completeness:
  assumes h: "history L T" and e: "elected M L T A" and c: "chosen M L T A t i" and s: "s \<in> T" "t \<le> s"
  shows "prefix (take i (L t)) (L s)"
  using s
proof (induction s rule: less_induct)
  case (less s)
  have own: "own_entry L t i" using c by (simp add: chosen_def)
  show ?case
  proof (cases "t = s")
    case True
    then show ?thesis by (simp add: take_is_prefix)
  next
    case False
    then have ts: "t < s" using less.prems by simp
    have IH: "prefix (take i (L t)) (L s')" if "s' < s" "s' \<in> T" "t \<le> s'" for s' using less.IH that by blast
    have "is_majority M {p. A t p i}" "is_majority M {p. backs L T A s p (elected_log L s)}"
      using c e less.prems(1) by (simp_all add: chosen_def elected_def)
    then obtain p where p: "A t p i" "backs L T A s p (elected_log L s)" using majorities_meet by fastforce
    let ?l = "elected_log L s" and ?t = "le_term (last (elected_log L s))"
    have "\<not> misses L T t i s'" if "s' < s" for s' using IH that by (auto simp: misses_def)
    then have cov: "covers ?l t i" using p own ts unfolding backs_def by blast
    then have ne: "?l \<noteq> []" by (simp add: covers_def)
    have "last ?l \<in> set (L s)" using ne elected_log_prefix [of L s] set_mono_prefix last_in_set by blast
    then have T: "?t \<in> T" "?t < s" using historyD(6) [OF h] elected_log_term [OF last_in_set [OF ne]] by auto
    have lp: "prefix ?l (L ?t)"
      by (rule follows_last [OF follows_prefix [OF historyD(2) [OF h] elected_log_prefix] ne])
    have x: "prefix (take i (L t)) (L ?t)"
      using cov IH [OF T(2,1)] by (auto simp: covers_def take_is_prefix)
    have "prefix (take i (L t)) ?l"
    proof (cases "prefix (take i (L t)) ?l")
      case False
      then have px: "prefix ?l (take i (L t))" using prefix_same_cases [OF x lp] by blast
      then have "last ?l \<in> set (L t)" using ne by (meson last_in_set set_mono_prefix set_take_subset subsetD)
      then have "?t \<le> t" by (rule historyD(5) [OF h])
      then have "i \<le> length ?l" using cov by (auto simp: covers_def)
      then have "?l = take i (L t)" using px
        by (metis prefixE length_append length_take min.cobounded2 le_add1 le_antisym le_trans append_eq_conv_conj take_all)
      then show ?thesis by simp
    qed
    then show ?thesis using elected_log_prefix prefix_order.trans by blast
  qed
qed

text \<open>What a log may call committed: a prefix of what has been chosen up to term \<open>u\<close>.\<close>

definition justified :: "string list \<Rightarrow> (nat \<Rightarrow> log_entry list) \<Rightarrow> nat set \<Rightarrow> acks \<Rightarrow> nat \<Rightarrow> nat \<Rightarrow> log_entry list \<Rightarrow> bool" where
  "justified M L T A u m l \<longleftrightarrow> m \<le> length l \<and>
     (m = 0 \<or> (\<exists>t i. chosen M L T A t i \<and> t \<le> u \<and> m \<le> i \<and> take m l = take m (L t)))"

lemma justifiedI:
  assumes "chosen M L T A t i" and "t \<le> u" and "m \<le> i" and "m \<le> length l" and "take m l = take m (L t)"
  shows "justified M L T A u m l"
  unfolding justified_def using assms by blast

lemma justified_led:
  assumes "history L T" and "elected M L T A" and "justified M L T A u m l" and "s \<in> T" and "u \<le> s"
  shows "prefix (take m l) (L s)"
proof (cases "m = 0")
  case False
  then obtain t i where c: "chosen M L T A t i" "t \<le> u" "m \<le> i" "take m l = take m (L t)"
    using assms(3) by (auto simp: justified_def)
  have "prefix (take i (L t)) (L s)" using leader_completeness [OF assms(1,2) c(1) assms(4)] c(2) assms(5) by simp
  moreover have "prefix (take m (L t)) (take i (L t))"
    using c(3) by (metis min.absorb1 take_is_prefix take_take)
  ultimately show ?thesis using c(4) prefix_order.trans by metis
qed simp

lemma justified_agree:
  assumes "history L T" and "elected M L T A" and "justified M L T A u m l" and "justified M L T A u' m' l'"
  shows "take (min m m') l = take (min m m') l'"
proof -
  have half: "take (min m m') l = take (min m m') l'"
    if c: "chosen M L T A t i" "m \<le> i" "take m l = take m (L t)"
      and c': "chosen M L T A t' i'" "take m' l' = take m' (L t')" "t \<le> t'" for t t' i i' m m' l l'
  proof -
    have "prefix (take i (L t)) (L t')"
      using leader_completeness [OF assms(1,2) c(1) _ c'(3)] c'(1) by (simp add: chosen_def)
    moreover have "i \<le> length (L t)" using c(1) by (simp add: chosen_def own_entry_def)
    ultimately have eq: "take i (L t) = take i (L t')" by (auto elim!: prefixE)
    have "take (min m m') l = take (min m m') (take m l)" by (simp add: min_def)
    also have "\<dots> = take (min m m') (take i (L t))" using c(2,3) by (simp add: min_def)
    also have "\<dots> = take (min m m') (take m' (L t'))" using c(2) unfolding eq by (simp add: min_def)
    also have "\<dots> = take (min m m') l'" unfolding c'(2) [symmetric] by (simp add: min_def)
    finally show ?thesis .
  qed
  show ?thesis
  proof (cases "m = 0 \<or> m' = 0")
    case False
    then obtain t i t' i' where c: "chosen M L T A t i" "m \<le> i" "take m l = take m (L t)"
        "chosen M L T A t' i'" "m' \<le> i'" "take m' l' = take m' (L t')"
      using assms(3,4) by (auto simp: justified_def)
    show ?thesis
    proof (cases "t \<le> t'")
      case True
      then show ?thesis using half [OF c(1-4,6)] by simp
    next
      case False
      then show ?thesis using half [OF c(4-6,1,3)] by (simp add: min.commute)
    qed
  qed auto
qed

section \<open>Growing histories\<close>

text \<open>Leaders extend their logs with entries of their own term, and new terms get leaders.\<close>

definition grows :: "(nat \<Rightarrow> log_entry list) \<Rightarrow> nat set \<Rightarrow> (nat \<Rightarrow> log_entry list) \<Rightarrow> nat set \<Rightarrow> bool" where
  "grows L T L' T' \<longleftrightarrow> T \<subseteq> T' \<and> (\<forall>t \<in> T. \<exists>es. L' t = L t @ es \<and> (\<forall>e \<in> set es. le_term e = t))"

lemma grows_refl [simp]: "grows L T L T"
  by (simp add: grows_def)

lemma grows_trans: "grows L T L' T' \<Longrightarrow> grows L' T' L'' T'' \<Longrightarrow> grows L T L'' T''"
  unfolding grows_def by fastforce

lemma grows_take: "grows L T L' T' \<Longrightarrow> t \<in> T \<Longrightarrow> i \<le> length (L t) \<Longrightarrow> take i (L' t) = take i (L t)"
  by (auto simp: grows_def)

lemma grows_prefix: "grows L T L' T' \<Longrightarrow> t \<in> T \<Longrightarrow> prefix (L t) (L' t)"
  by (auto simp: grows_def)

lemma grows_own: "grows L T L' T' \<Longrightarrow> t \<in> T \<Longrightarrow> own_entry L t i \<Longrightarrow> own_entry L' t i"
  by (fastforce simp: grows_def own_entry_def nth_append)

lemma grows_own_iff:
  assumes "grows L T L' T'" and "t \<in> T" and "i \<le> length (L t)"
  shows "own_entry L' t i = own_entry L t i"
proof -
  obtain es where "L' t = L t @ es" using assms(1,2) by (auto simp: grows_def)
  then show ?thesis using assms(3) by (auto simp: own_entry_def nth_append)
qed

lemma grows_misses:
  assumes "history L T" and "grows L T L' T'" and "t \<in> T" and "i \<le> length (L t)" and "misses L T t i s"
  shows "misses L' T' t i s"
proof -
  have s: "t < s" "s \<in> T" "\<not> prefix (take i (L t)) (L s)" using assms(5) by (auto simp: misses_def)
  obtain es where es: "L' s = L s @ es" "\<forall>e \<in> set es. le_term e = s" using assms(2) s(2) by (auto simp: grows_def)
  have "\<not> prefix (take i (L t)) (L s @ es)"
  proof
    assume "prefix (take i (L t)) (L s @ es)"
    then obtain us where us: "take i (L t) = L s @ us" "prefix us es" using s(3) by (auto simp: prefix_append)
    then have "us \<noteq> []" using s(3) by auto
    then have "hd us \<in> set es" using us(2) by (meson hd_in_set set_mono_prefix subsetD)
    moreover have "hd us \<in> set (take i (L t))" using us(1) \<open>us \<noteq> []\<close> by simp
    then have "hd us \<in> set (L t)" by (rule in_set_takeD)
    ultimately show False using es(2) historyD(5) [OF assms(1)] s(1) by force
  qed
  moreover have "take i (L' t) = take i (L t)" by (rule grows_take [OF assms(2-4)])
  moreover have "s \<in> T'" using assms(2) s(2) by (auto simp: grows_def)
  ultimately show ?thesis using s(1) es(1) by (simp add: misses_def)
qed

lemma grows_elected_log:
  assumes "grows L T L' T'" and "s \<in> T"
  shows "elected_log L' s = elected_log L s"
proof -
  obtain es where es: "L' s = L s @ es" "\<forall>e \<in> set es. le_term e = s" using assms by (auto simp: grows_def)
  then have "takeWhile (\<lambda>e. le_term e < s) es = []" by (cases es) auto
  then have "takeWhile (\<lambda>e. le_term e < s) (l @ es) = takeWhile (\<lambda>e. le_term e < s) l" for l by (induction l) simp_all
  then show ?thesis by (simp add: elected_log_def es(1))
qed

text \<open>Acknowledgements name entries of the logs of leaders.\<close>

definition acks_ok :: "(nat \<Rightarrow> log_entry list) \<Rightarrow> nat set \<Rightarrow> acks \<Rightarrow> bool" where
  "acks_ok L T A \<longleftrightarrow> (\<forall>t p i. A t p i \<longrightarrow> t \<in> T \<and> i \<le> length (L t))"

lemma grows_backs:
  assumes "history L T" and "grows L T L' T'" and "acks_ok L T A" and "backs L T A s p l"
    and "\<And>t i. A' t p i \<Longrightarrow> t < s \<Longrightarrow> A t p i"
  shows "backs L' T' A' s p l"
  unfolding backs_def
proof (intro allI impI)
  fix t i assume a: "A' t p i" "t < s" "own_entry L' t i"
  then have A: "A t p i" using assms(5) by blast
  then have t: "t \<in> T" "i \<le> length (L t)" using assms(3) by (auto simp: acks_ok_def)
  then have "own_entry L t i" using a(3) grows_own_iff [OF assms(2) t] by simp
  then show "covers l t i \<or> (\<exists>s'<s. misses L' T' t i s')"
    using assms(4) A a(2) grows_misses [OF assms(1,2) t] unfolding backs_def by blast
qed

lemma grows_chosen:
  assumes "grows L T L' T'" and "chosen M L T A t i" and "\<And>p. A t p i \<Longrightarrow> A' t p i"
  shows "chosen M L' T' A' t i"
proof -
  have "t \<in> T" "own_entry L t i" "is_majority M {p. A t p i}" using assms(2) by (simp_all add: chosen_def)
  then show ?thesis
    using grows_own [OF assms(1)] is_majority_mono [of M "{p. A t p i}" "{p. A' t p i}"] assms(1,3)
    by (auto simp: chosen_def grows_def)
qed

lemma grows_justified:
  assumes "grows L T L' T'" and "justified M L T A u m l" and "\<And>t p i. A t p i \<Longrightarrow> A' t p i"
    and "u \<le> u'" and "m' \<le> m" and "prefix (take m l) l'"
  shows "justified M L' T' A' u' m' l'"
proof -
  have len: "m \<le> length l" using assms(2) by (simp add: justified_def)
  obtain zs where l': "l' = take m l @ zs" using assms(6) by (auto elim: prefixE)
  have tk: "take m' l' = take m' l" using len assms(5) by (simp add: l' min_def)
  have "m' \<le> length l'" using len assms(5) by (simp add: l')
  moreover have "\<exists>t i. chosen M L' T' A' t i \<and> t \<le> u' \<and> m' \<le> i \<and> take m' l' = take m' (L' t)" if "m' \<noteq> 0"
  proof -
    have "m \<noteq> 0" using that assms(5) by simp
    then obtain t i where c: "chosen M L T A t i" "t \<le> u" "m \<le> i" "take m l = take m (L t)"
      using assms(2) by (auto simp: justified_def)
    have t: "t \<in> T" "i \<le> length (L t)" using c(1) by (auto simp: chosen_def own_entry_def)
    have "take m' l' = take m' (take m l)" using tk assms(5) by (simp add: min_def)
    also have "\<dots> = take m' (take i (L t))" using c(3,4) assms(5) by (simp add: min_def)
    also have "\<dots> = take m' (take i (L' t))" using grows_take [OF assms(1) t] by simp
    also have "\<dots> = take m' (L' t)" using c(3) assms(5) by (simp add: min_def)
    finally have "take m' l' = take m' (L' t)" .
    moreover have "chosen M L' T' A' t i" using grows_chosen [OF assms(1) c(1)] assms(3) by blast
    moreover have "t \<le> u'" "m' \<le> i" using c(2,3) assms(4,5) by simp_all
    ultimately show ?thesis by blast
  qed
  ultimately show ?thesis by (auto simp: justified_def)
qed

end
