(* ===== verification/Replication.thy ===== *)
theory Replication
  imports LeaderLogs
begin

text \<open>
  Commit safety in a cluster. The runs of \<open>LogMatching\<close> with their bookkeeping: the leaders'
  \<open>match_index\<close> and \<open>next_index\<close>, the acknowledgements that followers have given, and the commit
  indices. Appends and acknowledgements stay in the network for ever and are handled any number
  of times, in any order; the leader of a term may vanish at any moment. The invariant ties a run
  to its history (\<open>LeaderLogs\<close>), and Leader Completeness gives that committed entries are final.
\<close>

section \<open>Steps\<close>

text \<open>What a step may do to a node that neither stores nor commits anything. A node that becomes leader
  does so with the \<open>match_index\<close> of a new process: nothing resets it at an election.\<close>

definition undisturbed :: "('b, 'w, 'c) raft_node \<Rightarrow> ('b, 'w, 'c) raft_node \<Rightarrow> bool" where
  "undisturbed n m \<longleftrightarrow> log m = log n \<and> commit_index m \<le> commit_index n \<and> current_config m = current_config n \<and>
     (state m = Leader \<longrightarrow> (if state n = Leader then match_index m = match_index n \<and> next_index m = next_index n
        else match_index m = Map.empty))"

text \<open>The cluster, the appends that were sent, who has accepted which of them, and for which nodes and indices
  a coordinator of transactions has seen that the index is committed and stored there
  (\<open>poll_applied\<close> and \<open>poll_replicated\<close>), so that it may ask for votes up to the index.\<close>

type_synonym ('b, 'w, 'c) replication_state =
  "('b, 'w, 'c) cluster \<times> append_entries_args set \<times> (string \<times> append_entries_args) set \<times> (string \<times> nat) set"

abbreviation with_node :: "('b, 'w, 'c) cluster \<Rightarrow> string \<Rightarrow> ('b, 'w, 'c) raft_node \<Rightarrow> ('b, 'w, 'c) cluster" where
  "with_node k c n \<equiv> k\<lparr>nodes := (nodes k)(c := n)\<rparr>"

inductive replication_step :: "('b, 'w, 'c) node_env \<Rightarrow> string list \<Rightarrow> bool \<Rightarrow> ('b, 'w, 'c) replication_state
    \<Rightarrow> ('b, 'w, 'c) replication_state \<Rightarrow> bool"
  for V :: "('b, 'w, 'c) node_env" and M :: "string list" where
  quiet: "cluster_step V M b k k' \<Longrightarrow> \<forall>a \<in> set M. undisturbed (nodes k a) (nodes k' a) \<Longrightarrow>
    replication_step V M b (k, ms, R, E) (k', ms, R, E)"
| propose: "c \<in> set M \<Longrightarrow> state (nodes k c) = Leader \<Longrightarrow> proposal V (nodes k c) n \<Longrightarrow>
    replication_step V M True (k, ms, R, E) (with_node k c n, ms, R, E)"
| send: "c \<in> set M \<Longrightarrow> still_leading v (nodes k c) \<Longrightarrow> append_args_at v (nodes k c) p = Some args \<Longrightarrow>
    replication_step V M True (k, ms, R, E) (k, insert args ms, R, E)"
| deliver: "v \<in> set M \<Longrightarrow> args \<in> ms \<Longrightarrow> handle_append_entries V now args (nodes k v) = (reply, n) \<Longrightarrow>
    current_config n = current_config (nodes k v) \<Longrightarrow>
    replication_step V M True (k, ms, R, E) (with_node k v n, ms, if ar_success reply then insert (v, args) R else R, E)"
| acknowledge: "c \<in> set M \<Longrightarrow> state (nodes k c) = Leader \<Longrightarrow>
    (ar_success reply \<Longrightarrow> (p, args) \<in> R \<and> ae_term args = current_term (nodes k c)) \<Longrightarrow>
    n = append_reply_handler V now p args reply (nodes k c) \<Longrightarrow> current_config n = current_config (nodes k c) \<Longrightarrow>
    replication_step V M True (k, ms, R, E) (with_node k c n, ms, R, E)"
| clear: "c \<in> set M \<Longrightarrow> state (nodes k c) = Leader \<Longrightarrow> p \<in> set (peers (nodes k c)) \<Longrightarrow> 0 < i \<Longrightarrow>
    i \<le> commit_index (nodes k c) \<Longrightarrow> i \<le> match_index_for (nodes k c) p \<Longrightarrow>
    replication_step V M True (k, ms, R, E) (k, ms, R, insert (p, i) E)"
| vote_tx: "v \<in> set M \<Longrightarrow> (v, tv_last_log_index req) \<in> E \<Longrightarrow> handle_tx_vote_request V req (nodes k v) = (reply, n) \<Longrightarrow>
    log n = log (nodes k v) \<Longrightarrow> current_config n = current_config (nodes k v) \<Longrightarrow>
    replication_step V M True (k, ms, R, E) (with_node k v n, ms, R, E)"

inductive replication_run :: "('b, 'w, 'c) node_env \<Rightarrow> string list \<Rightarrow> bool \<Rightarrow> ('b, 'w, 'c) replication_state
    \<Rightarrow> ('b, 'w, 'c) replication_state \<Rightarrow> bool"
  for V :: "('b, 'w, 'c) node_env" and M :: "string list" where
  at_start: "replication_run V M True s s"
| one_more: "replication_run V M b s s' \<Longrightarrow> replication_step V M b' s' s'' \<Longrightarrow> replication_run V M (b \<and> b') s s''"

definition replication_init :: "('b, 'w, 'c) node_env \<Rightarrow> string list \<Rightarrow> ('b, 'w, 'c) replication_state \<Rightarrow> bool" where
  "replication_init V M s \<longleftrightarrow> cluster_init V M (fst s) \<and> (\<forall>a \<in> set M. log (nodes (fst s) a) = []) \<and> snd s = ({}, {}, {})"

section \<open>What elections do\<close>

lemma get_last_log_info_cong: "log n = log m \<Longrightarrow> get_last_log_info n = get_last_log_info m"
  by (simp add: get_last_log_info_def)

lemma voted_current:
  assumes "cluster_inv V M k" and "voted k c s v"
  shows "s \<le> current_term (nodes k c)" and "s \<le> current_term (nodes k v)"
proof -
  have ok: "votes_ok k" "tasks_ok M k" using assms(1) by (simp_all add: cluster_inv_def)
  have "rounds k (c, s) \<noteq> None" using assms(2) ok(2) by (auto simp: voted_def tasks_ok_def)
  then have "voted k c s c" by (auto simp: voted_def)
  then have "promised (nodes k c) s c" "promised (nodes k v) s c" using ok(1) assms(2) by (auto simp: votes_ok_def)
  then show "s \<le> current_term (nodes k c)" "s \<le> current_term (nodes k v)" by (auto simp: promised_def)
qed

lemma task_current:
  assumes "cluster_inv V M k" and "tasks k (c, s, v) = Some x"
  shows "s \<le> current_term (nodes k c)"
proof -
  have "rounds k (c, s) \<noteq> None" using assms by (auto simp: cluster_inv_def tasks_ok_def)
  then have "voted k c s c" by (auto simp: voted_def)
  then show ?thesis by (rule voted_current(1) [OF assms(1)])
qed

text \<open>A new vote is the candidate's own, when it starts its round, or a granted request.\<close>

definition new_vote :: "('b, 'w, 'c) node_env \<Rightarrow> string list \<Rightarrow> ('b, 'w, 'c) cluster \<Rightarrow> string \<Rightarrow> nat \<Rightarrow> string \<Rightarrow> bool" where
  "new_vote V M k c s v \<longleftrightarrow> v = c \<and> c \<in> set M \<and> s = current_term (nodes k c) + 1 \<or>
     (\<exists>args now. tasks k (c, s, v) = Some (Sent args) \<and> v \<in> set M \<and> vote_granted (fst (handle_request_vote V now args (nodes k v))))"

definition new_request :: "('b, 'w, 'c) cluster \<Rightarrow> string \<Rightarrow> nat \<Rightarrow> request_vote_args \<Rightarrow> bool" where
  "new_request k c s args \<longleftrightarrow> s = current_term (nodes k c) + 1 \<and>
     (rv_last_log_index args, rv_last_log_term args) = get_last_log_info (nodes k c)"

lemma start_round_votes:
  assumes "cluster_inv V M k" and "d \<in> set M"
    and "request_votes now (promote_to_candidate_locked V now' (nodes k d)) = (r, msgs, n)"
  shows "voted (start_round d r msgs n k) c s v \<Longrightarrow> voted k c s v \<or> new_vote V M k c s v"
    and "tasks (start_round d r msgs n k) (c, s, v) = Some (Sent args) \<Longrightarrow>
      tasks k (c, s, v) = Some (Sent args) \<or> new_request k c s args"
proof -
  have ne: "peers (nodes k d) \<noteq> []" using assms(1,2) peers_nonempty by (auto simp: cluster_inv_def)
  note q = request_votes_round [OF assms(3) ne]
  show "voted (start_round d r msgs n k) c s v \<Longrightarrow> voted k c s v \<or> new_vote V M k c s v"
    using q(1) assms(2) by (auto simp: voted_def new_vote_def split: if_splits)
  have info: "get_last_log_info (promote_to_candidate_locked V now' (nodes k d)) = get_last_log_info (nodes k d)"
    by (rule get_last_log_info_cong) (simp add: frame_simps)
  have "(rv_last_log_index a, rv_last_log_term a) = get_last_log_info (nodes k d)" if "map_of msgs v = Some a" for a
    using that assms(3) ne info by (auto simp: request_votes_def Let_def vote_args_for_def frame_simps dest!: map_of_SomeD)
  then show "tasks (start_round d r msgs n k) (c, s, v) = Some (Sent args) \<Longrightarrow>
      tasks k (c, s, v) = Some (Sent args) \<or> new_request k c s args"
    using q(1) by (auto simp: new_request_def split: if_splits)
qed

lemma cluster_step_votes:
  "cluster_step V M b k k' \<Longrightarrow> cluster_inv V M k \<Longrightarrow>
    (voted k' c s v \<longrightarrow> voted k c s v \<or> new_vote V M k c s v) \<and>
    (tasks k' (c, s, v) = Some (Sent args) \<longrightarrow> tasks k (c, s, v) = Some (Sent args) \<or> new_request k c s args)"
proof (induction rule: cluster_step.induct)
  case (campaign d now k r msgs n)
  then show ?case using start_round_votes [OF campaign(3,1), of now now r msgs n] by (simp add: become_candidate_def)
next
  case (probe_quorum d now reply pr k pr' r msgs n)
  then have "request_votes now (promote_to_candidate_locked V now (nodes k d)) = (r, msgs, n)"
    by (auto simp: process_pre_vote_reply_def Let_def split: if_splits prod.splits)
  then show ?case using start_round_votes [OF probe_quorum(3,1)] by blast
next
  case (answer u k d t args' now reply n)
  have "new_vote V M k d t u" if "vote_granted reply" unfolding new_vote_def using answer(1-3) that by (metis fst_conv)
  then show ?case by (auto simp: voted_def split: if_splits)
next
  case (reply d k t u reply r now r' n)
  then show ?case by (auto simp: voted_def split: if_splits)
qed (auto simp: voted_def split: if_splits)

text \<open>Who leads after the step led before, in the same term, or has just been promoted.\<close>

lemma cluster_step_leader:
  "cluster_step V M b k k' \<Longrightarrow> cluster_inv V M k \<Longrightarrow> c \<in> set M \<Longrightarrow> state (nodes k' c) = Leader \<Longrightarrow>
    state (nodes k c) = Leader \<and> current_term (nodes k' c) = current_term (nodes k c) \<or>
    state (nodes k c) \<noteq> Leader \<and> (\<exists>now. nodes k' c = become_leader now (nodes k c))"
proof (induction rule: cluster_step.induct)
  case (campaign d now k r msgs n)
  have "n = promote_to_candidate_locked V now (nodes k d)"
    using request_votes_round(4) [of now V now "nodes k d" r msgs n] campaign(2) peers_nonempty(1) [of V M k d] campaign(1,3)
    by (simp add: become_candidate_def cluster_inv_def)
  then show ?case using campaign(5) by (auto simp: frame_simps split: if_splits)
next
  case (probe_quorum d now reply pr k pr' r msgs n)
  then have q: "request_votes now (promote_to_candidate_locked V now (nodes k d)) = (r, msgs, n)"
    by (auto simp: process_pre_vote_reply_def Let_def split: if_splits prod.splits)
  have "n = promote_to_candidate_locked V now (nodes k d)"
    using request_votes_round(4) [OF q] peers_nonempty(1) [of V M k d] probe_quorum(1,3) by (simp add: cluster_inv_def)
  then show ?case using probe_quorum(5) by (auto simp: frame_simps split: if_splits)
next
  case (answer u k d t args' now reply n)
  then show ?case using no_promotion_handlers(1) [of "nodes k u" V now args'] by (auto simp: no_promotion_def split: if_splits)
next
  case (reply d k t u reply r now r' n)
  then show ?case by (auto simp: vote_reply_handler_def Let_def frame_simps split: if_splits)
next
  case (local u k n)
  then have "no_promotion (nodes k u) n" using peers_nonempty(1) [of V M k u] by (intro no_promotion_local) (auto simp: cluster_inv_def)
  then show ?case using local by (auto simp: no_promotion_def split: if_splits)
next
  case (tx_vote_reply u k t)
  then show ?case using no_promotion_coordinator(2) [of "nodes k u" V t] by (auto simp: no_promotion_def split: if_splits)
qed simp

section \<open>The invariant\<close>

text \<open>A node has acknowledged a prefix of the log of term \<open>t\<close> by leading the term or by accepting an append.\<close>

definition acks_of :: "string list \<Rightarrow> ('b, 'w, 'c) cluster \<Rightarrow> (string \<times> append_entries_args) set \<Rightarrow> (nat \<Rightarrow> log_entry list)
    \<Rightarrow> nat set \<Rightarrow> acks" where
  "acks_of M k R L T t p i \<longleftrightarrow> t \<in> T \<and> i \<le> length (L t) \<and> (won M k p t \<or>
     (\<exists>args. (p, args) \<in> R \<and> ae_term args = t \<and> i \<le> prev_log_index args + length (ae_entries args)))"

definition acks_kept :: "(nat \<Rightarrow> log_entry list) \<Rightarrow> nat set \<Rightarrow> acks \<Rightarrow> string \<Rightarrow> ('b, 'w, 'c) raft_node \<Rightarrow> bool" where
  "acks_kept L T A p n \<longleftrightarrow> (\<forall>t i. A t p i \<longrightarrow> t \<le> current_term n \<and>
     (prefix (take i (L t)) (log n) \<or> (\<exists>s \<le> current_term n. misses L T t i s)))"

definition sent_ok :: "string list \<Rightarrow> (nat \<Rightarrow> log_entry list) \<Rightarrow> nat set \<Rightarrow> acks \<Rightarrow> append_entries_args \<Rightarrow> bool" where
  "sent_ok M L T A args \<longleftrightarrow> ae_term args \<in> T \<and> (\<exists>l. prefix l (L (ae_term args)) \<and> prev_log_index args \<le> length l \<and>
     ae_entries args = drop (prev_log_index args) l \<and>
     (0 < prev_log_index args \<longrightarrow> le_term (l ! (prev_log_index args - 1)) = prev_log_term args) \<and>
     justified M L T A (ae_term args) (leader_commit args) l)"

definition terms_led :: "string list \<Rightarrow> ('b, 'w, 'c) cluster \<Rightarrow> nat set \<Rightarrow> bool" where
  "terms_led M k T \<longleftrightarrow> (\<forall>t \<in> T. \<exists>c. won M k c t) \<and> (\<forall>c. won M k c (current_term (nodes k c)) \<longrightarrow> current_term (nodes k c) \<in> T)"

text \<open>The election of every term: what the majority of a leader, and the voters of a candidate, have seen.\<close>

definition leaders_backed :: "string list \<Rightarrow> ('b, 'w, 'c) cluster \<Rightarrow> (nat \<Rightarrow> log_entry list) \<Rightarrow> nat set \<Rightarrow> acks \<Rightarrow> bool" where
  "leaders_backed M k L T A \<longleftrightarrow>
     (\<forall>s \<in> T. is_majority M {p. s \<le> current_term (nodes k p) \<and> backs L T A s p (elected_log L s)})"

definition candidates_backed :: "string list \<Rightarrow> ('b, 'w, 'c) cluster \<Rightarrow> (nat \<Rightarrow> log_entry list) \<Rightarrow> nat set \<Rightarrow> acks \<Rightarrow> bool" where
  "candidates_backed M k L T A \<longleftrightarrow> (\<forall>c \<in> set M. \<forall>v. current_term (nodes k c) \<notin> T \<longrightarrow>
     (voted k c (current_term (nodes k c)) v \<longrightarrow> backs L T A (current_term (nodes k c)) v (log (nodes k c))) \<and>
     (\<forall>args. tasks k (c, current_term (nodes k c), v) = Some (Sent args) \<longrightarrow>
        (rv_last_log_index args, rv_last_log_term args) = get_last_log_info (nodes k c)))"

definition members_hold :: "string list \<Rightarrow> ('b, 'w, 'c) cluster \<Rightarrow> (nat \<Rightarrow> log_entry list) \<Rightarrow> nat set \<Rightarrow> acks \<Rightarrow> bool" where
  "members_hold M k L T A \<longleftrightarrow> (\<forall>p \<in> set M.
     (\<forall>e \<in> set (log (nodes k p)). le_term e \<le> current_term (nodes k p) \<and> le_term e \<in> T) \<and>
     acks_kept L T A p (nodes k p) \<and>
     justified M L T A (current_term (nodes k p)) (commit_index (nodes k p)) (log (nodes k p)) \<and>
     current_config (nodes k p) = Simple (server p # map server (filter (\<lambda>a. a \<noteq> p) M)))"

definition leader_knows :: "(string \<times> append_entries_args) set \<Rightarrow> ('b, 'w, 'c) raft_node \<Rightarrow> bool" where
  "leader_knows R n \<longleftrightarrow> (state n = Leader \<longrightarrow> (\<forall>p i. next_index n p = Some i \<longrightarrow> i \<le> length (log n) + 1) \<and>
     (\<forall>p i. match_index n p = Some i \<longrightarrow> (\<exists>args. (p, args) \<in> R \<and> ae_term args = current_term n \<and>
        i = prev_log_index args + length (ae_entries args))))"

text \<open>What a coordinator was cleared for is stored on the node and has been chosen.\<close>

definition cleared_ok :: "string list \<Rightarrow> (nat \<Rightarrow> log_entry list) \<Rightarrow> nat set \<Rightarrow> acks \<Rightarrow> (string \<times> nat) set \<Rightarrow> bool" where
  "cleared_ok M L T A E \<longleftrightarrow> (\<forall>(v, i) \<in> E. \<exists>t. A t v i \<and> justified M L T A t i (L t))"

definition replication_inv :: "('b, 'w, 'c) node_env \<Rightarrow> string list \<Rightarrow> ('b, 'w, 'c) replication_state
    \<Rightarrow> (nat \<Rightarrow> log_entry list) \<Rightarrow> nat set \<Rightarrow> bool" where
  "replication_inv V M s L T \<longleftrightarrow> (case s of (k, ms, R, E) \<Rightarrow> let A = acks_of M k R L T in
     cluster_inv V M k \<and> one_log_per_term M (k, ms) L \<and> history L T \<and> terms_led M k T \<and>
     leaders_backed M k L T A \<and> candidates_backed M k L T A \<and> members_hold M k L T A \<and>
     (\<forall>c \<in> set M. leader_knows R (nodes k c)) \<and> (\<forall>args \<in> ms. sent_ok M L T A args) \<and> (\<forall>(p, args) \<in> R. args \<in> ms) \<and>
     cleared_ok M L T A E)"

lemma acks_of_ok: "acks_ok L T (acks_of M k R L T)"
  by (simp add: acks_ok_def acks_of_def)

lemma backed_elected: "leaders_backed M k L T A \<Longrightarrow> elected M L T A"
  unfolding leaders_backed_def elected_def by (auto intro: is_majority_mono)

section \<open>How a step moves the history\<close>

text \<open>A new acknowledgement is one of the node's term after the step, and the node has what it acknowledges.\<close>

definition moves :: "string list \<Rightarrow> ('b, 'w, 'c) cluster \<Rightarrow> (nat \<Rightarrow> log_entry list) \<Rightarrow> nat set \<Rightarrow> acks
    \<Rightarrow> ('b, 'w, 'c) cluster \<Rightarrow> (nat \<Rightarrow> log_entry list) \<Rightarrow> nat set \<Rightarrow> acks \<Rightarrow> bool" where
  "moves M k L T A k' L' T' A' \<longleftrightarrow> grows L T L' T' \<and> (\<forall>t p i. A t p i \<longrightarrow> A' t p i) \<and>
     (\<forall>t p i. A' t p i \<longrightarrow> A t p i \<or> t = current_term (nodes k' p) \<and> prefix (take i (L' t)) (log (nodes k' p))) \<and>
     (\<forall>p. current_term (nodes k p) \<le> current_term (nodes k' p))"

lemma movesD:
  assumes "moves M k L T A k' L' T' A'"
  shows "grows L T L' T'" and "A t p i \<Longrightarrow> A' t p i"
    and "A' t p i \<Longrightarrow> \<not> A t p i \<Longrightarrow> t = current_term (nodes k' p) \<and> prefix (take i (L' t)) (log (nodes k' p))"
    and "current_term (nodes k p) \<le> current_term (nodes k' p)"
  using assms unfolding moves_def by blast+

lemma moves_backs:
  assumes "moves M k L T A k' L' T' A'" and "history L T" and "acks_ok L T A" and "backs L T A s p l"
    and "s \<le> current_term (nodes k' p)"
  shows "backs L' T' A' s p l"
proof (rule grows_backs [OF assms(2) movesD(1) [OF assms(1)] assms(3,4)])
  fix t i assume "A' t p i" "t < s"
  then show "A t p i" using movesD(3) [OF assms(1)] assms(5) by force
qed

lemma moves_leaders_backed:
  assumes "moves M k L T A k' L' T' A'" and "history L T" and "acks_ok L T A" and "leaders_backed M k L T A" and "s \<in> T"
  shows "is_majority M {p. s \<le> current_term (nodes k' p) \<and> backs L' T' A' s p (elected_log L' s)}"
proof -
  have e: "elected_log L' s = elected_log L s" by (rule grows_elected_log [OF movesD(1) [OF assms(1)] assms(5)])
  have "s \<le> current_term (nodes k' p) \<and> backs L' T' A' s p (elected_log L s)"
    if p: "s \<le> current_term (nodes k p)" "backs L T A s p (elected_log L s)" for p
  proof -
    have "s \<le> current_term (nodes k' p)" using p(1) movesD(4) [OF assms(1), of p] by simp
    then show ?thesis using moves_backs [OF assms(1-3) p(2)] by simp
  qed
  then show ?thesis unfolding e using assms(4,5) by (auto simp: leaders_backed_def intro: is_majority_mono)
qed

lemma moves_acks_kept:
  assumes "moves M k L T A k' L' T' A'" and "history L T" and "acks_ok L T A" and "acks_kept L T A p (nodes k p)"
    and "\<And>t i. A t p i \<Longrightarrow> prefix (take i (L t)) (log (nodes k p)) \<Longrightarrow>
      prefix (take i (L t)) (log (nodes k' p)) \<or> misses L T t i (current_term (nodes k' p))"
  shows "acks_kept L' T' A' p (nodes k' p)"
  unfolding acks_kept_def
proof (intro allI impI)
  fix t i assume a: "A' t p i"
  note up = movesD(4) [OF assms(1), of p]
  show "t \<le> current_term (nodes k' p) \<and> (prefix (take i (L' t)) (log (nodes k' p)) \<or>
      (\<exists>s \<le> current_term (nodes k' p). misses L' T' t i s))"
  proof (cases "A t p i")
    case True
    then have t: "t \<in> T" "i \<le> length (L t)" using assms(3) by (auto simp: acks_ok_def)
    have "t \<le> current_term (nodes k p)" and k: "prefix (take i (L t)) (log (nodes k p)) \<or> (\<exists>s \<le> current_term (nodes k p). misses L T t i s)"
      using assms(4) True by (auto simp: acks_kept_def)
    then have "t \<le> current_term (nodes k' p)" using up by simp
    moreover have "prefix (take i (L t)) (log (nodes k' p)) \<or> (\<exists>s \<le> current_term (nodes k' p). misses L T t i s)"
      using k assms(5) [OF True] up order.trans by blast
    then have "prefix (take i (L' t)) (log (nodes k' p)) \<or> (\<exists>s \<le> current_term (nodes k' p). misses L' T' t i s)"
      using grows_take [OF movesD(1) [OF assms(1)] t] grows_misses [OF assms(2) movesD(1) [OF assms(1)] t] by auto
    ultimately show ?thesis by blast
  next
    case False
    then show ?thesis using movesD(3) [OF assms(1) a] by blast
  qed
qed

lemma sent_okI:
  assumes "ae_term args \<in> T" and "prefix l (L (ae_term args))" and "prev_log_index args \<le> length l"
    and "ae_entries args = drop (prev_log_index args) l"
    and "0 < prev_log_index args \<longrightarrow> le_term (l ! (prev_log_index args - 1)) = prev_log_term args"
    and "justified M L T A (ae_term args) (leader_commit args) l"
  shows "sent_ok M L T A args"
  unfolding sent_ok_def by (intro conjI exI [of _ l]) (rule assms)+

lemma sent_okE:
  assumes "sent_ok M L T A args"
  obtains l where "ae_term args \<in> T" "prefix l (L (ae_term args))" "prev_log_index args \<le> length l"
    "ae_entries args = drop (prev_log_index args) l" "0 < prev_log_index args \<longrightarrow> le_term (l ! (prev_log_index args - 1)) = prev_log_term args"
    "justified M L T A (ae_term args) (leader_commit args) l"
proof -
  from assms show ?thesis unfolding sent_ok_def by (elim exE conjE) (rule that)
qed

lemma moves_sent:
  assumes "moves M k L T A k' L' T' A'" and "sent_ok M L T A args"
  shows "sent_ok M L' T' A' args"
proof -
  from assms(2) obtain l where l: "ae_term args \<in> T" "prefix l (L (ae_term args))" "prev_log_index args \<le> length l"
    "ae_entries args = drop (prev_log_index args) l" "0 < prev_log_index args \<longrightarrow> le_term (l ! (prev_log_index args - 1)) = prev_log_term args"
    "justified M L T A (ae_term args) (leader_commit args) l"
    by (rule sent_okE)
  note g = movesD(1) [OF assms(1)]
  show ?thesis
  proof (rule sent_okI [OF _ _ l(3-5)])
    show "prefix l (L' (ae_term args))" using l(2) grows_prefix [OF g l(1)] by (rule prefix_order.trans)
    show "justified M L' T' A' (ae_term args) (leader_commit args) l"
      by (rule grows_justified [OF g l(6) movesD(2) [OF assms(1)]]) (simp_all add: take_is_prefix)
    show "ae_term args \<in> T'" using l(1) g by (auto simp: grows_def)
  qed
qed

lemma moves_cleared:
  assumes "moves M k L T A k' L' T' A'" and "acks_ok L T A" and "cleared_ok M L T A E"
  shows "cleared_ok M L' T' A' E"
  unfolding cleared_ok_def
proof safe
  fix v i assume "(v, i) \<in> E"
  then obtain t where t: "A t v i" "justified M L T A t i (L t)" using assms(3) by (auto simp: cleared_ok_def)
  have "t \<in> T" using t(1) assms(2) by (auto simp: acks_ok_def)
  then have "prefix (take i (L t)) (L' t)"
    using grows_prefix [OF movesD(1) [OF assms(1)]] take_is_prefix prefix_order.trans by blast
  then have "justified M L' T' A' t i (L' t)"
    by (intro grows_justified [OF movesD(1) [OF assms(1)] t(2) movesD(2) [OF assms(1)]]) simp_all
  then show "\<exists>t. A' t v i \<and> justified M L' T' A' t i (L' t)" using movesD(2) [OF assms(1) t(1)] by blast
qed

lemma moves_justified:
  assumes "moves M k L T A k' L' T' A'" and "justified M L T A (current_term (nodes k p)) (commit_index (nodes k p)) (log (nodes k p))"
    and "m \<le> commit_index (nodes k p)" and "prefix (take (commit_index (nodes k p)) (log (nodes k p))) (log (nodes k' p))"
  shows "justified M L' T' A' (current_term (nodes k' p)) m (log (nodes k' p))"
  by (rule grows_justified [OF movesD(1) [OF assms(1)] assms(2) movesD(2) [OF assms(1)] movesD(4) [OF assms(1)] assms(3,4)])

text \<open>A voter whose log is not more up to date than the candidate's backs it.\<close>

lemma voter_backs:
  assumes "history L T" and "follows L (log n)" and "log_wf (log n)" and "acks_kept L T A v n"
    and "log_wf (log m)" and "get_last_log_info m = (x, y)" and "log_up_to_date x y n"
    and "current_term n \<le> s" and "s \<notin> T"
  shows "backs L T A s v (log m)"
  unfolding backs_def
proof (intro allI impI)
  fix t i assume a: "A t v i" "t < s" "own_entry L t i"
  have i: "1 \<le> i" "i \<le> length (L t)" "le_term (L t ! (i - 1)) = t" using a(3) by (simp_all add: own_entry_def)
  show "covers (log m) t i \<or> (\<exists>s'<s. misses L T t i s')"
  proof (cases "prefix (take i (L t)) (log n)")
    case True
    then obtain zs where n: "log n = take i (L t) @ zs" by (auto elim: prefixE)
    then have len: "i \<le> length (log n)" "log n ! (i - 1) = L t ! (i - 1)" using i by (auto simp: nth_append)
    then have ne: "log n \<noteq> []" using i(1) by auto
    have "t \<le> le_term (last (log n))"
      using sorted_nth_mono [OF follows_sorted [OF assms(1,2)], of "i - 1" "length (log n) - 1"] len i ne
      by (simp add: last_conv_nth)
    moreover have wf: "le_index (last (log n)) = length (log n)" "log m \<noteq> [] \<Longrightarrow> le_index (last (log m)) = length (log m)"
      using assms(3,5) ne by (auto simp: last_conv_nth indexed_from_def)
    have "log m \<noteq> [] \<and> (le_term (last (log n)) < le_term (last (log m)) \<or>
        le_term (last (log m)) = le_term (last (log n)) \<and> length (log n) \<le> length (log m))"
      using assms(6,7) ne wf by (auto simp: get_last_log_info_def log_up_to_date_def split: if_splits)
    ultimately have "covers (log m) t i" using len(1) by (auto simp: covers_def)
    then show ?thesis by blast
  next
    case False
    then obtain s' where "s' \<le> current_term n" "misses L T t i s'" using assms(4) a(1) by (auto simp: acks_kept_def)
    moreover from this have "s' \<noteq> s" using assms(9) by (auto simp: misses_def)
    ultimately show ?thesis using assms(8) by (metis le_neq_implies_less order.trans)
  qed
qed

end
