(* ===== verification/Replication_Inv.thy ===== *)
theory Replication_Inv
  imports Replication
begin

text \<open>
  Every step of a replicating cluster keeps the invariant of \<open>Replication\<close>: steps that leave the
  logs alone, elections among them; appends that leaders send and followers answer; proposals;
  acknowledgements, with which leaders commit; votes on transactions, which may raise a commit index.
\<close>

lemma replication_invD:
  assumes "replication_inv V M (k, ms, R, E) L T"
  shows "cluster_inv V M k" and "one_log_per_term M (k, ms) L" and "history L T" and "terms_led M k T"
    and "leaders_backed M k L T (acks_of M k R L T)" and "candidates_backed M k L T (acks_of M k R L T)"
    and "members_hold M k L T (acks_of M k R L T)" and "\<forall>c \<in> set M. leader_knows R (nodes k c)"
    and "args \<in> ms \<Longrightarrow> sent_ok M L T (acks_of M k R L T) args" and "(p, args) \<in> R \<Longrightarrow> args \<in> ms"
    and "cleared_ok M L T (acks_of M k R L T) E"
  using assms by (auto simp: replication_inv_def Let_def)

lemma one_log_per_termD:
  assumes "one_log_per_term M (k, ms) L" and "a \<in> set M"
  shows "follows L (log (nodes k a))" and "log_wf (log (nodes k a))"
    and "won M k a (current_term (nodes k a)) \<Longrightarrow> L (current_term (nodes k a)) = log (nodes k a)"
  using assms by (simp_all add: one_log_per_term_def)

lemma members_holdD:
  assumes "members_hold M k L T A" and "p \<in> set M"
  shows "e \<in> set (log (nodes k p)) \<Longrightarrow> le_term e \<le> current_term (nodes k p)"
    and "e \<in> set (log (nodes k p)) \<Longrightarrow> le_term e \<in> T"
    and "acks_kept L T A p (nodes k p)"
    and "justified M L T A (current_term (nodes k p)) (commit_index (nodes k p)) (log (nodes k p))"
    and "current_config (nodes k p) = Simple (server p # map server (filter (\<lambda>a. a \<noteq> p) M))"
  using assms by (simp_all add: members_hold_def)

section \<open>Steps that leave the logs alone\<close>

abbreviation led_terms :: "string list \<Rightarrow> ('b, 'w, 'c) cluster \<Rightarrow> ('b, 'w, 'c) cluster \<Rightarrow> nat set \<Rightarrow> nat set" where
  "led_terms M k k' T \<equiv> T \<union> {t. \<exists>c. wins_now M k k' c t}"

lemma wins_now_fresh:
  assumes "cluster_step V M b k k'" and "b" and "cluster_inv V M k" and "terms_led M k T" and "wins_now M k k' c t"
  shows "t \<notin> T"
proof
  assume "t \<in> T"
  then obtain d where d: "won M k d t" using assms(4) by (auto simp: terms_led_def)
  then have "won M k' d t" by (rule cluster_step_won [OF assms(1-3)])
  then have "d = c" using assms(5) won_unique [OF cluster_step_inv [OF assms(1-3)]] by (auto simp: wins_now_def)
  then show False using d assms(5) by (simp add: wins_now_def)
qed

lemma led_logs_T:
  assumes "cluster_step V M b k k'" and "b" and "cluster_inv V M k" and "terms_led M k T" and "t \<in> T"
  shows "led_logs M k k' L t = L t"
  using assms(4,5) led_logs_old [OF assms(1-3)] by (auto simp: terms_led_def)

lemma quiet_moves:
  assumes "cluster_step V M b k k'" and "b" and "replication_inv V M (k, ms, R, E) L T"
  defines "L' \<equiv> led_logs M k k' L" and "T' \<equiv> led_terms M k k' T"
  shows "moves M k L T (acks_of M k R L T) k' L' T' (acks_of M k' R L' T')"
proof -
  note inv = replication_invD [OF assms(3)]
  note won' = cluster_step_won [OF assms(1,2) inv(1)]
  have inv': "cluster_inv V M k'" by (rule cluster_step_inv [OF assms(1,2) inv(1)])
  have old: "L' t = L t" if "t \<in> T" for t unfolding L'_def by (rule led_logs_T [OF assms(1,2) inv(1,4) that])
  have "acks_of M k R L T t p i \<or> t = current_term (nodes k' p) \<and> prefix (take i (L' t)) (log (nodes k' p))"
    if a: "acks_of M k' R L' T' t p i" for t p i
  proof (cases "t \<in> T")
    case True
    then obtain d where d: "won M k d t" using inv(4) by (auto simp: terms_led_def)
    have "won M k p t" if "won M k' p t" using won_unique [OF inv' that won' [OF d]] d by simp
    then show ?thesis using a True old by (auto simp: acks_of_def)
  next
    case False
    then obtain c where c: "wins_now M k k' c t" using a by (auto simp: acks_of_def T'_def)
    have "\<not> (p, args) \<in> R" if "ae_term args = t" for args
      using False that inv(10) [of p args] inv(9) [of args] by (auto simp: sent_ok_def)
    then have "won M k' p t" using a by (auto simp: acks_of_def)
    then have "p = c" using c won_unique [OF inv'] by (auto simp: wins_now_def)
    then show ?thesis using c led_logs_new [OF inv' c, of L] by (simp add: L'_def wins_now_def take_is_prefix)
  qed
  moreover have "grows L T L' T'" using old by (auto simp: grows_def T'_def)
  moreover have "acks_of M k' R L' T' t p i" if "acks_of M k R L T t p i" for t p i
    using that old won' by (auto simp: acks_of_def T'_def)
  moreover have "current_term (nodes k p) \<le> current_term (nodes k' p)" for p
    using cluster_step_vote_le [OF assms(1,2) inv(1), of p] by (auto simp: vote_le_def)
  ultimately show ?thesis unfolding moves_def by blast
qed

lemma quiet_history:
  assumes "cluster_step V M b k k'" and "b" and "replication_inv V M (k, ms, R, E) L T"
    and "\<forall>a \<in> set M. log (nodes k' a) = log (nodes k a)"
  shows "history (led_logs M k k' L) (led_terms M k k' T)"
proof -
  note inv = replication_invD [OF assms(3)]
  let ?L = "led_logs M k k' L"
  have inv': "cluster_inv V M k'" by (rule cluster_step_inv [OF assms(1,2) inv(1)])
  have one': "one_log_per_term M (k', ms) ?L" by (rule quiet_keeps [OF assms(1,2) inv(1) assms(4) inv(2)])
  have old: "?L t = L t" if "t \<in> T" for t by (rule led_logs_T [OF assms(1,2) inv(1,4) that])
  have fol: "follows ?L l" if "follows L l" for l
    using that by (rule follows_cong) (use historyD(1) [OF inv(3)] old in blast)
  have "(t \<notin> led_terms M k k' T \<longrightarrow> ?L t = []) \<and> follows ?L (?L t) \<and> log_wf (?L t) \<and> sorted (map le_term (?L t)) \<and>
      (\<forall>e \<in> set (?L t). le_term e \<le> t \<and> le_term e \<in> led_terms M k k' T)" for t
  proof (cases "\<exists>c. wins_now M k k' c t")
    case True
    then obtain c where c: "wins_now M k k' c t" by blast
    then have cM: "c \<in> set M" using won_current(2) [OF inv'] by (auto simp: wins_now_def)
    have L: "?L t = log (nodes k c)" using led_logs_new [OF inv' c] assms(4) cM by simp
    have f: "follows L (log (nodes k c))" "log_wf (log (nodes k c))" by (rule one_log_per_termD [OF inv(2) cM])+
    have "le_term e \<le> t" "le_term e \<in> T" if "e \<in> set (log (nodes k c))" for e
      using members_holdD(1,2) [OF inv(7) cM that] c movesD(4) [OF quiet_moves [OF assms(1-3)], of c] by (auto simp: wins_now_def)
    then show ?thesis using f fol follows_sorted [OF inv(3)] True unfolding L by auto
  next
    case False
    then have "?L t = L t" by (simp add: led_logs_def)
    then show ?thesis using historyD [OF inv(3), where t = t] fol by auto
  qed
  then show ?thesis by (simp add: history_def)
qed

lemma log_up_to_date_self: "get_last_log_info n = (x, y) \<Longrightarrow> log_up_to_date x y n"
  by (simp add: log_up_to_date_def)

lemma granted_up_to_date:
  "vote_granted (fst (handle_request_vote V now args n)) \<Longrightarrow>
    current_term n \<le> rv_term args \<and> log_up_to_date (rv_last_log_index args) (rv_last_log_term args) n"
  by (auto simp: handle_request_vote_eq grants_vote_def split: if_splits)

text \<open>New votes are given by nodes that back the candidate.\<close>

lemma pending_request:
  assumes "replication_inv V M (k, ms, R, E) L T" and "c \<in> set M" and "s \<notin> T" and "current_term (nodes k c) \<le> s"
    and "tasks k (c, s, u) = Some (Sent args)"
  shows "(rv_last_log_index args, rv_last_log_term args) = get_last_log_info (nodes k c)" and "rv_term args = s"
proof -
  note inv = replication_invD [OF assms(1)]
  have "current_term (nodes k c) = s" using task_current [OF inv(1) assms(5)] assms(4) by simp
  then show "(rv_last_log_index args, rv_last_log_term args) = get_last_log_info (nodes k c)"
    using inv(6) assms(2,3,5) unfolding candidates_backed_def by blast
  show "rv_term args = s" using assms(5) inv(1) by (auto simp: cluster_inv_def tasks_ok_def)
qed

lemma quiet_requests:
  assumes "cluster_step V M b k k'" and "b" and "replication_inv V M (k, ms, R, E) L T"
    and "\<forall>a \<in> set M. log (nodes k' a) = log (nodes k a)" and "c \<in> set M" and "current_term (nodes k' c) \<notin> T"
    and "tasks k' (c, current_term (nodes k' c), v) = Some (Sent args)"
  shows "(rv_last_log_index args, rv_last_log_term args) = get_last_log_info (nodes k' c)"
proof -
  have info: "get_last_log_info (nodes k' c) = get_last_log_info (nodes k c)" using assms(4,5) by (blast intro: get_last_log_info_cong)
  show ?thesis
  proof (cases "tasks k (c, current_term (nodes k' c), v) = Some (Sent args)")
    case True
    then show ?thesis using pending_request(1) [OF assms(3,5,6) movesD(4) [OF quiet_moves [OF assms(1-3)]]] info by simp
  next
    case False
    then have "new_request k c (current_term (nodes k' c)) args"
      using cluster_step_votes [OF assms(1) replication_invD(1) [OF assms(3)]] assms(7) by blast
    then show ?thesis by (simp add: new_request_def info)
  qed
qed

lemma quiet_votes:
  assumes "cluster_step V M b k k'" and "b" and "replication_inv V M (k, ms, R, E) L T"
    and "\<forall>a \<in> set M. log (nodes k' a) = log (nodes k a)" and "c \<in> set M" and "current_term (nodes k' c) \<notin> T"
    and "voted k' c (current_term (nodes k' c)) v"
  shows "backs L T (acks_of M k R L T) (current_term (nodes k' c)) v (log (nodes k' c))"
proof -
  note inv = replication_invD [OF assms(3)]
  let ?s = "current_term (nodes k' c)"
  have lg: "log (nodes k' c) = log (nodes k c)" using assms(4,5) by blast
  have up: "current_term (nodes k c) \<le> ?s" by (rule movesD(4) [OF quiet_moves [OF assms(1-3)]])
  have cast: "backs L T (acks_of M k R L T) ?s u (log (nodes k c))"
    if "u \<in> set M" "get_last_log_info (nodes k c) = (x, y)" "log_up_to_date x y (nodes k u)" "current_term (nodes k u) \<le> ?s" for u x y
    by (rule voter_backs [OF inv(3) one_log_per_termD(1,2) [OF inv(2) that(1)] members_holdD(3) [OF inv(7) that(1)]
          one_log_per_termD(2) [OF inv(2) assms(5)] that(2-4) assms(6)])
  show ?thesis
  proof (cases "voted k c ?s v")
    case True
    then have "current_term (nodes k c) = ?s" using voted_current(1) [OF inv(1)] up by force
    then show ?thesis using inv(6) assms(5,6) True unfolding candidates_backed_def lg by metis
  next
    case False
    then have "new_vote V M k c ?s v" using cluster_step_votes [OF assms(1) inv(1)] assms(7) by blast
    then consider "v = c" | (sent) args now where "tasks k (c, ?s, v) = Some (Sent args)" "v \<in> set M"
        "vote_granted (fst (handle_request_vote V now args (nodes k v)))"
      unfolding new_vote_def by blast
    then show ?thesis
    proof cases
      case 1
      then show ?thesis using cast [OF assms(5)] log_up_to_date_self up unfolding lg by (metis surj_pair)
    next
      case sent
      note r = pending_request [OF assms(3,5,6) up sent(1)]
      show ?thesis using cast [OF sent(2) r(1) [symmetric]] r(2) granted_up_to_date [OF sent(3)] unfolding lg by simp
    qed
  qed
qed

lemma elected_log_all: "(\<And>e. e \<in> set (L s) \<Longrightarrow> le_term e < s) \<Longrightarrow> elected_log L s = L s"
  by (simp add: elected_log_def)

lemma quiet_leaders_backed:
  assumes "cluster_step V M b k k'" and "b" and "replication_inv V M (k, ms, R, E) L T"
    and "\<forall>a \<in> set M. log (nodes k' a) = log (nodes k a)"
  defines "L' \<equiv> led_logs M k k' L" and "T' \<equiv> led_terms M k k' T"
  shows "leaders_backed M k' L' T' (acks_of M k' R L' T')"
  unfolding leaders_backed_def
proof
  fix s assume s: "s \<in> T'"
  note inv = replication_invD [OF assms(3)]
  let ?A' = "acks_of M k' R L' T'"
  note mv = quiet_moves [OF assms(1-3), folded L'_def T'_def]
  show "is_majority M {p. s \<le> current_term (nodes k' p) \<and> backs L' T' ?A' s p (elected_log L' s)}"
  proof (cases "s \<in> T")
    case True
    then show ?thesis by (rule moves_leaders_backed [OF mv inv(3) acks_of_ok inv(5)])
  next
    case False
    then obtain c where c: "wins_now M k k' c s" using s by (auto simp: T'_def)
    have inv': "cluster_inv V M k'" by (rule cluster_step_inv [OF assms(1,2) inv(1)])
    have w: "won M k' c s" "current_term (nodes k' c) = s" using c by (simp_all add: wins_now_def)
    have cM: "c \<in> set M" by (rule won_current(2) [OF inv' w(1)])
    have L: "L' s = log (nodes k' c)" unfolding L'_def by (rule led_logs_new [OF inv' c])
    have "le_term e < s" if "e \<in> set (L' s)" for e
    proof -
      have "le_term e \<le> s" "le_term e \<in> T" using members_holdD(1,2) [OF inv(7) cM] that L assms(4) cM movesD(4) [OF mv, of c] w(2) by fastforce+
      then show ?thesis using False by (metis le_neq_implies_less)
    qed
    then have e: "elected_log L' s = log (nodes k' c)" using elected_log_all [of L' s] L by simp
    have "s \<le> current_term (nodes k' p) \<and> backs L' T' ?A' s p (log (nodes k' c))" if v: "voted k' c s p" for p
    proof -
      have "s \<le> current_term (nodes k' p)" by (rule voted_current(2) [OF inv' v])
      moreover have "backs L T (acks_of M k R L T) s p (log (nodes k' c))"
        using quiet_votes [OF assms(1-4) cM] False v w(2) by simp
      ultimately show ?thesis using moves_backs [OF mv inv(3) acks_of_ok] by blast
    qed
    then show ?thesis using won_majority [OF inv' w(1)] unfolding e by (auto intro: is_majority_mono)
  qed
qed

lemma quiet_candidates_backed:
  assumes "cluster_step V M b k k'" and "b" and "replication_inv V M (k, ms, R, E) L T"
    and "\<forall>a \<in> set M. log (nodes k' a) = log (nodes k a)"
  defines "L' \<equiv> led_logs M k k' L" and "T' \<equiv> led_terms M k k' T"
  shows "candidates_backed M k' L' T' (acks_of M k' R L' T')"
  unfolding candidates_backed_def
proof (intro ballI allI impI)
  fix c v
  note inv = replication_invD [OF assms(3)]
  note mv = quiet_moves [OF assms(1-3), folded L'_def T'_def]
  let ?s = "current_term (nodes k' c)"
  assume c: "c \<in> set M" "?s \<notin> T'"
  then have sT: "?s \<notin> T" by (simp add: T'_def)
  note q = quiet_votes [OF assms(1-4) c(1) sT] quiet_requests [OF assms(1-4) c(1) sT]
  have inv': "cluster_inv V M k'" by (rule cluster_step_inv [OF assms(1,2) inv(1)])
  have "backs L' T' (acks_of M k' R L' T') ?s v (log (nodes k' c))" if "voted k' c ?s v"
    by (rule moves_backs [OF mv inv(3) acks_of_ok q(1) [OF that] voted_current(2) [OF inv' that]])
  then show "(voted k' c ?s v \<longrightarrow> backs L' T' (acks_of M k' R L' T') ?s v (log (nodes k' c))) \<and>
    (\<forall>args. tasks k' (c, ?s, v) = Some (Sent args) \<longrightarrow>
        (rv_last_log_index args, rv_last_log_term args) = get_last_log_info (nodes k' c))"
    using q(2) by blast
qed

lemma quiet_terms_led:
  assumes "cluster_step V M b k k'" and "b" and "replication_inv V M (k, ms, R, E) L T"
  shows "terms_led M k' (led_terms M k k' T)"
proof -
  note inv = replication_invD [OF assms(3)]
  have "current_term (nodes k' c) \<in> led_terms M k k' T" if w: "won M k' c (current_term (nodes k' c))" for c
  proof (cases "won M k c (current_term (nodes k' c))")
    case True
    then have "current_term (nodes k' c) = current_term (nodes k c)"
      using won_current(1) [OF inv(1)] movesD(4) [OF quiet_moves [OF assms(1-3)], of c] by force
    then show ?thesis using True inv(4) by (auto simp: terms_led_def)
  next
    case False
    then show ?thesis using w by (auto simp: wins_now_def)
  qed
  moreover have "\<exists>c. won M k' c t" if "t \<in> led_terms M k k' T" for t
    using that inv(4) cluster_step_won [OF assms(1,2) inv(1)] unfolding terms_led_def wins_now_def by blast
  ultimately show ?thesis by (simp add: terms_led_def)
qed

lemma quiet_members_hold:
  assumes "cluster_step V M b k k'" and "b" and "replication_inv V M (k, ms, R, E) L T"
    and "\<forall>a \<in> set M. undisturbed (nodes k a) (nodes k' a)"
  defines "L' \<equiv> led_logs M k k' L" and "T' \<equiv> led_terms M k k' T"
  shows "members_hold M k' L' T' (acks_of M k' R L' T')"
  unfolding members_hold_def
proof (intro ballI conjI)
  fix p assume p: "p \<in> set M"
  note inv = replication_invD [OF assms(3)]
  note mv = quiet_moves [OF assms(1-3), folded L'_def T'_def]
  note old = members_holdD [OF inv(7) p]
  have lg: "log (nodes k' p) = log (nodes k p)" and ci: "commit_index (nodes k' p) \<le> commit_index (nodes k p)"
    and cfg: "current_config (nodes k' p) = current_config (nodes k p)"
    using assms(4) p by (simp_all add: undisturbed_def)
  show "acks_kept L' T' (acks_of M k' R L' T') p (nodes k' p)"
    by (rule moves_acks_kept [OF mv inv(3) acks_of_ok old(3)]) (simp add: lg)
  show "justified M L' T' (acks_of M k' R L' T') (current_term (nodes k' p)) (commit_index (nodes k' p)) (log (nodes k' p))"
    by (rule moves_justified [OF mv old(4) ci]) (simp add: lg take_is_prefix)
  show "current_config (nodes k' p) = Simple (server p # map server (filter (\<lambda>a. a \<noteq> p) M))" using cfg old(5) by simp
  fix e assume e: "e \<in> set (log (nodes k' p))"
  show "le_term e \<le> current_term (nodes k' p)" using old(1) [of e] e movesD(4) [OF mv, of p] by (simp add: lg)
  show "le_term e \<in> T'" using old(2) [of e] e by (simp add: lg T'_def)
qed

lemma quiet_leader_knows:
  assumes "cluster_step V M b k k'" and "cluster_inv V M k" and "c \<in> set M" and "leader_knows R (nodes k c)"
    and "undisturbed (nodes k c) (nodes k' c)"
  shows "leader_knows R (nodes k' c)"
proof (cases "state (nodes k' c) = Leader")
  case True
  from cluster_step_leader [OF assms(1-3) True] show ?thesis
  proof (elim disjE conjE exE)
    assume "state (nodes k c) = Leader" "current_term (nodes k' c) = current_term (nodes k c)"
    then show ?thesis using assms(4,5) True by (simp add: leader_knows_def undisturbed_def)
  next
    fix now assume n: "state (nodes k c) \<noteq> Leader" "nodes k' c = become_leader now (nodes k c)"
    then have "next_index (nodes k' c) p = Some i \<Longrightarrow> i = length (log (nodes k' c)) + 1" for p i
      by (auto simp: become_leader_def dest!: map_of_SomeD)
    moreover have "match_index (nodes k' c) = Map.empty" using n(1) True assms(5) by (simp add: undisturbed_def)
    ultimately show ?thesis by (simp add: leader_knows_def)
  qed
qed (simp add: leader_knows_def)

lemma quiet_inv:
  assumes "cluster_step V M b k k'" and "b" and "replication_inv V M (k, ms, R, E) L T"
    and "\<forall>a \<in> set M. undisturbed (nodes k a) (nodes k' a)"
  shows "replication_inv V M (k', ms, R, E) (led_logs M k k' L) (led_terms M k k' T)"
proof -
  note inv = replication_invD [OF assms(3)]
  have lg: "\<forall>a \<in> set M. log (nodes k' a) = log (nodes k a)" using assms(4) by (simp add: undisturbed_def)
  have "\<forall>c \<in> set M. leader_knows R (nodes k' c)" using quiet_leader_knows [OF assms(1) inv(1)] inv(8) assms(4) by blast
  moreover have "\<forall>args \<in> ms. sent_ok M (led_logs M k k' L) (led_terms M k k' T)
      (acks_of M k' R (led_logs M k k' L) (led_terms M k k' T)) args"
    using moves_sent [OF quiet_moves [OF assms(1-3)]] inv(9) by blast
  ultimately show ?thesis
    unfolding replication_inv_def Let_def prod.case
    using cluster_step_inv [OF assms(1,2) inv(1)] quiet_keeps [OF assms(1,2) inv(1) lg inv(2)]
      quiet_history [OF assms(1-3) lg] quiet_terms_led [OF assms(1-3)] quiet_leaders_backed [OF assms(1-3) lg]
      quiet_candidates_backed [OF assms(1-3) lg] quiet_members_hold [OF assms(1-4)] inv(10)
      moves_cleared [OF quiet_moves [OF assms(1-3)] acks_of_ok inv(11)]
    by blast
qed

section \<open>A leader sends\<close>

text \<open>The commit index of the view was within the log of the view, and so within what an append without
  entries vouches for.\<close>

lemma send_sent_ok:
  assumes "replication_inv V M (k, ms, R, E) L T" and "c \<in> set M" and "still_leading v (nodes k c)"
    and "append_args_at v (nodes k c) p = Some args"
  shows "sent_ok M L T (acks_of M k R L T) args"
proof -
  note inv = replication_invD [OF assms(1)]
  let ?n = "nodes k c"
  have st: "state ?n = Leader" using assms(3) by (simp add: still_leading_def)
  have w: "won M k c (current_term ?n)" by (rule leader_won [OF inv(1) assms(2) st])
  have t: "current_term ?n \<in> T" using w inv(4) by (simp add: terms_led_def)
  have L: "L (current_term ?n) = log ?n" by (rule one_log_per_termD(3) [OF inv(2) assms(2) w])
  define nx where "nx = (case next_index ?n p of None \<Rightarrow> 1 | Some i \<Rightarrow> i)"
  have n0: "next_index ?n p \<noteq> Some 0" using inv(1) assms(2) node_invD(4) by (auto simp: cluster_inv_def members_ok_def)
  note a = append_args_leading [OF assms(3,4) n0, folded nx_def]
  have nx: "nx \<le> length (log ?n) + 1"
    using inv(8) assms(2) st by (auto simp: nx_def leader_knows_def split: option.splits)
  define l where "l = (if nx \<le> view_len v then log ?n else take (nx - 1) (log ?n))"
  have vc: "view_commit v \<le> view_len v" "view_commit v \<le> commit_index ?n" "view_len v \<le> length (log ?n)"
    using assms(3) by (simp_all add: still_leading_def)
  have len: "view_commit v \<le> length l" using vc nx by (auto simp: l_def)
  have lp: "prefix l (log ?n)" by (simp add: l_def take_is_prefix)
  have "take (view_commit v) l = take (view_commit v) (log ?n)" using lp len by (auto elim!: prefixE)
  then have "prefix (take (view_commit v) (log ?n)) l" by (metis take_is_prefix)
  moreover have "justified M L T (acks_of M k R L T) (current_term ?n) (view_commit v) (log ?n)"
    by (rule grows_justified [OF grows_refl members_holdD(4) [OF inv(7) assms(2)] _ _ vc(2)]) (simp_all add: take_is_prefix)
  ultimately have j: "justified M L T (acks_of M k R L T) (current_term ?n) (view_commit v) l"
    using grows_justified [OF grows_refl] by blast
  show ?thesis
    by (rule sent_okI [where l = l]) (use a t L nx j lp in \<open>auto simp: l_def\<close>)
qed

lemma send_inv:
  assumes "replication_inv V M (k, ms, R, E) L T" and "c \<in> set M" and "still_leading v (nodes k c)"
    and "append_args_at v (nodes k c) p = Some args"
  shows "replication_inv V M (k, insert args ms, R, E) L T"
proof -
  note inv = replication_invD [OF assms(1)]
  have "one_log_per_term M (k, insert args ms) L" by (rule send_keeps [OF inv(1) assms(2,3) inv(2) assms(4)])
  then show ?thesis using assms(1) send_sent_ok [OF assms] by (auto simp: replication_inv_def Let_def)
qed

section \<open>Steps of one node\<close>

text \<open>What remains to be shown when only the node of \<open>v\<close> changes and no election is decided.\<close>

lemma won_with_node [simp]: "won M (with_node k v n) = won M k"
  by (simp add: won_def fun_eq_iff)

lemma voted_with_node [simp]: "voted (with_node k v n) = voted k"
  by (simp add: voted_def fun_eq_iff)

lemma leader_knows_mono: "leader_knows R n \<Longrightarrow> R \<subseteq> R' \<Longrightarrow> leader_knows R' n"
  unfolding leader_knows_def by blast

lemma one_node_candidates:
  assumes "replication_inv V M (k, ms, R, E) L T" and "cluster_inv V M (with_node k v n)"
    and "moves M k L T (acks_of M k R L T) (with_node k v n) L' T A'"
    and "current_term n \<in> T \<or> log n = log (nodes k v)"
  shows "candidates_backed M (with_node k v n) L' T A'"
  unfolding candidates_backed_def
proof (intro ballI allI impI)
  fix c u
  note inv = replication_invD [OF assms(1)]
  let ?k = "with_node k v n"
  let ?s = "current_term (nodes ?k c)"
  assume c: "c \<in> set M" "?s \<notin> T"
  have lg: "log (nodes ?k c) = log (nodes k c)" using assms(4) c(2) by auto
  have eq: "current_term (nodes k c) = ?s" if "?s \<le> current_term (nodes k c)"
    using that movesD(4) [OF assms(3), of c] by simp
  have "backs L' T A' ?s u (log (nodes ?k c))" if v: "voted k c ?s u"
  proof -
    have "current_term (nodes k c) = ?s" by (rule eq [OF voted_current(1) [OF inv(1) v]])
    then have "backs L T (acks_of M k R L T) ?s u (log (nodes k c))"
      using inv(6) c v unfolding candidates_backed_def by metis
    moreover have "?s \<le> current_term (nodes ?k u)" using voted_current(2) [OF assms(2)] v by simp
    ultimately show ?thesis using moves_backs [OF assms(3) inv(3) acks_of_ok] lg by simp
  qed
  moreover have "(rv_last_log_index args, rv_last_log_term args) = get_last_log_info (nodes ?k c)"
    if t: "tasks k (c, ?s, u) = Some (Sent args)" for args
  proof -
    have "current_term (nodes k c) = ?s" by (rule eq [OF task_current [OF inv(1) t]])
    then have "(rv_last_log_index args, rv_last_log_term args) = get_last_log_info (nodes k c)"
      using inv(6) c t unfolding candidates_backed_def by metis
    then show ?thesis using get_last_log_info_cong [OF lg] by simp
  qed
  ultimately show "(voted ?k c ?s u \<longrightarrow> backs L' T A' ?s u (log (nodes ?k c))) \<and>
    (\<forall>args. tasks ?k (c, ?s, u) = Some (Sent args) \<longrightarrow>
        (rv_last_log_index args, rv_last_log_term args) = get_last_log_info (nodes ?k c))"
    by simp
qed

lemma one_node_inv:
  assumes inv: "replication_inv V M (k, ms, R, E) L T" and v: "v \<in> set M"
    and inv': "cluster_inv V M (with_node k v n)" and one: "one_log_per_term M (with_node k v n, ms) L'"
    and hist: "history L' T"
    and mv: "moves M k L T (acks_of M k R L T) (with_node k v n) L' T (acks_of M (with_node k v n) R' L' T)"
    and R': "R \<subseteq> R'" "\<And>p args. (p, args) \<in> R' \<Longrightarrow> args \<in> ms"
    and settled: "current_term n \<in> T \<or> log n = log (nodes k v)"
    and entries: "\<And>e. e \<in> set (log n) \<Longrightarrow> le_term e \<le> current_term n \<and> le_term e \<in> T"
    and held: "\<And>t i. acks_of M k R L T t v i \<Longrightarrow> prefix (take i (L t)) (log (nodes k v)) \<Longrightarrow>
      prefix (take i (L t)) (log n) \<or> misses L T t i (current_term n)"
    and commit: "justified M L' T (acks_of M (with_node k v n) R' L' T) (current_term n) (commit_index n) (log n)"
    and config: "current_config n = current_config (nodes k v)" and knows: "leader_knows R' n"
  shows "replication_inv V M (with_node k v n, ms, R', E) L' T"
proof -
  let ?k = "with_node k v n" and ?A' = "acks_of M (with_node k v n) R' L' T"
  note old = replication_invD [OF inv]
  have terms: "terms_led M ?k T"
  proof -
    have "current_term n \<in> T" if w: "won M k v (current_term n)"
    proof -
      have "current_term n = current_term (nodes k v)" using won_current(1) [OF old(1) w] movesD(4) [OF mv, of v] by simp
      then show ?thesis using w old(4) by (simp add: terms_led_def)
    qed
    then show ?thesis using old(4) by (auto simp: terms_led_def)
  qed
  have backed: "leaders_backed M ?k L' T ?A'"
    using moves_leaders_backed [OF mv old(3) acks_of_ok old(5)] by (simp add: leaders_backed_def)
  have members: "members_hold M ?k L' T ?A'"
    unfolding members_hold_def
  proof (intro ballI conjI)
    fix p assume p: "p \<in> set M"
    note mem = members_holdD [OF old(7) p]
    show "acks_kept L' T ?A' p (nodes ?k p)"
      by (rule moves_acks_kept [OF mv old(3) acks_of_ok mem(3)]) (use held in \<open>auto split: if_splits\<close>)
    show "justified M L' T ?A' (current_term (nodes ?k p)) (commit_index (nodes ?k p)) (log (nodes ?k p))"
    proof (cases "p = v")
      case False
      then show ?thesis using moves_justified [OF mv mem(4)] by (simp add: take_is_prefix)
    qed (simp add: commit)
    show "current_config (nodes ?k p) = Simple (server p # map server (filter (\<lambda>a. a \<noteq> p) M))"
      using mem(5) config by (cases "p = v") simp_all
    fix e assume "e \<in> set (log (nodes ?k p))"
    then show "le_term e \<le> current_term (nodes ?k p)" "le_term e \<in> T"
      using mem(1,2) [of e] entries [of e] by (cases "p = v"; simp)+
  qed
  have "\<forall>c \<in> set M. leader_knows R' (nodes ?k c)" using old(8) knows leader_knows_mono [OF _ R'(1)] by auto
  moreover have "\<forall>args \<in> ms. sent_ok M L' T ?A' args" using moves_sent [OF mv] old(9) by blast
  ultimately show ?thesis
    unfolding replication_inv_def Let_def prod.case
    using inv' one hist terms backed one_node_candidates [OF inv inv' mv settled] members R'(2)
      moves_cleared [OF mv acks_of_ok old(11)] by blast
qed

text \<open>A node that keeps its configuration keeps its peers.\<close>

lemma same_config_step:
  assumes "cluster_inv V M k" and "v \<in> set M" and "local_step V (nodes k v) n" and "current_config n = current_config (nodes k v)"
  shows "cluster_step V M True k (with_node k v n)" and "cluster_inv V M (with_node k v n)"
proof -
  have mem: "members_ok V M k" using assms(1) by (simp add: cluster_inv_def)
  then have v: "node_inv V (nodes k v)" "peers (nodes k v) \<noteq> []"
    using assms(2) peers_nonempty(1) [OF mem] by (simp_all add: members_ok_def)
  have "node_id n = node_id (nodes k v)" using no_promotion_local [OF assms(3) v(2)] by (simp add: no_promotion_def)
  moreover have "node_inv V n" by (rule node_inv_local [OF assms(3) v(1)])
  ultimately have "peers n = peers (nodes k v)" using node_invD(5) v(1) assms(4) by metis
  with assms(2,3) show s: "cluster_step V M True k (with_node k v n)" by (rule cluster_step.local)
  then show "cluster_inv V M (with_node k v n)" using cluster_step_inv assms(1) by blast
qed

section \<open>A follower answers an append\<close>

text \<open>The follower adopts the term of an append it does not refuse, ends with its old log or the leader's,
  and keeps what its log shares with the leader's.\<close>

lemma deliver_unchanged:
  assumes "handle_append_entries V now args n = (reply, m)" and "\<not> ar_success reply"
  shows "log m = log n" and "commit_index m = commit_index n"
  using assms by (auto simp: handle_append_entries_eq frame_simps split: if_splits)

lemma deliver_term:
  assumes "handle_append_entries V now args n = (reply, m)"
  shows "m = n \<and> \<not> ar_success reply \<or>
    current_term n \<le> ae_term args \<and> current_term m = ae_term args \<and> state m = Follower"
  using assms by (auto simp: handle_append_entries_eq ae_commit_def frame_simps split: if_splits)

lemma deliver_accepted:
  assumes "handle_append_entries V now args n = (reply, m)" and "ar_success reply"
    and "history L T" and "follows L (log n)" and "prefix l (L (ae_term args))" and "prev_log_index args \<le> length l"
    and "ae_entries args = drop (prev_log_index args) l"
    and "0 < prev_log_index args \<longrightarrow> le_term (l ! (prev_log_index args - 1)) = prev_log_term args"
  shows "prefix l (log m)" and "log m = log n \<or> log m = l"
    and "prefix x (log n) \<Longrightarrow> prefix x (L (ae_term args)) \<Longrightarrow> prefix x (log m)"
    and "commit_index m = (if commit_index n < leader_commit args then min (leader_commit args) (length (log m)) else commit_index n)"
proof -
  let ?p = "prev_log_index args"
  have acc: "ar_success (fst (handle_append_entries V now args n))" and m: "m = snd (handle_append_entries V now args n)"
    using assms(1,2) by simp_all
  have fl: "follows L l" by (rule follows_prefix [OF historyD(2) [OF assms(3)] assms(5)])
  have "log_wf l" by (rule log_wf_prefix [OF historyD(3) [OF assms(3)] assms(5)])
  from indexed_from_drop [OF this, of ?p] have ix: "indexed_from ?p (ae_entries args)" using assms(7) by simp
  have new: "log m = merge_log ?p (drop ?p l) (log n)" "?p \<le> length (log n)"
    using append_accepted_log [OF acc ix] assms(7) by (simp_all add: m)
  have mt: "log_matching (log n) l" using assms(4) fl by (rule follows_matching)
  have "take ?p (log n) = take ?p l"
  proof (cases ?p)
    case (Suc q)
    then have "le_term (log n ! q) = le_term (l ! q)"
      using append_accepted(1) [OF acc] assms(8) by (simp add: ae_accepts_def prev_matches_def)
    then show ?thesis using mt Suc new(2) assms(6) by (simp add: log_matching_def)
  qed simp
  from merge_log_cases [OF new(2) this assms(6) mt]
  have c: "log m = log n \<and> take (length l) (log n) = l \<or> log m = l" using new(1) by auto
  then show l: "prefix l (log m)" by (metis prefix_order.refl take_is_prefix)
  show "log m = log n \<or> log m = l" using c by blast
  show "prefix x (log m)" if x: "prefix x (log n)" "prefix x (L (ae_term args))"
    using prefix_same_cases [OF x(2) assms(5)]
  proof
    assume "prefix l x"
    then obtain rest where "log n = l @ rest" using x(1) by (metis prefixE prefix_order.trans)
    then have "log m = log n" using new(1) merge_log_prefix_same [OF assms(6)] by simp
    then show ?thesis using x(1) by simp
  qed (use l prefix_order.trans in blast)
  let ?f = "append_loop V (ae_entries args) (ae_follower V now args n)"
  have e: "m = ae_commit V args ?f" using append_accepted(2) [OF acc] by (simp add: m)
  then have "log m = log ?f" by (simp add: ae_commit_log frame_simps)
  then show "commit_index m = (if commit_index n < leader_commit args then min (leader_commit args) (length (log m)) else commit_index n)"
    using ae_commit_index [of V args ?f] e by (simp add: frame_simps)
qed

lemma deliver_moves:
  assumes "replication_inv V M (k, ms, R, E) L T" and "v \<in> set M" and "args \<in> ms"
    and "handle_append_entries V now args (nodes k v) = (reply, n)"
  defines "R' \<equiv> if ar_success reply then insert (v, args) R else R"
  shows "moves M k L T (acks_of M k R L T) (with_node k v n) L T (acks_of M (with_node k v n) R' L T)"
proof -
  note inv = replication_invD [OF assms(1)]
  have "acks_of M k R L T t p i \<or> t = current_term (nodes (with_node k v n) p) \<and> prefix (take i (L t)) (log (nodes (with_node k v n) p))"
    if a: "acks_of M (with_node k v n) R' L T t p i" for t p i
  proof (cases "acks_of M k R L T t p i")
    case False
    then have new: "p = v" "ar_success reply" "t = ae_term args" "i \<le> prev_log_index args + length (ae_entries args)"
      using a by (auto simp: acks_of_def R'_def split: if_splits)
    obtain l where l: "prefix l (L (ae_term args))" "prev_log_index args \<le> length l" "ae_entries args = drop (prev_log_index args) l"
        "0 < prev_log_index args \<longrightarrow> le_term (l ! (prev_log_index args - 1)) = prev_log_term args"
      using inv(9) [OF assms(3)] by (auto elim!: sent_okE)
    have "prefix l (log n)"
      by (rule deliver_accepted(1) [OF assms(4) new(2) inv(3) one_log_per_termD(1) [OF inv(2) assms(2)] l])
    moreover have "prefix (take i (L t)) l" using l(1-3) new(3,4) by (auto simp: take_is_prefix elim!: prefixE)
    ultimately have "prefix (take i (L t)) (log n)" using prefix_order.trans by blast
    then show ?thesis using deliver_term [OF assms(4)] new(1-3) by auto
  qed simp
  moreover have "acks_of M (with_node k v n) R' L T t p i" if "acks_of M k R L T t p i" for t p i
    using that by (auto simp: acks_of_def R'_def)
  moreover have "current_term (nodes k p) \<le> current_term (nodes (with_node k v n) p)" for p
    using deliver_term [OF assms(4)] by auto
  ultimately show ?thesis unfolding moves_def by auto
qed

text \<open>A follower never gives up what it calls committed: the leader of the append has it.\<close>

lemma deliver_committed:
  assumes "replication_inv V M (k, ms, R, E) L T" and "v \<in> set M" and "args \<in> ms"
    and "handle_append_entries V now args (nodes k v) = (reply, n)"
  shows "prefix (take (commit_index (nodes k v)) (log (nodes k v))) (log n)"
proof (cases "ar_success reply")
  case True
  let ?f = "nodes k v"
  note inv = replication_invD [OF assms(1)]
  obtain l where l: "ae_term args \<in> T" "prefix l (L (ae_term args))" "prev_log_index args \<le> length l"
      "ae_entries args = drop (prev_log_index args) l"
      "0 < prev_log_index args \<longrightarrow> le_term (l ! (prev_log_index args - 1)) = prev_log_term args"
    using inv(9) [OF assms(3)] by (auto elim!: sent_okE)
  have "current_term ?f \<le> ae_term args" using deliver_term [OF assms(4)] True by blast
  then have "prefix (take (commit_index ?f) (log ?f)) (L (ae_term args))"
    by (rule justified_led [OF inv(3) backed_elected [OF inv(5)] members_holdD(4) [OF inv(7) assms(2)] l(1)])
  then show ?thesis
    by (rule deliver_accepted(3) [OF assms(4) True inv(3) one_log_per_termD(1) [OF inv(2) assms(2)] l(2-5) take_is_prefix])
next
  case False
  then show ?thesis using deliver_unchanged(1) [OF assms(4)] by (simp add: take_is_prefix)
qed

lemma deliver_justified:
  assumes "replication_inv V M (k, ms, R, E) L T" and "v \<in> set M" and "args \<in> ms"
    and "handle_append_entries V now args (nodes k v) = (reply, n)"
  shows "justified M L T (acks_of M (with_node k v n) (if ar_success reply then insert (v, args) R else R) L T)
    (current_term n) (commit_index n) (log n)"
proof -
  let ?f = "nodes k v"
  note inv = replication_invD [OF assms(1)]
  note mv = deliver_moves [OF assms(1-4)]
  obtain l where l: "prefix l (L (ae_term args))" "prev_log_index args \<le> length l" "ae_entries args = drop (prev_log_index args) l"
      "0 < prev_log_index args \<longrightarrow> le_term (l ! (prev_log_index args - 1)) = prev_log_term args"
      "justified M L T (acks_of M k R L T) (ae_term args) (leader_commit args) l"
    by (rule sent_okE [OF inv(9) [OF assms(3)]])
  note acc = deliver_accepted [OF assms(4) _ inv(3) one_log_per_termD(1) [OF inv(2) assms(2)] l(1-4)]
  show ?thesis
  proof (cases "ar_success reply \<and> commit_index ?f < leader_commit args")
    case True
    have ln: "prefix l (log n)" using acc(1) True by blast
    have "leader_commit args \<le> length l" using l(5) by (simp add: justified_def)
    also have "\<dots> \<le> length (log n)" by (rule prefix_length_le [OF ln])
    finally have "commit_index n = leader_commit args" using acc(4) True by simp
    moreover have "prefix (take (leader_commit args) l) (log n)" using take_is_prefix ln by (rule prefix_order.trans)
    moreover have "current_term n = ae_term args" using deliver_term [OF assms(4)] True by blast
    ultimately show ?thesis using grows_justified [OF movesD(1) [OF mv] l(5) movesD(2) [OF mv]] by simp
  next
    case False
    then have "commit_index n = commit_index ?f" using acc(4) deliver_unchanged(2) [OF assms(4)] by (cases "ar_success reply") simp_all
    then show ?thesis
      using moves_justified [OF mv members_holdD(4) [OF inv(7) assms(2)]] deliver_committed [OF assms(1-4)] by simp
  qed
qed

text \<open>What the follower has acknowledged before is still there, or the leader of its new term misses it.\<close>

lemma deliver_held:
  assumes "replication_inv V M (k, ms, R, E) L T" and "v \<in> set M" and "args \<in> ms"
    and "handle_append_entries V now args (nodes k v) = (reply, n)" and "current_term (nodes k v) \<le> ae_term args" and "current_term n = ae_term args"
    and "acks_of M k R L T t v i" and "prefix (take i (L t)) (log (nodes k v))"
  shows "prefix (take i (L t)) (log n) \<or> misses L T t i (current_term n)"
proof (cases "prefix (take i (L t)) (L (ae_term args))")
  case True
  note inv = replication_invD [OF assms(1)]
  obtain l where l: "prefix l (L (ae_term args))" "prev_log_index args \<le> length l" "ae_entries args = drop (prev_log_index args) l"
      "0 < prev_log_index args \<longrightarrow> le_term (l ! (prev_log_index args - 1)) = prev_log_term args"
    by (rule sent_okE [OF inv(9) [OF assms(3)]])
  have "prefix (take i (L t)) (log n)" if "ar_success reply"
    by (rule deliver_accepted(3) [OF assms(4) that inv(3) one_log_per_termD(1) [OF inv(2) assms(2)] l assms(8) True])
  then show ?thesis using deliver_unchanged(1) [OF assms(4)] assms(8) by (cases "ar_success reply") simp_all
next
  case False
  note inv = replication_invD [OF assms(1)]
  have "t \<le> ae_term args" using members_holdD(3) [OF inv(7) assms(2)] assms(5,7) unfolding acks_kept_def by (meson order.trans)
  moreover have "t \<noteq> ae_term args" using False by (auto simp: take_is_prefix)
  moreover have "ae_term args \<in> T" using inv(9) [OF assms(3)] by (simp add: sent_ok_def)
  ultimately show ?thesis using False assms(6) by (simp add: misses_def)
qed

lemma deliver_inv:
  assumes "replication_inv V M (k, ms, R, E) L T" and "v \<in> set M" and "args \<in> ms"
    and "handle_append_entries V now args (nodes k v) = (reply, n)" and "current_config n = current_config (nodes k v)"
  shows "replication_inv V M (with_node k v n, ms, if ar_success reply then insert (v, args) R else R, E) L T"
proof (cases "n = nodes k v \<and> \<not> ar_success reply")
  case True
  then show ?thesis using assms(1) by simp
next
  case False
  let ?R = "if ar_success reply then insert (v, args) R else R" and ?u = "ae_term args" and ?f = "nodes k v"
  note inv = replication_invD [OF assms(1)]
  note mem = members_holdD [OF inv(7) assms(2)]
  have t: "current_term ?f \<le> ?u" "current_term n = ?u" "state n = Follower" using deliver_term [OF assms(4)] False by blast+
  obtain l where l: "?u \<in> T" "prefix l (L ?u)" "prev_log_index args \<le> length l" "ae_entries args = drop (prev_log_index args) l"
      "0 < prev_log_index args \<longrightarrow> le_term (l ! (prev_log_index args - 1)) = prev_log_term args"
    by (rule sent_okE [OF inv(9) [OF assms(3)]])
  have cases_log: "log n = log ?f \<or> log n = l"
    using deliver_accepted(2) [OF assms(4) _ inv(3) one_log_per_termD(1) [OF inv(2) assms(2)] l(2-5)] deliver_unchanged(1) [OF assms(4)] by blast
  have local: "local_step V ?f n" using local_step.append [of V ?f now args] assms(4) by simp
  show ?thesis
  proof (rule one_node_inv [OF assms(1,2) same_config_step(2) [OF inv(1) assms(2) local assms(5)] _ inv(3) deliver_moves [OF assms(1-4)]])
    show "one_log_per_term M (with_node k v n, ms) L"
      by (rule deliver_keeps [OF inv(1) assms(2,3) inv(2), where now = now]) (simp add: assms(4))
    show "a \<in> ms" if "(p, a) \<in> ?R" for p a using that inv(10) assms(3) by (auto split: if_splits)
    show "le_term e \<le> current_term n \<and> le_term e \<in> T" if e: "e \<in> set (log n)" for e
    proof (cases "log n = log ?f")
      case True
      then show ?thesis using mem(1,2) [of e] e t(1,2) by simp
    next
      case False
      then have "e \<in> set (L ?u)" using cases_log e set_mono_prefix [OF l(2)] by auto
      then show ?thesis using historyD(5,6) [OF inv(3)] t(2) by simp
    qed
    show "prefix (take i (L s)) (log n) \<or> misses L T s i (current_term n)"
      if "acks_of M k R L T s v i" "prefix (take i (L s)) (log ?f)" for s i
      by (rule deliver_held [OF assms(1-4) t(1,2) that])
    show "leader_knows ?R n" using t(3) by (simp add: leader_knows_def)
  qed (use t(2) l(1) assms(5) deliver_justified [OF assms(1-4)] in auto)
qed

section \<open>A leader extends its log and learns\<close>

lemma sorted_term_append:
  assumes "sorted (map le_term l)" and "\<And>e. e \<in> set l \<Longrightarrow> le_term e \<le> t" and "\<forall>e \<in> set es. le_term e = t"
  shows "sorted (map le_term (l @ es))"
proof -
  have "map le_term es = replicate (length es) t" using assms(3) by (simp add: map_replicate_const [symmetric])
  then show ?thesis using assms by (auto simp: sorted_append)
qed

lemma history_extend:
  assumes "history L T" and "t \<in> T" and "\<forall>e \<in> set es. le_term e = t" and "indexed_from (length (L t)) es"
  shows "history (L(t := L t @ es)) T"
proof -
  note h = historyD [OF assms(1)]
  have "follows (L(t := L t @ es)) (L s)" for s by (rule follows_extend [OF h(2)])
  moreover have "follows (L(t := L t @ es)) (L t @ es)" by (rule follows_own_extension [OF h(2) assms(3)])
  moreover have "log_wf (L t @ es)" using h(3) [of t] assms(4) by (simp add: indexed_from_append)
  moreover have "sorted (map le_term (L t @ es))" using h(4) h(5) assms(3) by (rule sorted_term_append)
  ultimately show ?thesis using h assms(2,3) by (auto simp: history_def)
qed

text \<open>What the leader of a term knows about the log of the term.\<close>

lemma leader_log:
  assumes "replication_inv V M (k, ms, R, E) L T" and "c \<in> set M" and "state (nodes k c) = Leader"
  shows "won M k c (current_term (nodes k c))" and "current_term (nodes k c) \<in> T"
    and "L (current_term (nodes k c)) = log (nodes k c)"
proof -
  note inv = replication_invD [OF assms(1)]
  show w: "won M k c (current_term (nodes k c))" by (rule leader_won [OF inv(1) assms(2,3)])
  show "current_term (nodes k c) \<in> T" using w inv(4) by (simp add: terms_led_def)
  show "L (current_term (nodes k c)) = log (nodes k c)" by (rule one_log_per_termD(3) [OF inv(2) assms(2) w])
qed

lemma acked_length:
  assumes "replication_inv V M (k, ms, R, E) L T" and "(p, args) \<in> R"
  shows "prev_log_index args + length (ae_entries args) \<le> length (L (ae_term args))"
proof -
  note inv = replication_invD [OF assms(1)]
  obtain l where "prefix l (L (ae_term args))" "prev_log_index args \<le> length l" "ae_entries args = drop (prev_log_index args) l"
    using inv(9) [OF inv(10) [OF assms(2)]] by (rule sent_okE)
  then show ?thesis using prefix_length_le by fastforce
qed

lemma extend_moves:
  assumes "replication_inv V M (k, ms, R, E) L T" and "c \<in> set M" and "state (nodes k c) = Leader" and "leader_append V (nodes k c) n"
  defines "L' \<equiv> L(current_term (nodes k c) := log n)"
  shows "moves M k L T (acks_of M k R L T) (with_node k c n) L' T (acks_of M (with_node k c n) R L' T)"
    and "history L' T" and "prefix (log (nodes k c)) (log n)"
    and "e \<in> set (log n) \<Longrightarrow> le_term e \<le> current_term n \<and> le_term e \<in> T"
proof -
  note inv = replication_invD [OF assms(1)]
  note ld = leader_log [OF assms(1-3)]
  let ?t = "current_term (nodes k c)"
  from leader_append_extends [OF assms(4)] obtain es where
    es: "log n = L ?t @ es" "indexed_from (length (L ?t)) es" "\<forall>e \<in> set es. le_term e = ?t"
    by (auto simp: extends_def ld(3))
  have same: "log n = log (nodes k c) \<or> current_term n = ?t" using leader_append_extends [OF assms(4)] by blast
  have "node_inv V (nodes k c)" using inv(1) assms(2) by (simp add: cluster_inv_def members_ok_def)
  then have up: "?t \<le> current_term n"
    using vote_le_local [OF leader_append_local [OF assms(4)]] by (auto simp: vote_le_def)
  show "history L' T" unfolding L'_def es(1) by (rule history_extend [OF inv(3) ld(2) es(3,2)])
  show "prefix (log (nodes k c)) (log n)" by (simp add: es(1) ld(3))
  have "acks_of M k R L T t p i \<or> t = current_term (nodes (with_node k c n) p) \<and> prefix (take i (L' t)) (log (nodes (with_node k c n) p))"
    if a: "acks_of M (with_node k c n) R L' T t p i" for t p i
  proof (cases "acks_of M k R L T t p i")
    case False
    have "i \<le> length (L t)" if "(p, args) \<in> R" "ae_term args = t" "i \<le> prev_log_index args + length (ae_entries args)" for args
      using acked_length [OF assms(1) that(1)] that(2,3) by simp
    then have w: "won M k p t" and t: "t = ?t" using a False by (auto simp: acks_of_def L'_def split: if_splits)
    then have p: "p = c" using won_unique [OF inv(1)] ld(1) by blast
    moreover have "log n \<noteq> log (nodes k c)" using a False w t ld(3) by (auto simp: acks_of_def L'_def)
    ultimately show ?thesis using same t by (simp add: L'_def take_is_prefix)
  qed simp
  moreover have "grows L T L' T" using es(1,3) by (auto simp: grows_def L'_def)
  moreover have "acks_of M (with_node k c n) R L' T t p i" if "acks_of M k R L T t p i" for t p i
    using that es(1) by (auto simp: acks_of_def L'_def)
  moreover have "current_term (nodes k p) \<le> current_term (nodes (with_node k c n) p)" for p using up by simp
  ultimately show "moves M k L T (acks_of M k R L T) (with_node k c n) L' T (acks_of M (with_node k c n) R L' T)"
    unfolding moves_def by blast
  show "le_term e \<le> current_term n \<and> le_term e \<in> T" if "e \<in> set (log n)"
    using that es(1,3) ld(2) up historyD(5,6) [OF inv(3), of e ?t] by fastforce
qed

lemma extend_inv:
  assumes "replication_inv V M (k, ms, R, E) L T" and "c \<in> set M" and "state (nodes k c) = Leader" and "leader_append V (nodes k c) n"
    and "current_config n = current_config (nodes k c)" and "leader_knows R n"
  defines "L' \<equiv> L(current_term (nodes k c) := log n)"
  assumes "commit_index n = commit_index (nodes k c) \<or>
    justified M L' T (acks_of M (with_node k c n) R L' T) (current_term n) (commit_index n) (log n)"
  shows "replication_inv V M (with_node k c n, ms, R, E) L' T"
proof -
  note inv = replication_invD [OF assms(1)]
  note ex = extend_moves [OF assms(1-4), folded L'_def]
  note local = leader_append_local [OF assms(4)]
  show ?thesis
  proof (rule one_node_inv [OF assms(1,2) same_config_step(2) [OF inv(1) assms(2) local assms(5)] _ ex(2,1) order_refl _ _ ex(4) _ _ assms(5,6)])
    show "one_log_per_term M (with_node k c n, ms) L'" unfolding L'_def by (rule extend_keeps [OF inv(1) assms(2-4) inv(2)])
    show "current_term n \<in> T \<or> log n = log (nodes k c)"
      using leader_append_extends [OF assms(4)] leader_log(2) [OF assms(1-3)] by auto
    show "prefix (take i (L t)) (log n) \<or> misses L T t i (current_term n)" if "prefix (take i (L t)) (log (nodes k c))" for t i
      using that ex(3) prefix_order.trans by blast
    have "justified M L' T (acks_of M (with_node k c n) R L' T) (current_term n) (commit_index n) (log n)"
      if "commit_index n = commit_index (nodes k c)"
      using moves_justified [OF ex(1) members_holdD(4) [OF inv(7) assms(2)]] that ex(3) prefix_order.trans take_is_prefix by force
    then show "justified M L' T (acks_of M (with_node k c n) R L' T) (current_term n) (commit_index n) (log n)"
      using assms(8) by blast
  qed (use inv(10) in auto)
qed

lemma append_entry_kept:
  "append_entry V e n = (r, m) \<Longrightarrow> commit_index m = commit_index n \<and> state m = state n \<and> current_term m = current_term n \<and>
    current_config m = current_config n \<and> next_index m = next_index n \<and> match_index m = match_index n"
  using append_entry_frame(1,3,4,8,10,11) [of V e n] by simp

lemma propose_loop_kept:
  "commit_index (snd (propose_loop V i cs n)) = commit_index n \<and> state (snd (propose_loop V i cs n)) = state n \<and>
   current_config (snd (propose_loop V i cs n)) = current_config n \<and>
   next_index (snd (propose_loop V i cs n)) = next_index n \<and> match_index (snd (propose_loop V i cs n)) = match_index n"
  by (induction V i cs n rule: propose_loop.induct) (auto split: prod.splits sum.splits dest!: append_entry_kept)

text \<open>A proposal changes the log and nothing else that counts for replication.\<close>

lemma proposal_kept:
  "proposal V n m \<Longrightarrow> commit_index m = commit_index n \<and> state m = state n \<and>
    current_config m = current_config n \<and> next_index m = next_index n \<and> match_index m = match_index n"
  by (induction rule: proposal.induct)
    (auto simp: propose_def propose_batch_def propose_add_node_def propose_remove_node_def propose_joint_def
      propose_abort_tx_def Let_def propose_loop_kept split: prod.splits sum.splits dest!: append_entry_kept)

lemma propose_inv:
  assumes "replication_inv V M (k, ms, R, E) L T" and "c \<in> set M" and "state (nodes k c) = Leader" and "proposal V (nodes k c) n"
  shows "replication_inv V M (with_node k c n, ms, R, E) (L(current_term (nodes k c) := log n)) T"
proof (rule extend_inv [OF assms(1-3) leader_append.proposing [OF assms(4)]])
  note kept = proposal_kept [OF assms(4)]
  have "leader_knows R (nodes k c)" using replication_invD(8) [OF assms(1)] assms(2) by blast
  moreover have "prefix (log (nodes k c)) (log n)" "current_term n = current_term (nodes k c)"
    using extend_moves(3) [OF assms(1-3) leader_append.proposing [OF assms(4)]] proposal_extends [OF assms(4)] by simp_all
  ultimately show "leader_knows R n" using kept prefix_length_le [of "log (nodes k c)" "log n"] by (fastforce simp: leader_knows_def)
qed (use proposal_kept [OF assms(4)] in auto)

text \<open>The quorum rule of a simple configuration counts a majority of the members.\<close>

lemma quorum_majority:
  assumes "distinct M" and "c \<in> set M" and "config_quorum_reached (Simple (server c # map server (filter (\<lambda>a. a \<noteq> c) M))) mi c len j"
  shows "is_majority M {p. j \<le> id_idx mi c len p}"
proof -
  have ids: "ids (server c # map server (filter (\<lambda>a. a \<noteq> c) M)) = c # filter (\<lambda>a. a \<noteq> c) M" by (simp add: server_def comp_def)
  then have "config_wf (Simple (server c # map server (filter (\<lambda>a. a \<noteq> c) M)))" using assms(1) by simp
  then have "is_majority (c # filter (\<lambda>a. a \<noteq> c) M) {p. j \<le> id_idx mi c len p}"
    using assms(3) ids by (simp add: quorum_reached_sets del: config_quorum_reached.simps)
  moreover have "set (c # filter (\<lambda>a. a \<noteq> c) M) = set M" using assms(2) by auto
  ultimately show ?thesis unfolding is_majority_def by metis
qed

text \<open>What the leader commits has been chosen.\<close>

lemma commit_chosen:
  assumes "replication_inv V M (k, ms, R, E) L T" and "c \<in> set M" and "state (nodes k c) = Leader"
    and "\<And>p i. mi p = Some i \<Longrightarrow> \<exists>args. (p, args) \<in> R \<and> ae_term args = current_term (nodes k c) \<and>
      i = prev_log_index args + length (ae_entries args)"
    and "config_quorum_reached (current_config (nodes k c)) mi c (length (log (nodes k c))) j" and "0 < j"
    and "j \<le> length (log (nodes k c))" and "le_term (log (nodes k c) ! (j - 1)) = current_term (nodes k c)"
  shows "chosen M L T (acks_of M k R L T) (current_term (nodes k c)) j"
proof -
  note inv = replication_invD [OF assms(1)]
  note ld = leader_log [OF assms(1-3)]
  let ?t = "current_term (nodes k c)" and ?len = "length (log (nodes k c))"
  have "distinct M" using inv(1) by (simp add: cluster_inv_def members_ok_def)
  then have "is_majority M {p. j \<le> id_idx mi c ?len p}"
    using quorum_majority assms(2,5) members_holdD(5) [OF inv(7) assms(2)] by simp
  moreover have "acks_of M k R L T ?t p j" if p: "j \<le> id_idx mi c ?len p" for p
  proof (cases "p = c")
    case True
    then show ?thesis using ld assms(7) by (simp add: acks_of_def)
  next
    case False
    then obtain i where i: "mi p = Some i" "j \<le> i" using p assms(6) by (auto simp: id_idx_def split: option.splits)
    then show ?thesis using assms(4) [OF i(1)] ld(2,3) assms(7) by (auto simp: acks_of_def)
  qed
  ultimately have "is_majority M {p. acks_of M k R L T ?t p j}" by (auto intro: is_majority_mono)
  then show ?thesis using ld(2,3) assms(6-8) by (simp add: chosen_def own_entry_def)
qed

text \<open>A leader that learns of an acknowledgement of its term knows what was acknowledged, and commits what was chosen.\<close>

lemma acknowledged_inv:
  assumes "replication_inv V M (k, ms, R, E) L T" and "c \<in> set M" and "state (nodes k c) = Leader"
    and "(p, args) \<in> R" and "ae_term args = current_term (nodes k c)" and "ar_success reply"
    and "n = append_reply_handler V now p args reply (nodes k c)" and "current_config n = current_config (nodes k c)"
  shows "replication_inv V M (with_node k c n, ms, R, E) (L(current_term (nodes k c) := log n)) T"
proof -
  note inv = replication_invD [OF assms(1)]
  let ?f = "nodes k c" and ?L = "L(current_term (nodes k c) := log n)" and ?i = "prev_log_index args + length (ae_entries args)"
  have la: "leader_append V ?f n" using leader_append.acknowledged assms(7) by simp
  note ex = extend_moves [OF assms(1-3) la]
  define m where "m = ?f\<lparr>match_index := (match_index ?f)(p \<mapsto> ?i), next_index := (next_index ?f)(p \<mapsto> ?i + 1),
      last_quorum_heartbeat_at := Some now\<rparr>"
  have n: "n = maybe_commit V m" using assms(6,7) by (simp add: append_reply_handler_def m_def Let_def)
  have "?i \<le> length (log ?f)" using acked_length [OF assms(1,4)] assms(5) leader_log(3) [OF assms(1-3)] by simp
  moreover have "leader_knows R ?f" using inv(8) assms(2) by blast
  ultimately have knm: "leader_knows R m" using assms(3-5) by (auto simp: leader_knows_def m_def)
  have "length (log m) \<le> length (log n)" using prefix_length_le [OF ex(3)] by (simp add: m_def)
  with knm have knn: "leader_knows R n" by (fastforce simp: leader_knows_def n frame_simps)
  have "commit_index n = commit_index ?f \<or>
    justified M ?L T (acks_of M (with_node k c n) R ?L T) (current_term n) (commit_index n) (log n)"
  proof (cases V m rule: maybe_commit_cases)
    case same
    then show ?thesis by (simp add: n m_def)
  next
    case (advance j)
    have "node_id ?f = c" using inv(1) assms(2) by (simp add: cluster_inv_def members_ok_def)
    then have j: "0 < j" "j \<le> length (log ?f)" "le_term (log ?f ! (j - 1)) = current_term ?f"
      "config_quorum_reached (current_config ?f) (match_index m) c (length (log ?f)) j"
      using advance(3-6) by (simp_all add: m_def)
    have "\<exists>args. (q, args) \<in> R \<and> ae_term args = current_term ?f \<and> i = prev_log_index args + length (ae_entries args)"
      if "match_index m q = Some i" for q i
      using knm that assms(3) by (simp add: leader_knows_def m_def)
    from commit_chosen [OF assms(1-3) this j(4,1,2,3)]
    have "chosen M ?L T (acks_of M (with_node k c n) R ?L T) (current_term ?f) j"
      using grows_chosen [OF movesD(1) [OF ex(1)]] movesD(2) [OF ex(1)] by blast
    moreover have "commit_index n = j" "current_term n = current_term ?f"
      using advance(1) by (simp_all add: n frame_simps) (simp add: m_def)
    moreover have "j \<le> length (log n)" using j(2) prefix_length_le [OF ex(3)] by simp
    ultimately show ?thesis by (intro disjI2 justifiedI [of _ _ _ _ "current_term ?f" j]) simp_all
  qed
  then show ?thesis by (rule extend_inv [OF assms(1-3) la assms(8) knn])
qed

lemma acknowledge_inv:
  assumes "replication_inv V M (k, ms, R, E) L T" and "c \<in> set M" and "state (nodes k c) = Leader"
    and "ar_success reply \<Longrightarrow> (p, args) \<in> R \<and> ae_term args = current_term (nodes k c)"
    and "n = append_reply_handler V now p args reply (nodes k c)" and "current_config n = current_config (nodes k c)"
  shows "replication_inv V M (with_node k c n, ms, R, E) (L(current_term (nodes k c) := log n)) T"
proof (cases "ar_success reply")
  case True
  then show ?thesis using acknowledged_inv [OF assms(1-3)] assms(4-6) by blast
next
  case False
  let ?f = "nodes k c"
  have la: "leader_append V ?f n" using leader_append.acknowledged assms(5) by simp
  have kn: "leader_knows R ?f" using replication_invD(8) [OF assms(1)] assms(2) by blast
  then have "i - 1 \<le> Suc (length (log ?f))" if "next_index ?f p = Some i" for i
    using that assms(3) by (auto simp: leader_knows_def intro: order.trans [OF diff_le_self])
  then have "leader_knows R n"
    using kn False assms(3) by (auto simp: assms(5) append_reply_handler_def leader_knows_def Let_def frame_simps split: option.splits)
  moreover have "commit_index n = commit_index ?f" using False by (auto simp: assms(5) append_reply_handler_def Let_def frame_simps)
  ultimately show ?thesis using extend_inv [OF assms(1-3) la assms(6)] by blast
qed

section \<open>Votes on transactions\<close>

lemma clear_inv:
  assumes "replication_inv V M (k, ms, R, E) L T" and "c \<in> set M" and "state (nodes k c) = Leader"
    and "0 < i" and "i \<le> commit_index (nodes k c)" and "i \<le> match_index_for (nodes k c) p"
  shows "replication_inv V M (k, ms, R, insert (p, i) E) L T"
proof -
  note inv = replication_invD [OF assms(1)]
  note ld = leader_log [OF assms(1-3)]
  let ?t = "current_term (nodes k c)"
  have j: "justified M L T (acks_of M k R L T) ?t i (L ?t)"
    unfolding ld(3)
    by (rule grows_justified [OF grows_refl members_holdD(4) [OF inv(7) assms(2)] _ order_refl assms(5)]) (simp_all add: take_is_prefix)
  obtain m where m: "match_index (nodes k c) p = Some m" "i \<le> m"
    using assms(4,6) by (auto simp: match_index_for_def split: option.splits)
  then obtain args where "(p, args) \<in> R" "ae_term args = ?t" "m = prev_log_index args + length (ae_entries args)"
    using inv(8) assms(2,3) unfolding leader_knows_def by blast
  then have "acks_of M k R L T ?t p i" using m(2) j ld(2) by (auto simp: acks_of_def justified_def)
  with j have "cleared_ok M L T (acks_of M k R L T) (insert (p, i) E)" using inv(11) by (auto simp: cleared_ok_def)
  then show ?thesis using assms(1) by (simp add: replication_inv_def Let_def)
qed

text \<open>Voting on a transaction changes the term as any message does, and the commit index at most to the
  index that the request names.\<close>

lemma tx_vote_shape:
  assumes "handle_tx_vote_request V req n = (reply, m)"
  shows "commit_index m = commit_index n \<or> commit_index m = tv_last_log_index req \<and> current_term m = current_term n"
    and "current_term n \<le> current_term m"
    and "state m = Leader \<Longrightarrow> state n = Leader \<and> current_term m = current_term n \<and> next_index m = next_index n \<and> match_index m = match_index n"
  using assms by (auto simp: handle_tx_vote_request_def Let_def frame_simps split: if_splits)

text \<open>What a node was cleared for is still in its log: no later leader can have missed it.\<close>

lemma cleared_stored:
  assumes "replication_inv V M (k, ms, R, E) L T" and "v \<in> set M" and "(v, i) \<in> E"
  shows "justified M L T (acks_of M k R L T) (current_term (nodes k v)) i (log (nodes k v))"
proof -
  note inv = replication_invD [OF assms(1)]
  obtain t where t: "acks_of M k R L T t v i" "justified M L T (acks_of M k R L T) t i (L t)"
    using inv(11) assms(3) by (auto simp: cleared_ok_def)
  have le: "t \<le> current_term (nodes k v)"
    and "prefix (take i (L t)) (log (nodes k v)) \<or> (\<exists>s \<le> current_term (nodes k v). misses L T t i s)"
    using members_holdD(3) [OF inv(7) assms(2)] t(1) by (auto simp: acks_kept_def)
  moreover have "\<not> misses L T t i s" for s
    using justified_led [OF inv(3) backed_elected [OF inv(5)] t(2), of s] by (auto simp: misses_def)
  ultimately have "prefix (take i (L t)) (log (nodes k v))" by blast
  then show ?thesis by (intro grows_justified [OF grows_refl t(2) _ le order_refl]) simp_all
qed

lemma vote_tx_moves:
  assumes "current_term (nodes k v) \<le> current_term n"
  shows "moves M k L T (acks_of M k R L T) (with_node k v n) L T (acks_of M (with_node k v n) R L T)"
  using assms by (simp add: moves_def acks_of_def)

lemma vote_tx_inv:
  assumes "replication_inv V M (k, ms, R, E) L T" and "v \<in> set M" and "(v, tv_last_log_index req) \<in> E"
    and "handle_tx_vote_request V req (nodes k v) = (reply, n)" and "log n = log (nodes k v)"
    and "current_config n = current_config (nodes k v)"
  shows "replication_inv V M (with_node k v n, ms, R, E) L T"
proof -
  note inv = replication_invD [OF assms(1)]
  note mem = members_holdD [OF inv(7) assms(2)]
  note sh = tx_vote_shape [OF assms(4)]
  let ?k = "with_node k v n"
  have local: "local_step V (nodes k v) n" using local_step.tx_vote [of V "nodes k v" req] assms(4) by simp
  note step = same_config_step [OF inv(1) assms(2) local assms(6)]
  have acks: "acks_of M ?k R L T = acks_of M k R L T" by (simp add: acks_of_def fun_eq_iff)
  have "\<not> wins_now M k ?k c t" for c t by (simp add: wins_now_def)
  then have logs: "led_logs M k ?k L = L" by (simp add: led_logs_def fun_eq_iff)
  show ?thesis
  proof (rule one_node_inv [OF assms(1,2) step(2) _ inv(3) vote_tx_moves [OF sh(2)] order_refl])
    show "one_log_per_term M (?k, ms) L" using quiet_keeps [OF step(1) _ inv(1) _ inv(2)] assms(5) logs by simp
    show "le_term e \<le> current_term n \<and> le_term e \<in> T" if "e \<in> set (log n)" for e
      using that mem(1,2) [of e] assms(5) sh(2) by auto
    show "justified M L T (acks_of M ?k R L T) (current_term n) (commit_index n) (log n)"
      using sh(1)
    proof (elim disjE conjE)
      assume "commit_index n = commit_index (nodes k v)"
      then show ?thesis
        unfolding acks assms(5) by (auto intro: grows_justified [OF grows_refl mem(4) _ sh(2)] simp: take_is_prefix)
    next
      assume "commit_index n = tv_last_log_index req" "current_term n = current_term (nodes k v)"
      then show ?thesis using cleared_stored [OF assms(1-3)] unfolding acks assms(5) by simp
    qed
    show "leader_knows R n" using inv(8) assms(2,5) sh(3) by (auto simp: leader_knows_def)
  qed (use inv(10) assms(5,6) in auto)
qed

end
