(* ===== verification/CommitSafety.thy ===== *)
theory CommitSafety
  imports Replication_Inv
begin

text \<open>
  Commit safety: along the runs of \<open>Replication\<close>, entries that two nodes call committed are the
  same, and every leader has what any node of its term or an earlier one has committed.
\<close>

section \<open>Runs\<close>

text \<open>The history of a state goes on in the history of a later one: logs of leaders grow by entries of
  their terms, and nothing that was acknowledged is taken back.\<close>

definition onward :: "string list \<Rightarrow> ('b, 'w, 'c) replication_state \<Rightarrow> (nat \<Rightarrow> log_entry list) \<Rightarrow> nat set
    \<Rightarrow> ('b, 'w, 'c) replication_state \<Rightarrow> (nat \<Rightarrow> log_entry list) \<Rightarrow> nat set \<Rightarrow> bool" where
  "onward M s L T s' L' T' \<longleftrightarrow> (case (s, s') of ((k, ms, R, E), (k', ms', R', E')) \<Rightarrow> grows L T L' T' \<and>
     (\<forall>t p i. acks_of M k R L T t p i \<longrightarrow> acks_of M k' R' L' T' t p i))"

lemma onward_refl: "fst s' = fst s \<Longrightarrow> fst (snd (snd s')) = fst (snd (snd s)) \<Longrightarrow> onward M s L T s' L T"
  by (auto simp: onward_def split: prod.splits)

lemma onward_moves:
  "moves M k L T (acks_of M k R L T) k' L' T' (acks_of M k' R' L' T') \<Longrightarrow> onward M (k, ms, R, E) L T (k', ms', R', E') L' T'"
  by (auto simp: onward_def moves_def)

lemma onward_trans: "onward M s L T s' L' T' \<Longrightarrow> onward M s' L' T' s'' L'' T'' \<Longrightarrow> onward M s L T s'' L'' T''"
  by (fastforce simp: onward_def intro: grows_trans split: prod.splits)

lemma replication_step_inv:
  "replication_step V M b s s' \<Longrightarrow> b \<Longrightarrow> replication_inv V M s L T \<Longrightarrow>
    \<exists>L' T'. replication_inv V M s' L' T' \<and> onward M s L T s' L' T'"
proof (induction rule: replication_step.induct)
  case (quiet b k k' ms R E)
  then show ?case using quiet_inv [OF quiet(1,3,4,2)] onward_moves [OF quiet_moves [OF quiet(1,3,4)]] by blast
next
  case (propose c k n ms R E)
  then show ?case
    using propose_inv [OF propose(5,1-3)] onward_moves [OF extend_moves(1) [OF propose(5,1,2) leader_append.proposing]] by blast
next
  case (send c v k p args ms R E)
  then show ?case using send_inv [OF send(5,1-3)] onward_refl [of "(k, insert args ms, R, E)" "(k, ms, R, E)"] by fastforce
next
  case (deliver v args ms now k reply n R E)
  then show ?case using deliver_inv [OF deliver(6,1-4)] onward_moves [OF deliver_moves [OF deliver(6,1-3)]] by blast
next
  case (acknowledge c k reply p args R n now ms E)
  have "leader_append V (nodes k c) n" using leader_append.acknowledged acknowledge(4) by simp
  then show ?case
    using acknowledge_inv [OF acknowledge(7,1-5)] onward_moves [OF extend_moves(1) [OF acknowledge(7,1,2)]] by blast
next
  case (clear c k p i ms R E)
  then show ?case
    using clear_inv [OF clear(8,1,2,4-6)] onward_refl [of "(k, ms, R, insert (p, i) E)" "(k, ms, R, E)"] by fastforce
next
  case (vote_tx v req E k reply n ms R)
  then show ?case
    using vote_tx_inv [OF vote_tx(7,1-5)] onward_moves [OF vote_tx_moves [OF tx_vote_shape(2) [OF vote_tx(3)]]] by blast
qed

lemma replication_init_inv:
  assumes "replication_init V M s"
  shows "replication_inv V M s (\<lambda>_. []) {}"
proof -
  obtain k where s: "s = (k, {}, {}, {})" using assms by (auto simp: replication_init_def prod_eq_iff intro: that)
  have init: "cluster_init V M k" "\<forall>a \<in> set M. log (nodes k a) = []" using assms by (simp_all add: replication_init_def s)
  have w: "\<not> won M k c t" for c t using init(1) by (simp add: cluster_init_def won_def)
  have n: "commit_index (nodes k a) = 0 \<and> state (nodes k a) = Follower \<and>
      current_config (nodes k a) = Simple (server a # map server (filter (\<lambda>p. p \<noteq> a) M))" if a: "a \<in> set M" for a
  proof -
    from init(1) a obtain now sm st where "nodes k a = new_node V now a (filter (\<lambda>p. p \<noteq> a) M) sm st"
      unfolding cluster_init_def by blast
    then show ?thesis by (simp add: new_node_def load_initial_state_def)
  qed
  have v: "\<not> voted k c t v" "tasks k (c, t, v) = None" for c t v using init(1) by (simp_all add: cluster_init_def voted_def)
  have "acks_of M k {} (\<lambda>_. []) {} = (\<lambda>_ _ _. False)" by (simp add: acks_of_def fun_eq_iff)
  moreover have "one_log_per_term M (k, {}) (\<lambda>_. [])" using init(2) w by (simp add: one_log_per_term_def)
  ultimately show ?thesis
    using cluster_init_inv [OF init(1)] init(2) w n v
    by (simp add: s replication_inv_def history_def terms_led_def leaders_backed_def candidates_backed_def members_hold_def
        acks_kept_def justified_def leader_knows_def cleared_ok_def)
qed

lemma replication_run_onward:
  "replication_run V M b s s' \<Longrightarrow> b \<Longrightarrow> replication_inv V M s L T \<Longrightarrow>
    \<exists>L' T'. replication_inv V M s' L' T' \<and> onward M s L T s' L' T'"
proof (induction rule: replication_run.induct)
  case (at_start s)
  then show ?case using onward_refl by blast
next
  case (one_more b s s' b' s'')
  then show ?case by (metis replication_step_inv onward_trans)
qed

text \<open>A history in which an earlier and a later state of a run can be compared.\<close>

lemma replication_runs_history:
  assumes "replication_init V M s" and "replication_run V M b s s1" and "replication_run V M b' s1 s2" and "b" and "b'"
  obtains L T L' T' where "replication_inv V M s1 L T" "replication_inv V M s2 L' T'" "onward M s1 L T s2 L' T'"
  using replication_run_onward [OF assms(2,4) replication_init_inv [OF assms(1)]] replication_run_onward [OF assms(3,5)] that
  by metis

section \<open>Committed entries are final\<close>

text \<open>What a node calls committed is, in every later state, a prefix of what has been chosen.\<close>

lemma committed_later:
  assumes "replication_inv V M s1 L T" and "onward M s1 L T s2 L' T'" and "a \<in> set M"
  defines "n \<equiv> nodes (fst s1) a"
  shows "justified M L' T' (acks_of M (fst s2) (fst (snd (snd s2))) L' T') (current_term n) (commit_index n) (log n)"
proof -
  obtain k ms R E where s1: "s1 = (k, ms, R, E)" by (cases s1)
  obtain k' ms' R' E' where s2: "s2 = (k', ms', R', E')" by (cases s2)
  have g: "grows L T L' T'" "\<And>t p i. acks_of M k R L T t p i \<Longrightarrow> acks_of M k' R' L' T' t p i"
    using assms(2) by (auto simp: onward_def s1 s2)
  have "justified M L T (acks_of M k R L T) (current_term n) (commit_index n) (log n)"
    using members_holdD(4) [OF replication_invD(7) [OF assms(1) [unfolded s1]] assms(3)] by (simp add: n_def s1)
  from grows_justified [OF g(1) this g(2)] show ?thesis by (simp add: s2 take_is_prefix)
qed

text \<open>C1: Commit safety: in a new cluster with fixed membership, along every run without late replies (vote
  refusals and answers to votes on transactions, handled when the node is already in their term or beyond),
  in which leaders start with an empty \<open>match_index\<close> and count only acknowledgements of their own term, and send
  appends only in the term they lead, and coordinators ask for transaction votes once the entry is
  committed and stored on the voter: what a node \<open>a\<close> has committed in a state \<open>s1\<close> of the run is final. Its
  commit index lies within its log; in every later state \<open>s2\<close> (and in \<open>s1\<close> itself) each node \<open>c\<close> agrees with it on the
  entries that both call committed, and every leader of the term of \<open>a\<close> or a later one has all of them.
  Appends and their acknowledgements may be lost, delayed, repeated and reordered, leaders may change at any
  time, and votes on transactions may raise commit indices.\<close>

theorem commit_safety:
  assumes "replication_init V M s" and "replication_run V M b s s1" and "replication_run V M b' s1 s2" and "b" and "b'"
    and "a \<in> set M" and "c \<in> set M"
  defines "n \<equiv> nodes (fst s1) a" and "m \<equiv> nodes (fst s2) c"
  shows "commit_index n \<le> length (log n) \<and>
    take (min (commit_index n) (commit_index m)) (log n) = take (min (commit_index n) (commit_index m)) (log m) \<and>
    (state m = Leader \<and> current_term n \<le> current_term m \<longrightarrow> take (commit_index n) (log m) = take (commit_index n) (log n))"
proof -
  obtain L T L' T' where h: "replication_inv V M s1 L T" "replication_inv V M s2 L' T'" "onward M s1 L T s2 L' T'"
    by (rule replication_runs_history [OF assms(1-5)])
  obtain k ms R E where s2: "s2 = (k, ms, R, E)" by (cases s2)
  note r = h(2) [unfolded s2]
  note inv = replication_invD [OF r]
  note e = backed_elected [OF inv(5)]
  have ja: "justified M L' T' (acks_of M k R L' T') (current_term n) (commit_index n) (log n)"
    using committed_later [OF h(1,3) assms(6)] by (simp add: n_def s2)
  have jc: "justified M L' T' (acks_of M k R L' T') (current_term m) (commit_index m) (log m)"
    using members_holdD(4) [OF inv(7) assms(7)] by (simp add: m_def s2)
  have len: "commit_index n \<le> length (log n)" using ja by (simp add: justified_def)
  have "take (commit_index n) (log m) = take (commit_index n) (log n)"
    if ld: "state m = Leader" and le: "current_term n \<le> current_term m"
  proof -
    note lg = leader_log(2,3) [OF r assms(7)]
    have "prefix (take (commit_index n) (log n)) (log m)"
      using justified_led [OF inv(3) e ja _ le] lg ld by (simp add: m_def s2)
    then show ?thesis using len by (auto elim!: prefixE)
  qed
  then show ?thesis using len justified_agree [OF inv(3) e ja jc] by simp
qed

section \<open>A run of a three-node cluster\<close>

text \<open>\<open>b\<close> has stored the write of \<open>a\<close> (\<open>LogMatching\<close>); \<open>a\<close> handles the acknowledgement and commits;
  its next append tells \<open>b\<close>.\<close>

definition committed_a :: ex_cluster where
  "committed_a = with_node stored_b ''a''
     (append_reply_handler V0 0 ''b'' append_a \<lparr>ar_term = 1, ar_success = True\<rparr> (nodes stored_b ''a''))"

definition commit_append :: append_entries_args where
  "commit_append = append_args_for (nodes committed_a ''a'') ''b''"

definition committed_b :: ex_cluster where
  "committed_b = with_node committed_a ''b'' (snd (handle_append_entries V0 0 commit_append (nodes committed_a ''b'')))"

lemma stored_b_facts:
  "state (nodes stored_b ''a'') = Leader" "current_term (nodes stored_b ''a'') = 1" "ae_term append_a = 1"
  by (simp add: stored_b_def unchanged_peers, simp add: stored_b_def written_a_def proposals_meta elected_a_facts, code_simp)

lemma deliver_b:
  "ar_success (fst (handle_append_entries V0 0 append_a (nodes written_a ''b''))) \<and>
   current_config (snd (handle_append_entries V0 0 append_a (nodes written_a ''b''))) = current_config (nodes written_a ''b'')"
  by code_simp

lemma committed_a_node:
  "current_config (nodes committed_a ''a'') = current_config (nodes stored_b ''a'') \<and>
   commit_index (nodes committed_a ''a'') \<le> length (log (nodes committed_a ''a''))"
  by code_simp

lemma commit_append_eq:
  "commit_append = \<lparr>ae_term = 1, ae_leader_id = ''a'', prev_log_index = 1, prev_log_term = 1, ae_entries = [], leader_commit = 1\<rparr>"
  by code_simp

lemma committed_b_answer:
  "(case handle_append_entries V0 0
      \<lparr>ae_term = 1, ae_leader_id = ''a'', prev_log_index = 1, prev_log_term = 1, ae_entries = [], leader_commit = 1\<rparr> (nodes stored_b ''b'') of
     (r, n) \<Rightarrow> ar_success r \<and> current_config n = current_config (nodes stored_b ''b'') \<and> commit_index n = 1 \<and> last_applied n = 1 \<and> log n = [\<lparr>le_term = 1, le_index = 1, le_command = CmdSet ''k'' ''v''\<rparr>])"
  by code_simp

lemma undisturbed_refl [simp]: "undisturbed n n"
  by (simp add: undisturbed_def)

definition calm :: "('b, 'w, 'c) raft_node \<Rightarrow> ('b, 'w, 'c) raft_node \<Rightarrow> bool" where
  "calm n m \<longleftrightarrow> log m = log n \<and> commit_index m \<le> commit_index n \<and> current_config m = current_config n \<and> state n \<noteq> Leader"

lemma calm_undisturbed: "calm n m \<Longrightarrow> (state m = Leader \<Longrightarrow> match_index m = Map.empty) \<Longrightarrow> undisturbed n m"
  by (simp add: calm_def undisturbed_def)

lemma fresh_match: "match_index (nodes elected_a ''a'') = Map.empty"
proof
  fix p
  show "match_index (nodes elected_a ''a'') p = None" by code_simp
qed

lemma calm_election:
  "\<forall>a \<in> set M3. calm (nodes init3 a) (nodes (do_campaign ''a'' init3) a) \<and> state (nodes (do_campaign ''a'' init3) a) \<noteq> Leader"
  "\<forall>a \<in> set M3. calm (nodes (do_campaign ''a'' init3) a) (nodes (do_answer ''a'' 1 ''b'' (do_campaign ''a'' init3)) a) \<and>
     state (nodes (do_answer ''a'' 1 ''b'' (do_campaign ''a'' init3)) a) \<noteq> Leader"
  "\<forall>a \<in> set M3. calm (nodes (do_answer ''a'' 1 ''b'' (do_campaign ''a'' init3)) a) (nodes elected_a a) \<and>
     (a \<noteq> ''a'' \<longrightarrow> state (nodes elected_a a) \<noteq> Leader)"
  by code_simp+

lemma quiet_nodes:
  "\<forall>a \<in> set M3. undisturbed (nodes init3 a) (nodes (do_campaign ''a'' init3) a)"
  "\<forall>a \<in> set M3. undisturbed (nodes (do_campaign ''a'' init3) a) (nodes (do_answer ''a'' 1 ''b'' (do_campaign ''a'' init3)) a)"
  "\<forall>a \<in> set M3. undisturbed (nodes (do_answer ''a'' 1 ''b'' (do_campaign ''a'' init3)) a) (nodes elected_a a)"
proof -
  show "\<forall>a \<in> set M3. undisturbed (nodes init3 a) (nodes (do_campaign ''a'' init3) a)"
    using calm_election(1) calm_undisturbed by blast
  show "\<forall>a \<in> set M3. undisturbed (nodes (do_campaign ''a'' init3) a) (nodes (do_answer ''a'' 1 ''b'' (do_campaign ''a'' init3)) a)"
    using calm_election(2) calm_undisturbed by blast
  show "\<forall>a \<in> set M3. undisturbed (nodes (do_answer ''a'' 1 ''b'' (do_campaign ''a'' init3)) a) (nodes elected_a a)"
    using calm_election(3) calm_undisturbed fresh_match by metis
qed

lemma committed_steps:
  "replication_step V0 M3 True (init3, {}, {}, {}) (do_campaign ''a'' init3, {}, {}, {})"
  "replication_step V0 M3 True (do_campaign ''a'' init3, {}, {}, {}) (do_answer ''a'' 1 ''b'' (do_campaign ''a'' init3), {}, {}, {})"
  "replication_step V0 M3 True (do_answer ''a'' 1 ''b'' (do_campaign ''a'' init3), {}, {}, {}) (elected_a, {}, {}, {})"
  "replication_step V0 M3 True (elected_a, {}, {}, {}) (written_a, {}, {}, {})"
  "replication_step V0 M3 True (written_a, {}, {}, {}) (written_a, {append_a}, {}, {})"
  "replication_step V0 M3 True (written_a, {append_a}, {}, {}) (stored_b, {append_a}, {(''b'', append_a)}, {})"
  "replication_step V0 M3 True (stored_b, {append_a}, {(''b'', append_a)}, {}) (committed_a, {append_a}, {(''b'', append_a)}, {})"
  "replication_step V0 M3 True (committed_a, {append_a}, {(''b'', append_a)}, {}) (committed_a, {commit_append, append_a}, {(''b'', append_a)}, {})"
  "replication_step V0 M3 True (committed_a, {commit_append, append_a}, {(''b'', append_a)}, {}) (committed_b, {commit_append, append_a}, {(''b'', commit_append), (''b'', append_a)}, {})"
proof -
  show "replication_step V0 M3 True (init3, {}, {}, {}) (do_campaign ''a'' init3, {}, {}, {})"
    "replication_step V0 M3 True (do_campaign ''a'' init3, {}, {}, {}) (do_answer ''a'' 1 ''b'' (do_campaign ''a'' init3), {}, {}, {})"
    "replication_step V0 M3 True (do_answer ''a'' 1 ''b'' (do_campaign ''a'' init3), {}, {}, {}) (elected_a, {}, {}, {})"
    using elected_a_steps [THEN replication_step.quiet] quiet_nodes by simp_all
  show "replication_step V0 M3 True (elected_a, {}, {}, {}) (written_a, {}, {}, {})"
    unfolding written_a_def using proposal.proposed
    by (intro replication_step.propose) (simp_all add: elected_a_facts)
  show "replication_step V0 M3 True (written_a, {}, {}, {}) (written_a, {append_a}, {}, {})"
    unfolding append_a_def
    by (rule replication_step.send [OF _ still_leading_now append_args_undisturbed]) (simp_all add: unchanged_peers)
  obtain r m where h: "handle_append_entries V0 0 append_a (nodes written_a ''b'') = (r, m)" by fastforce
  show "replication_step V0 M3 True (written_a, {append_a}, {}, {}) (stored_b, {append_a}, {(''b'', append_a)}, {})"
    using replication_step.deliver [OF _ _ h, of M3 "{append_a}" "{}"] deliver_b by (simp add: stored_b_def h)
  show "replication_step V0 M3 True (stored_b, {append_a}, {(''b'', append_a)}, {}) (committed_a, {append_a}, {(''b'', append_a)}, {})"
    unfolding committed_a_def
    by (rule replication_step.acknowledge [where reply = "\<lparr>ar_term = 1, ar_success = True\<rparr>" and p = "''b''" and args = append_a and now = 0])
      (use committed_a_node in \<open>simp_all add: stored_b_facts committed_a_def\<close>)
  have "state (nodes committed_a ''a'') = Leader"
    by (simp add: committed_a_def append_reply_handler_def Let_def frame_simps stored_b_facts)
  then show "replication_step V0 M3 True (committed_a, {append_a}, {(''b'', append_a)}, {})
      (committed_a, {commit_append, append_a}, {(''b'', append_a)}, {})"
    unfolding commit_append_def
    by (intro replication_step.send [OF _ still_leading_now append_args_undisturbed]) (simp_all add: committed_a_node)
  have b: "nodes committed_a ''b'' = nodes stored_b ''b''" by (simp add: committed_a_def)
  obtain r' m' where h': "handle_append_entries V0 0 commit_append (nodes committed_a ''b'') = (r', m')" by fastforce
  show "replication_step V0 M3 True (committed_a, {commit_append, append_a}, {(''b'', append_a)}, {})
      (committed_b, {commit_append, append_a}, {(''b'', commit_append), (''b'', append_a)}, {})"
    using replication_step.deliver [OF _ _ h', of M3 "{commit_append, append_a}" "{(''b'', append_a)}"]
      committed_b_answer h' by (simp add: committed_b_def commit_append_eq b)
qed

lemma committed_runs:
  "replication_run V0 M3 (((((((True \<and> True) \<and> True) \<and> True) \<and> True) \<and> True) \<and> True) \<and> True)
     (init3, {}, {}, {}) (committed_a, {append_a}, {(''b'', append_a)}, {})"
  "replication_run V0 M3 ((True \<and> True) \<and> True) (committed_a, {append_a}, {(''b'', append_a)}, {})
     (committed_b, {commit_append, append_a}, {(''b'', commit_append), (''b'', append_a)}, {})"
  by (rule replication_run.at_start replication_run.one_more committed_steps)+

theorem commit_safety_witness:
  "commit_index (nodes committed_a ''a'') = 1 \<and> commit_index (nodes committed_b ''b'') = 1 \<and>
   take 1 (log (nodes committed_a ''a'')) = take 1 (log (nodes committed_b ''b'')) \<and> log (nodes committed_b ''b'') \<noteq> []"
proof -
  have i: "replication_init V0 M3 (init3, {}, {}, {})" using init3_ok quiet_election(1) by (simp add: replication_init_def)
  have b: "nodes committed_a ''b'' = nodes stored_b ''b''" by (simp add: committed_a_def)
  have "commit_index (nodes committed_b ''b'') = 1" "length (log (nodes committed_b ''b'')) = 1"
    using committed_b_answer by (simp_all add: committed_b_def commit_append_eq b split: prod.splits)
  moreover have "commit_index (nodes committed_a ''a'') = 1"
    using arg_cong [OF commit_append_eq, of leader_commit] by (simp add: commit_append_def append_args_for_def Let_def)
  ultimately show ?thesis
    using commit_safety [OF i committed_runs, of "''a''" "''b''"] by auto
qed

end
