(* ===== verification/SingleCopy.thy ===== *)
theory SingleCopy
  imports CommitSafety Client_Props
begin

text \<open>
  The cluster as one copy of the key-value store. Along the runs of \<open>Replication\<close> in which no
  process restarts and no snapshot is installed, the longest committed log of the cluster only
  grows, and the map and the staged transactions of every node are what the specification
  (\<open>kv_spec\<close>) makes of a prefix of it: replicas lag behind the one copy, and never differ from it.
\<close>

section \<open>Processes that stay up\<close>

text \<open>What a process does to its node: every handler and every task but the installation of a snapshot, and
  no restart.\<close>

inductive live_step :: "('b, 'w, 'c) node_env \<Rightarrow> ('b, 'w, 'c) raft_node \<Rightarrow> ('b, 'w, 'c) raft_node \<Rightarrow> bool"
  for V :: "('b, 'w, 'c) node_env" where
  idle: "live_step V n n"
| pre_vote: "live_step V n (snd (handle_pre_vote now vargs n))"
| request_vote: "live_step V n (snd (handle_request_vote V now vargs n))"
| tx_vote: "live_step V n (snd (handle_tx_vote_request V req n))"
| append: "live_step V n (snd (handle_append_entries V now args n))"
| proposing: "proposal V n m \<Longrightarrow> live_step V n m"
| sync: "live_step V n (snd (sync_logs V n))"
| append_reply: "live_step V n (append_reply_handler V now peer args areply n)"
| compaction: "maybe_snapshot V th n = Some (b, m) \<Longrightarrow> live_step V n m"
| probe: "live_step V n (snd (become_pre_candidate V now n))"
| probe_reply: "live_step V n (snd (snd (process_pre_vote_reply V now reply r n)))"
| candidate: "live_step V n (snd (snd (become_candidate V now n)))"
| vote_reply: "live_step V n (snd (vote_reply_handler V now reply (r, n)))"

definition live_replication :: "('b, 'w, 'c) node_env \<Rightarrow> string list \<Rightarrow> bool \<Rightarrow> ('b, 'w, 'c) replication_state
    \<Rightarrow> ('b, 'w, 'c) replication_state \<Rightarrow> bool" where
  "live_replication V M b s s' \<longleftrightarrow> replication_step V M b s s' \<and>
     (\<forall>a \<in> set M. live_step V (nodes (fst s) a) (nodes (fst s') a))"

inductive live_run :: "('b, 'w, 'c) node_env \<Rightarrow> string list \<Rightarrow> bool \<Rightarrow> ('b, 'w, 'c) replication_state
    \<Rightarrow> ('b, 'w, 'c) replication_state \<Rightarrow> bool"
  for V :: "('b, 'w, 'c) node_env" and M :: "string list" where
  at_start: "live_run V M True s s"
| one_more: "live_run V M b s s' \<Longrightarrow> live_replication V M b' s' s'' \<Longrightarrow> live_run V M (b \<and> b') s s''"

text \<open>The longest log that a node of the cluster calls committed.\<close>

definition committed_of :: "('b, 'w, 'c) raft_node \<Rightarrow> log_entry list" where
  "committed_of n = take (commit_index n) (log n)"

definition committed_log :: "string list \<Rightarrow> ('b, 'w, 'c) cluster \<Rightarrow> log_entry list" where
  "committed_log M k = fold (\<lambda>a l. if length l < length (committed_of (nodes k a)) then committed_of (nodes k a) else l) M []"

section \<open>What a step applies\<close>

definition caught_up :: "('b, 'w, 'c) node_env \<Rightarrow> ('b, 'w, 'c) raft_node \<Rightarrow> ('b, 'w, 'c) raft_node \<Rightarrow> bool" where
  "caught_up V n m \<longleftrightarrow> commit_index n \<le> commit_index m \<and> last_applied n \<le> last_applied m \<and> last_applied m \<le> commit_index m \<and>
     kv_of V m = fold kv_spec (map le_command (drop (last_applied n) (take (last_applied m) (log m)))) (kv_of V n)"

definition untouched :: "('b, 'w, 'c) raft_node \<Rightarrow> ('b, 'w, 'c) raft_node \<Rightarrow> bool" where
  "untouched n m \<longleftrightarrow> state_machine_of m = state_machine_of n \<and> last_applied m = last_applied n \<and> commit_index m = commit_index n"

lemma untouched_caught_up: "untouched n m \<Longrightarrow> last_applied n \<le> commit_index n \<Longrightarrow> caught_up V n m"
  by (simp add: untouched_def caught_up_def)

lemma append_entry_untouched: "append_entry V e n = (r, m) \<Longrightarrow> untouched n m"
  using append_entry_frame [of V e n] by (simp add: untouched_def)

lemma untouched_trans: "untouched n m \<Longrightarrow> untouched m k \<Longrightarrow> untouched n k"
  by (simp add: untouched_def)

lemma propose_loop_untouched: "untouched n (snd (propose_loop V i cs n))"
proof (induction V i cs n rule: propose_loop.induct)
  case (2 V i c cs n)
  obtain r m where a: "append_entry V \<lparr>le_term = current_term n, le_index = i, le_command = c\<rparr> n = (r, m)" by fastforce
  then show ?case
    using 2 [OF a [symmetric]] append_entry_untouched [OF a] untouched_trans [OF append_entry_untouched [OF a]]
    by (cases r) simp_all
qed (simp add: untouched_def)

lemma proposal_untouched: "proposal V n m \<Longrightarrow> untouched n m"
  by (induction rule: proposal.induct)
    (auto simp: propose_def propose_batch_def propose_add_node_def propose_remove_node_def propose_joint_def
      propose_abort_tx_def Let_def propose_loop_untouched [unfolded untouched_def] untouched_def split: prod.splits sum.splits
      dest!: append_entry_untouched)

lemma election_untouched:
  "untouched n (snd (handle_pre_vote now args n))" "untouched n (snd (handle_request_vote V now args n))"
  "untouched n (snd (become_pre_candidate V now n))" "untouched n (snd (snd (process_pre_vote_reply V now reply r n)))"
  "untouched n (snd (snd (become_candidate V now n)))" "untouched n (snd (vote_reply_handler V now reply (r, n)))"
  by (auto simp: untouched_def handle_pre_vote_def handle_request_vote_eq become_pre_candidate_def become_leader_checked_def
      process_pre_vote_reply_def become_candidate_def vote_reply_handler_def request_votes_def become_leader_def
      promote_to_candidate_locked_def Let_def frame_simps split: prod.splits)

lemma compaction_untouched: "maybe_snapshot V th n = Some (b, m) \<Longrightarrow> untouched n m"
  by (auto simp: maybe_snapshot_def untouched_def Let_def split: if_splits sum.splits prod.splits)

text \<open>Applying after the commit index has moved within the log.\<close>

lemma apply_caught_up:
  assumes "sm_ok (sm_env_of V) (state_machine_of n)" and "last_applied n \<le> commit_index n"
    and "state_machine_of k = state_machine_of n" and "last_applied k = last_applied n"
    and "commit_index n \<le> commit_index k" and "commit_index k \<le> length (log k)"
  shows "caught_up V n (apply_logs V k)"
proof -
  note a = apply_logs_applies [OF disjI2 [OF assms(6)], of V]
  obtain es where l: "log (apply_logs V k) = log k @ es" using apply_logs_log(1) by blast
  have la: "last_applied (apply_logs V k) = commit_index k" using a assms(2,4-6) by simp
  have "kv_of V (apply_logs V k) = fold kv_spec (map le_command (unapplied k)) (kv_of V n)"
    using a lsm.run_kv [OF assms(1), of "map le_command (unapplied k)"] assms(3) by simp
  moreover have "unapplied k = drop (last_applied n) (take (commit_index k) (log (apply_logs V k)))"
    using assms(4,6) by (simp add: unapplied_def l)
  ultimately show ?thesis using la assms(2,4,5) by (simp add: caught_up_def frame_simps)
qed

lemma maybe_commit_caught_up:
  assumes "sm_ok (sm_env_of V) (state_machine_of n)" and "last_applied n \<le> commit_index n" and "untouched n k"
  shows "caught_up V n (maybe_commit V k)"
proof (cases V k rule: maybe_commit_cases)
  case same
  then show ?thesis using untouched_caught_up assms(2,3) by metis
next
  case (advance j)
  then show ?thesis using apply_caught_up [OF assms(1,2), of "k\<lparr>commit_index := j\<rparr>"] assms(3) by (simp add: untouched_def)
qed

lemma append_caught_up:
  assumes "sm_ok (sm_env_of V) (state_machine_of n)" and "last_applied n \<le> commit_index n"
    and "handle_append_entries V now args n = (reply, m)" and "commit_index n \<le> length (log m)"
  shows "caught_up V n m"
proof (cases "ar_success reply \<and> commit_index n < leader_commit args")
  case True
  define k where "k = append_loop V (ae_entries args) (ae_follower V now args n)"
  have m: "m = ae_commit V args k" using append_accepted(2) [of V now args n] assms(3) True by (simp add: k_def)
  have k: "state_machine_of k = state_machine_of n" "last_applied k = last_applied n" "commit_index k = commit_index n"
    "state k = Follower" by (simp_all add: k_def frame_simps)
  then have "log m = log k" using ae_commit_log [of k V args] m by simp
  then show ?thesis
    using apply_caught_up [OF assms(1,2), of "k\<lparr>commit_index := min (leader_commit args) (length (log k))\<rparr>"] k True assms(4)
    by (simp add: m ae_commit_def)
next
  case False
  then have "untouched n m"
    using assms(3) by (auto simp: handle_append_entries_eq untouched_def ae_commit_def frame_simps split: if_splits)
  then show ?thesis using assms(2) by (rule untouched_caught_up)
qed

lemma record_vote_view:
  assumes "sm_ok E s"
  shows "sm_view E (snd (record_vote i v x s)) = sm_view E s" and "sm_staged (snd (record_vote i v x s)) = sm_staged s"
  using assms by (auto simp: record_vote_def sm_staged_def sm_ok_def sm_inv_def fun_eq_iff split: option.splits)

lemma vote_caught_up:
  assumes "caught_up V n m" and "sm_ok (sm_env_of V) (state_machine_of m)"
  shows "caught_up V n (m\<lparr>state_machine_of := snd (record_vote i v x (state_machine_of m))\<rparr>)"
  using assms(1) record_vote_view [OF assms(2)] by (simp add: caught_up_def)

lemma tx_vote_caught_up:
  assumes "sm_ok (sm_env_of V) (state_machine_of n)" and "last_applied n \<le> commit_index n"
    and "commit_index n \<le> length (log n)"
  shows "caught_up V n (snd (handle_tx_vote_request V req n))"
proof -
  let ?k = "if commit_index n < tv_last_log_index req \<and> tv_last_log_index req \<le> length (log n)
    then n\<lparr>commit_index := tv_last_log_index req\<rparr> else n"
  let ?m = "apply_logs V ?k"
  have a: "caught_up V n ?m" by (rule apply_caught_up [OF assms(1,2)]) (use assms(3) in auto)
  have "sm_ok (sm_env_of V) (state_machine_of ?m)"
    using apply_logs_applies [of ?k V] lsm.run_ok [OF assms(1)] assms(3) by simp
  with a have r: "caught_up V n (?m\<lparr>state_machine_of := snd (record_vote i v x (state_machine_of ?m))\<rparr>)" for i v x
    by (rule vote_caught_up)
  have "caught_up V n (persist_meta V (n\<lparr>current_term := t, state := Follower, vote_for := None\<rparr>))" for t
    by (rule untouched_caught_up [OF _ assms(2)]) (simp add: untouched_def frame_simps)
  moreover have "caught_up V n n" using untouched_caught_up [OF _ assms(2)] by (simp add: untouched_def)
  ultimately show ?thesis using a r by (simp add: handle_tx_vote_request_def Let_def)
qed

text \<open>Whatever a process does, it applies what lies between its two applied indices, and nothing else.\<close>

lemma live_caught_up:
  assumes "live_step V n m" and "sm_ok (sm_env_of V) (state_machine_of n)" and "last_applied n \<le> commit_index n"
    and "commit_index n \<le> length (log n)" and "commit_index n \<le> length (log m)"
  shows "caught_up V n m"
  using assms
proof (cases rule: live_step.cases)
  case idle
  then show ?thesis using untouched_caught_up [OF _ assms(3)] by (simp add: untouched_def)
next
  case (tx_vote req)
  then show ?thesis using tx_vote_caught_up [OF assms(2-4)] by simp
next
  case (append now args)
  then show ?thesis using append_caught_up [OF assms(2,3) prod.collapse [symmetric]] assms(5) by simp
next
  case sync
  moreover have "untouched n n" by (simp add: untouched_def)
  ultimately show ?thesis
    using maybe_commit_caught_up [OF assms(2,3)] untouched_caught_up [OF _ assms(3)] by (simp add: sync_logs_def)
next
  case (append_reply now peer args reply)
  moreover have "untouched n (n\<lparr>match_index := mi, next_index := ni, last_quorum_heartbeat_at := t\<rparr>)"
    "untouched n (n\<lparr>next_index := ni\<rparr>)" "untouched n n"
    "untouched n (persist_meta V (n\<lparr>current_term := u, state := Follower, vote_for := None\<rparr>))" for mi ni t u
    by (simp_all add: untouched_def frame_simps)
  ultimately show ?thesis
    using maybe_commit_caught_up [OF assms(2,3)] untouched_caught_up [OF _ assms(3)]
    by (simp add: append_reply_handler_def Let_def)
qed (use assms(3) untouched_caught_up election_untouched proposal_untouched compaction_untouched in metis)+

section \<open>Committed logs only grow\<close>

lemma take_committed: "prefix (take c l) l' \<Longrightarrow> i \<le> c \<Longrightarrow> c \<le> length l \<Longrightarrow> take i l' = take i l"
  by (auto simp: min_def elim!: prefixE)

lemma committed_prefix: "prefix (log n) l \<Longrightarrow> prefix (committed_of n) l"
  unfolding committed_of_def using take_is_prefix prefix_order.trans by blast

text \<open>A replica: its map and its staged transactions are those of the commands it has applied.\<close>

definition replica :: "('b, 'w, 'c) node_env \<Rightarrow> ('b, 'w, 'c) raft_node \<Rightarrow> bool" where
  "replica V n \<longleftrightarrow> last_applied n \<le> commit_index n \<and>
     kv_of V n = fold kv_spec (map le_command (take (last_applied n) (log n))) (Map.empty, Map.empty)"

lemma replica_caught_up:
  assumes "replica V n" and "caught_up V n m" and "prefix (committed_of n) (log m)" and "commit_index n \<le> length (log n)"
  shows "replica V m"
proof -
  let ?i = "last_applied n" and ?j = "last_applied m"
  have c: "?i \<le> commit_index n" "?i \<le> ?j" using assms(1,2) by (simp_all add: replica_def caught_up_def)
  have "take ?i (log m) = take ?i (log n)"
    using take_committed [OF assms(3) [unfolded committed_of_def] c(1) assms(4)] .
  then have "take ?i (log n) @ drop ?i (take ?j (log m)) = take ?j (log m)"
    using c(2) append_take_drop_id [of ?i "take ?j (log m)"] by (simp add: min_def)
  then have "fold kv_spec (map le_command (take ?j (log m))) x =
      fold kv_spec (map le_command (drop ?i (take ?j (log m)))) (fold kv_spec (map le_command (take ?i (log n))) x)" for x
    by (metis fold_append comp_apply map_append)
  then have "kv_of V m = fold kv_spec (map le_command (take ?j (log m))) (Map.empty, Map.empty)"
    using assms(1,2) by (simp add: replica_def caught_up_def)
  then show ?thesis using assms(2) by (simp add: replica_def caught_up_def)
qed

text \<open>No step of the cluster removes a committed entry.\<close>

lemma step_keeps_committed:
  "replication_step V M b s s' \<Longrightarrow> b \<Longrightarrow> replication_inv V M s L T \<Longrightarrow> a \<in> set M \<Longrightarrow>
    prefix (committed_of (nodes (fst s) a)) (log (nodes (fst s') a))"
proof (induction rule: replication_step.induct)
  case (quiet b k k' ms R E)
  then show ?case by (simp add: undisturbed_def committed_of_def take_is_prefix)
next
  case (propose c k n ms R E)
  then show ?case
    using committed_prefix [OF extend_moves(3) [OF propose(5,1,2) leader_append.proposing [OF propose(3)]]]
    by (simp add: committed_prefix)
next
  case (deliver v args ms now k reply n R E)
  then show ?case using deliver_committed [OF deliver(6,1-3)] by (simp add: committed_of_def take_is_prefix)
next
  case (acknowledge c k reply p args R n now ms E)
  have "leader_append V (nodes k c) n" using leader_append.acknowledged acknowledge(4) by simp
  then show ?case
    using committed_prefix [OF extend_moves(3) [OF acknowledge(7,1,2)]] by (simp add: committed_prefix)
qed (simp_all add: committed_of_def take_is_prefix)

lemma member_committed:
  assumes "replication_inv V M s L T" and "a \<in> set M"
  shows "commit_index (nodes (fst s) a) \<le> length (log (nodes (fst s) a))"
    and "sm_ok (sm_env_of V) (state_machine_of (nodes (fst s) a))"
proof -
  obtain k ms R E where s: "s = (k, ms, R, E)" by (cases s)
  note inv = replication_invD [OF assms(1) [unfolded s]]
  show "commit_index (nodes (fst s) a) \<le> length (log (nodes (fst s) a))"
    using members_holdD(4) [OF inv(7) assms(2)] by (simp add: s justified_def)
  show "sm_ok (sm_env_of V) (state_machine_of (nodes (fst s) a))"
    using inv(1) assms(2) node_invD(3) by (auto simp: s cluster_inv_def members_ok_def)
qed

lemma live_step_replica:
  assumes "live_replication V M b s s'" and "b" and "replication_inv V M s L T" and "a \<in> set M" and "replica V (nodes (fst s) a)"
  shows "replica V (nodes (fst s') a)" and "prefix (committed_of (nodes (fst s) a)) (committed_of (nodes (fst s') a))"
proof -
  let ?n = "nodes (fst s) a" and ?m = "nodes (fst s') a"
  have l: "replication_step V M b s s'" "live_step V ?n ?m" using assms(1,4) by (simp_all add: live_replication_def)
  have p: "prefix (committed_of ?n) (log ?m)" by (rule step_keeps_committed [OF l(1) assms(2-4)])
  have "commit_index ?n \<le> length (log ?m)"
    using prefix_length_le [OF p] member_committed(1) [OF assms(3,4)] by (simp add: committed_of_def)
  then have c: "caught_up V ?n ?m"
    using live_caught_up [OF l(2) member_committed(2) [OF assms(3,4)]] assms(5) member_committed(1) [OF assms(3,4)]
    by (simp add: replica_def)
  show "replica V ?m" by (rule replica_caught_up [OF assms(5) c p member_committed(1) [OF assms(3,4)]])
  have "commit_index ?n \<le> commit_index ?m" using c by (simp add: caught_up_def)
  then show "prefix (committed_of ?n) (committed_of ?m)"
    using p member_committed(1) [OF assms(3,4)] by (auto simp: committed_of_def elim!: prefixE)
qed

lemma live_run_replica:
  "live_run V M b s s' \<Longrightarrow> b \<Longrightarrow> replication_inv V M s L T \<Longrightarrow> \<forall>a \<in> set M. replica V (nodes (fst s) a) \<Longrightarrow>
    (\<exists>L' T'. replication_inv V M s' L' T') \<and> (\<forall>a \<in> set M. replica V (nodes (fst s') a) \<and>
      prefix (committed_of (nodes (fst s) a)) (committed_of (nodes (fst s') a)))"
proof (induction rule: live_run.induct)
  case (one_more b s s' b' s'')
  then obtain L' T' where i: "replication_inv V M s' L' T'" by blast
  have "replication_step V M b' s' s''" using one_more(2) by (simp add: live_replication_def)
  then have "\<exists>L' T'. replication_inv V M s'' L' T'" using replication_step_inv i one_more.prems(1) by blast
  moreover have "replica V (nodes (fst s'') a) \<and> prefix (committed_of (nodes (fst s) a)) (committed_of (nodes (fst s'') a))"
    if "a \<in> set M" for a
    using live_step_replica [OF one_more(2) _ i that] one_more.IH one_more.prems that prefix_order.trans by blast
  ultimately show ?case by blast
qed blast

section \<open>The one copy\<close>

lemma longest_of_chain:
  assumes "\<And>a c. a \<in> A \<Longrightarrow> c \<in> A \<Longrightarrow> length (g a) \<le> length (g c) \<Longrightarrow> prefix (g a) (g c)"
    and "set N \<subseteq> A" and "l = [] \<or> l \<in> g ` A"
  defines "f \<equiv> \<lambda>a l. if length l < length (g a) then g a else l"
  shows "(fold f N l = [] \<or> fold f N l \<in> g ` A) \<and> prefix l (fold f N l) \<and> (\<forall>a \<in> set N. prefix (g a) (fold f N l))"
  using assms(2,3)
proof (induction N arbitrary: l)
  case (Cons a N)
  have l': "f a l = [] \<or> f a l \<in> g ` A" using Cons.prems by (auto simp: f_def)
  have p: "prefix l (f a l)" "prefix (g a) (f a l)" using Cons.prems assms(1) by (auto simp: not_less f_def)
  have IH: "(fold f N (f a l) = [] \<or> fold f N (f a l) \<in> g ` A) \<and> prefix (f a l) (fold f N (f a l)) \<and>
      (\<forall>c \<in> set N. prefix (g c) (fold f N (f a l)))"
    using Cons.IH [OF _ l'] Cons.prems(1) by simp
  then have "prefix l (fold f N (f a l))" "prefix (g a) (fold f N (f a l))" using p prefix_order.trans by blast+
  then show ?case using IH by simp
qed simp

lemma committed_comparable:
  assumes "replication_inv V M s L T" and "a \<in> set M" and "c \<in> set M"
    and "length (committed_of (nodes (fst s) a)) \<le> length (committed_of (nodes (fst s) c))"
  shows "prefix (committed_of (nodes (fst s) a)) (committed_of (nodes (fst s) c))"
proof -
  obtain k ms R E where s: "s = (k, ms, R, E)" by (cases s)
  note inv = replication_invD [OF assms(1) [unfolded s]]
  note j = members_holdD(4) [OF inv(7) assms(2)] members_holdD(4) [OF inv(7) assms(3)]
  have le: "commit_index (nodes k a) \<le> commit_index (nodes k c)"
    using assms(4) j by (simp add: committed_of_def s justified_def)
  then have "committed_of (nodes k a) = take (commit_index (nodes k a)) (committed_of (nodes k c))"
    using justified_agree [OF inv(3) backed_elected [OF inv(5)] j] by (simp add: committed_of_def min_def)
  then show ?thesis by (metis s fst_conv take_is_prefix)
qed

lemma committed_log_top:
  assumes "replication_inv V M s L T"
  shows "committed_log M (fst s) = [] \<or> (\<exists>c \<in> set M. committed_log M (fst s) = committed_of (nodes (fst s) c))"
    and "a \<in> set M \<Longrightarrow> prefix (committed_of (nodes (fst s) a)) (committed_log M (fst s))"
proof -
  let ?g = "\<lambda>a. committed_of (nodes (fst s) a)"
  have "(committed_log M (fst s) = [] \<or> committed_log M (fst s) \<in> ?g ` set M) \<and> prefix [] (committed_log M (fst s)) \<and>
      (\<forall>a \<in> set M. prefix (?g a) (committed_log M (fst s)))"
    unfolding committed_log_def 
    by (rule longest_of_chain [where g = ?g]) (use committed_comparable [OF assms] in simp_all)
  then show "committed_log M (fst s) = [] \<or> (\<exists>c \<in> set M. committed_log M (fst s) = committed_of (nodes (fst s) c))"
    and "a \<in> set M \<Longrightarrow> prefix (committed_of (nodes (fst s) a)) (committed_log M (fst s))" by blast+
qed

lemma init_replica:
  assumes "replication_init V M s" and "\<forall>a \<in> set M. kv_of V (nodes (fst s) a) = (Map.empty, Map.empty)"
  shows "\<forall>a \<in> set M. replica V (nodes (fst s) a)"
proof
  fix c assume c: "c \<in> set M"
  from assms(1) c obtain now sm st where "nodes (fst s) c = new_node V now c (filter (\<lambda>p. p \<noteq> c) M) sm st"
    unfolding replication_init_def cluster_init_def by blast
  moreover have "kv_of V (nodes (fst s) c) = (Map.empty, Map.empty)" using assms(2) c by blast
  ultimately show "replica V (nodes (fst s) c)" by (simp add: replica_def new_node_def load_initial_state_def)
qed

text \<open>A replica in the light of the one log.\<close>

lemma replica_of_log:
  assumes "replication_inv V M s L T" and "a \<in> set M" and "replica V (nodes (fst s) a)"
  defines "n \<equiv> nodes (fst s) a" and "C \<equiv> committed_log M (fst s)"
  shows "last_applied n \<le> length C" and "kv_of V n = fold kv_spec (map le_command (take (last_applied n) C)) (Map.empty, Map.empty)"
proof -
  obtain zs where zs: "C = committed_of n @ zs" using committed_log_top(2) [OF assms(1,2)] unfolding C_def n_def by (rule prefixE)
  have len: "last_applied n \<le> commit_index n" "commit_index n \<le> length (log n)"
    using assms(3) member_committed(1) [OF assms(1,2)] by (simp_all add: replica_def n_def)
  then show "last_applied n \<le> length C" by (simp add: zs committed_of_def)
  have "take (last_applied n) C = take (last_applied n) (log n)" using len by (simp add: zs committed_of_def min_def)
  then show "kv_of V n = fold kv_spec (map le_command (take (last_applied n) C)) (Map.empty, Map.empty)"
    using assms(3) by (simp only: replica_def n_def)
qed

lemma committed_log_grows:
  assumes "replication_inv V M s1 L T" and "replication_inv V M s2 L' T'"
    and "\<forall>a \<in> set M. prefix (committed_of (nodes (fst s1) a)) (committed_of (nodes (fst s2) a))"
  shows "prefix (committed_log M (fst s1)) (committed_log M (fst s2))"
  using committed_log_top(1) [OF assms(1)]
proof (elim disjE bexE)
  fix c assume c: "c \<in> set M" "committed_log M (fst s1) = committed_of (nodes (fst s1) c)"
  have "prefix (committed_of (nodes (fst s1) c)) (committed_of (nodes (fst s2) c))" using assms(3) c(1) by blast
  from this committed_log_top(2) [OF assms(2) c(1)] show ?thesis unfolding c(2) by (rule prefix_order.trans)
qed simp

text \<open>C2: The cluster refines one copy of the store: in a new cluster whose state machines are empty, along
  every run as in commit safety in which processes stay up and no snapshot is installed, the
  longest committed log of the cluster only grows from a state \<open>s1\<close> to a later state \<open>s2\<close>, and in \<open>s2\<close> the map and
  the staged transactions of every node are those that the specification computes from the empty store with the first
  \<open>last_applied\<close> commands of that one log. Replicas may lag; they never differ.\<close>

theorem replicas_refine_single_copy:
  assumes "replication_init V M s" and "\<forall>a \<in> set M. kv_of V (nodes (fst s) a) = (Map.empty, Map.empty)"
    and "live_run V M b s s1" and "live_run V M b' s1 s2" and "b" and "b'" and "a \<in> set M"
  defines "n \<equiv> nodes (fst s2) a" and "C \<equiv> committed_log M (fst s2)"
  shows "prefix (committed_log M (fst s1)) C \<and> last_applied n \<le> length C \<and>
    kv_of V n = fold kv_spec (map le_command (take (last_applied n) C)) (Map.empty, Map.empty)"
proof -
  obtain L T where 1: "replication_inv V M s1 L T" "\<forall>a \<in> set M. replica V (nodes (fst s1) a)"
    using live_run_replica [OF assms(3,5) replication_init_inv [OF assms(1)] init_replica [OF assms(1,2)]] by blast
  obtain L' T' where 2: "replication_inv V M s2 L' T'" "\<forall>a \<in> set M. replica V (nodes (fst s2) a)"
    "\<forall>a \<in> set M. prefix (committed_of (nodes (fst s1) a)) (committed_of (nodes (fst s2) a))"
    using live_run_replica [OF assms(4,6) 1] by blast
  have "replica V (nodes (fst s2) a)" using 2(2) assms(7) by blast
  from replica_of_log [OF 2(1) assms(7) this] committed_log_grows [OF 1(1) 2(1,3)]
  show ?thesis unfolding n_def C_def by (intro conjI)
qed

section \<open>A run of a three-node cluster\<close>

lemma live_update: "live_step V (f c) n \<Longrightarrow> live_step V (f a) ((f(c := n)) a)"
  by (simp add: live_step.idle)

lemma live_election:
  "live_step V0 (nodes k a) (nodes (do_campaign c k) a)" "live_step V0 (nodes k a) (nodes (do_answer c t v k) a)"
  "live_step V0 (nodes k a) (nodes (do_reply c t v k) a)"
proof -
  show "live_step V0 (nodes k a) (nodes (do_campaign c k) a)"
    using live_step.candidate [of V0 "nodes k c" 0]
    by (auto simp: do_campaign_def start_round_def live_step.idle split: prod.splits)
  have "live_step V0 (nodes k v) n" if "handle_request_vote V0 0 args (nodes k v) = (r, n)" for args r n
    using live_step.request_vote [of V0 "nodes k v" 0 args] that by simp
  then show "live_step V0 (nodes k a) (nodes (do_answer c t v k) a)"
    by (auto simp: do_answer_def live_step.idle split: option.splits task.splits prod.splits)
  have "live_step V0 (nodes k c) n" if "vote_reply_handler V0 0 reply (r, nodes k c) = (r', n)" for reply r r' n
    using live_step.vote_reply [of V0 "nodes k c" 0 reply r] that by simp
  then show "live_step V0 (nodes k a) (nodes (do_reply c t v k) a)"
    by (auto simp: do_reply_def live_step.idle split: option.splits task.splits prod.splits)
qed

lemma live_elected:
  "live_step V0 (nodes (do_answer ''a'' 1 ''b'' (do_campaign ''a'' init3)) a) (nodes elected_a a)"
  unfolding elected_a_def by (rule live_election)

lemma live_replicationI:
  "replication_step V M b s s' \<Longrightarrow> (\<And>a. live_step V (nodes (fst s) a) (nodes (fst s') a)) \<Longrightarrow> live_replication V M b s s'"
  by (simp add: live_replication_def)

lemma live_written:
  "live_step V0 (nodes elected_a a) (nodes written_a a)" "live_step V0 (nodes written_a a) (nodes stored_b a)"
  "live_step V0 (nodes stored_b a) (nodes CommitSafety.committed_a a)"
  "live_step V0 (nodes CommitSafety.committed_a a) (nodes CommitSafety.committed_b a)"
  by (simp_all add: written_a_def stored_b_def CommitSafety.committed_a_def CommitSafety.committed_b_def live_step.idle
      live_step.append live_step.append_reply live_step.proposing proposal.proposed)

lemma committed_live_runs:
  "live_run V0 M3 (((((((True \<and> True) \<and> True) \<and> True) \<and> True) \<and> True) \<and> True) \<and> True)
     (init3, {}, {}, {}) (CommitSafety.committed_a, {append_a}, {(''b'', append_a)}, {})"
  "live_run V0 M3 ((True \<and> True) \<and> True) (CommitSafety.committed_a, {append_a}, {(''b'', append_a)}, {})
     (CommitSafety.committed_b, {commit_append, append_a}, {(''b'', commit_append), (''b'', append_a)}, {})"
  by (rule live_run.at_start live_run.one_more live_replicationI committed_steps |
      simp add: live_election live_elected [unfolded One_nat_def] live_written live_step.idle)+

theorem replicas_refine_single_copy_witness:
  "last_applied (nodes CommitSafety.committed_b ''b'') = 1 \<and>
   sm_view (sm_env_of V0) (state_machine_of (nodes CommitSafety.committed_b ''b'')) ''k'' = Some ''v'' \<and>
   prefix (committed_log M3 CommitSafety.committed_a) (committed_log M3 CommitSafety.committed_b)"
proof -
  let ?e = "\<lparr>le_term = 1, le_index = 1, le_command = CmdSet ''k'' ''v''\<rparr>" and ?b = "nodes CommitSafety.committed_b ''b''"
  let ?s = "(CommitSafety.committed_b, {commit_append, append_a}, {(''b'', commit_append), (''b'', append_a)}, {})"
  have i: "replication_init V0 M3 (init3, {}, {}, {})" using init3_ok quiet_election(1) by (simp add: replication_init_def)
  have e: "\<forall>a \<in> set M3. kv_of V0 (nodes (fst (init3, {}, {}, {})) a) = (Map.empty, Map.empty)"
    by (simp add: init3_def ex_start_def new_node_def load_initial_state_def fresh_sm_empty)
  have "nodes CommitSafety.committed_a ''b'' = nodes stored_b ''b''" by (simp add: CommitSafety.committed_a_def)
  then have b: "commit_index ?b = 1" "last_applied ?b = 1" "log ?b = [?e]"
    using committed_b_answer by (simp_all add: CommitSafety.committed_b_def commit_append_eq split: prod.splits)
  obtain L T where "replication_inv V0 M3 ?s L T"
    using replication_run_onward [OF committed_runs(2)] replication_run_onward [OF committed_runs(1) _ replication_init_inv [OF i]] by blast
  from committed_log_top(2) [OF this, of "''b''"]
  have "prefix [?e] (committed_log M3 CommitSafety.committed_b)" using b by (simp add: committed_of_def)
  then have C: "take 1 (committed_log M3 CommitSafety.committed_b) = [?e]" by (auto elim!: prefixE)
  from replicas_refine_single_copy [OF i e committed_live_runs, of "''b''"]
  show ?thesis using b(2) C by simp
qed

end
