(* ===== verification/Progress.thy ===== *)
theory Progress
  imports CommitSafety
begin

text \<open>
  Progress of a leader. One exchange with a follower is the task that \<open>sync_logs\<close> spawns for a
  peer: build an append, have it answered, handle the reply. A refusal moves \<open>next_index\<close> back by
  one, so a follower is brought up to date after at most as many exchanges as its \<open>next_index\<close>, and
  a leader that reaches a majority commits its whole log once the log ends with an entry of its term.
\<close>

section \<open>Exchanges\<close>

definition next_of :: "('b, 'w, 'c) raft_node \<Rightarrow> string \<Rightarrow> nat" where
  "next_of n p = (case next_index n p of None \<Rightarrow> 1 | Some i \<Rightarrow> i)"

definition exchange :: "('b, 'w, 'c) node_env \<Rightarrow> nat \<Rightarrow> string \<Rightarrow> string \<Rightarrow> ('b, 'w, 'c) replication_state
    \<Rightarrow> ('b, 'w, 'c) replication_state" where
  "exchange V now c p s = (case s of (k, ms, R, E) \<Rightarrow>
     let args = append_args_for (nodes k c) p in
     case handle_append_entries V now args (nodes k p) of (reply, f) \<Rightarrow>
       (with_node (with_node k p f) c (append_reply_handler V now p args reply (nodes k c)),
        insert args ms, if ar_success reply then insert (p, args) R else R, E))"

text \<open>A log without changes of the configuration.\<close>

definition plain :: "log_entry list \<Rightarrow> bool" where
  "plain l \<longleftrightarrow> (\<forall>e \<in> set l. \<forall>cfg. le_command e \<noteq> CmdInstallConfiguration cfg)"

lemma apply_command_plain:
  "\<forall>cfg. cmd \<noteq> CmdInstallConfiguration cfg \<Longrightarrow> log (apply_command V cmd n) = log n \<and>
    current_config (apply_command V cmd n) = current_config n"
  by (cases cmd) simp_all

lemma apply_logs_plain:
  assumes "plain (take (commit_index n) (log n))"
  shows "log (apply_logs V n) = log n" and "current_config (apply_logs V n) = current_config n"
proof -
  have "log (apply_logs V n) = log n \<and> commit_index (apply_logs V n) = commit_index n \<and>
      current_config (apply_logs V n) = current_config n"
  proof (rule apply_logs_rule [where P = "\<lambda>m. log m = log n \<and> commit_index m = commit_index n \<and> current_config m = current_config n"])
    fix m :: "('a, 'b, 'c) raft_node"
    assume m: "log m = log n \<and> commit_index m = commit_index n \<and> current_config m = current_config n"
      and i: "last_applied m < commit_index m" "last_applied m < length (log m)"
    have "log m ! last_applied m \<in> set (take (commit_index n) (log n))"
      using m i by (metis in_set_conv_nth length_take min_less_iff_conj nth_take)
    then have "log (apply_step V m) = log m" "current_config (apply_step V m) = current_config m"
      using assms apply_command_plain [of "le_command (log m ! last_applied m)" V m] by (auto simp: plain_def apply_step_def)
    then show "log (apply_step V m) = log n \<and> commit_index (apply_step V m) = commit_index n \<and>
        current_config (apply_step V m) = current_config n" using m by (simp add: frame_simps)
  qed simp
  then show "log (apply_logs V n) = log n" "current_config (apply_logs V n) = current_config n" by simp_all
qed

lemma plain_take: "plain l \<Longrightarrow> plain (take i l)"
  by (auto simp: plain_def dest: in_set_takeD)

lemma maybe_commit_plain:
  assumes "plain (log n)"
  shows "log (maybe_commit V n) = log n" and "current_config (maybe_commit V n) = current_config n"
  by (cases V n rule: maybe_commit_cases; use assms in \<open>simp add: apply_logs_plain plain_take\<close>)+

text \<open>What a quorum has, of the leader's own term, is committed.\<close>

lemma maybe_commit_all:
  assumes "state n = Leader" and "log n \<noteq> []" and "le_term (last (log n)) = current_term n" and "commit_index n \<le> length (log n)"
    and "config_quorum_reached (current_config n) (match_index n) (node_id n) (length (log n)) (length (log n))"
  shows "commit_index (maybe_commit V n) = length (log n)"
proof -
  let ?q = "config_quorum_reached (current_config n) (match_index n) (node_id n) (length (log n))"
  let ?r = "config_quorum_reached_index (current_config n) (match_index n) (node_id n) (length (log n))"
  have "\<forall>i j. ?q j \<longrightarrow> i \<le> j \<longrightarrow> ?q i" using quorum_reached_antimono by blast
  from quorum_search_spec [OF this, of 1 0 "length (log n)" "length (log n)" ?r]
  have "?r \<le> length (log n)" "\<forall>j. ?r < j \<longrightarrow> j \<le> length (log n) \<longrightarrow> \<not> ?q j" by (auto simp: config_quorum_reached_index_def)
  then have "?r = length (log n)" using assms(5) by (meson le_neq_implies_less order_refl)
  then show ?thesis using assms(1-4) by (auto simp: maybe_commit_def Let_def frame_simps last_conv_nth)
qed

lemma majority_quorum:
  assumes "distinct M" and "c \<in> set M" and "is_majority M S" and "\<And>p. p \<in> S \<Longrightarrow> j \<le> id_idx mi c len p"
  shows "config_quorum_reached (Simple (server c # map server (filter (\<lambda>a. a \<noteq> c) M))) mi c len j"
proof -
  have ids: "ids (server c # map server (filter (\<lambda>a. a \<noteq> c) M)) = c # filter (\<lambda>a. a \<noteq> c) M" by (simp add: server_def comp_def)
  then have wf: "config_wf (Simple (server c # map server (filter (\<lambda>a. a \<noteq> c) M)))" using assms(1) by simp
  have "set (c # filter (\<lambda>a. a \<noteq> c) M) = set M" using assms(2) by auto
  then have "is_majority (c # filter (\<lambda>a. a \<noteq> c) M) S" using assms(3) unfolding is_majority_def by metis
  then have "is_majority (c # filter (\<lambda>a. a \<noteq> c) M) {p. j \<le> id_idx mi c len p}"
    using assms(4) by (auto intro: is_majority_mono)
  then show ?thesis using quorum_reached_sets [OF wf] ids by (simp del: config_quorum_reached.simps)
qed

section \<open>One exchange\<close>

text \<open>What an exchange needs, and what every exchange keeps.\<close>

definition leads :: "('b, 'w, 'c) node_env \<Rightarrow> string list \<Rightarrow> string \<Rightarrow> ('b, 'w, 'c) replication_state \<Rightarrow> bool" where
  "leads V M c s \<longleftrightarrow> (\<exists>L T. replication_inv V M s L T) \<and> c \<in> set M \<and> state (nodes (fst s) c) = Leader \<and> plain (log (nodes (fst s) c))"

definition kept :: "string \<Rightarrow> string \<Rightarrow> ('b, 'w, 'c) replication_state \<Rightarrow> ('b, 'w, 'c) replication_state \<Rightarrow> bool" where
  "kept c p s s' \<longleftrightarrow> (let n = nodes (fst s) c; m = nodes (fst s') c in
     log m = log n \<and> current_term m = current_term n \<and>
     (\<forall>q. q \<noteq> p \<longrightarrow> match_index m q = match_index n q \<and> next_index m q = next_index n q) \<and>
     (\<forall>q. q \<noteq> p \<longrightarrow> q \<noteq> c \<longrightarrow> nodes (fst s') q = nodes (fst s) q))"

lemma kept_refl: "kept c p s s"
  by (simp add: kept_def Let_def)

lemma kept_trans: "kept c p s s' \<Longrightarrow> kept c p s' s'' \<Longrightarrow> kept c p s s''"
  by (simp add: kept_def Let_def)

lemma replication_run_trans:
  "replication_run V M b' s' s'' \<Longrightarrow> replication_run V M b s s' \<Longrightarrow> replication_run V M (b \<and> b') s s''"
proof (induction rule: replication_run.induct)
  case (one_more b1 s s1 b2 s2)
  then show ?case using replication_run.one_more [OF one_more.IH [OF one_more.prems] one_more.hyps(2)] by (simp add: conj_assoc)
qed simp

lemma follower_answer:
  assumes "current_term f \<le> ae_term args" and "\<not> (ae_term args = current_term f \<and> state f = Leader)"
    and "handle_append_entries V now args f = (reply, f')"
  shows "current_term f' = ae_term args" and "ar_term reply = ae_term args"
    and "ar_success reply = prev_matches args (log f)" and "\<not> ar_success reply \<Longrightarrow> log f' = log f \<and> current_config f' = current_config f"
  using assms by (auto simp: handle_append_entries_eq ae_commit_def frame_simps split: if_splits)

text \<open>The configuration of the follower stays, since what it applies is in the log of the leader.\<close>

lemma follower_config:
  assumes "handle_append_entries V now args f = (reply, f')" and "ar_success reply" and "prefix l (log f')" and "plain l"
    and "leader_commit args \<le> length l"
  shows "current_config f' = current_config f"
proof -
  define m where "m = append_loop V (ae_entries args) (ae_follower V now args f)"
  have f': "f' = ae_commit V args m" using append_accepted(2) [of V now args f] assms(1,2) by (simp add: m_def)
  have m: "current_config m = current_config f" "state m = Follower" by (simp_all add: m_def frame_simps)
  then have "log f' = log m" using ae_commit_log [of m V args] f' by simp
  then obtain zs where zs: "log m = l @ zs" using assms(3) by (auto elim: prefixE)
  then have "plain (take (leader_commit args) (log m))" using assms(4,5) by (simp add: plain_take)
  then have "current_config (apply_logs V (m\<lparr>commit_index := leader_commit args\<rparr>)) = current_config m"
    using apply_logs_plain(2) [of "m\<lparr>commit_index := leader_commit args\<rparr>" V] by simp
  moreover have "min (leader_commit args) (length (log m)) = leader_commit args" using assms(5) zs by simp
  ultimately show ?thesis using m by (simp add: f' ae_commit_def)
qed

text \<open>The append that is exchanged covers the log of the leader from \<open>next_index\<close> on.\<close>

lemma exchanged_args:
  assumes "next_of l p \<le> length (log l) + 1" and "next_index l p \<noteq> Some 0"
  defines "args \<equiv> append_args_for l p"
  shows "ae_term args = current_term l" and "prev_log_index args = next_of l p - 1" and "leader_commit args = commit_index l"
    and "ae_entries args = drop (prev_log_index args) (log l)" and "prev_log_index args \<le> length (log l)"
    and "0 < prev_log_index args \<longrightarrow> le_term (log l ! (prev_log_index args - 1)) = prev_log_term args" and "1 \<le> next_of l p"
  using assms(1,2) by (auto simp: args_def append_args_for_def next_of_def Let_def split: option.splits)

lemma leader_next:
  assumes "replication_inv V M (k, ms, R, E) L T" and "c \<in> set M" and "state (nodes k c) = Leader"
  shows "next_of (nodes k c) p \<le> length (log (nodes k c)) + 1" and "next_index (nodes k c) p \<noteq> Some 0"
    and "commit_index (nodes k c) \<le> length (log (nodes k c))" and "node_id (nodes k c) = c"
proof -
  note inv = replication_invD [OF assms(1)]
  have "leader_knows R (nodes k c)" using inv(8) assms(2) by blast
  then show "next_of (nodes k c) p \<le> length (log (nodes k c)) + 1"
    using assms(3) by (auto simp: leader_knows_def next_of_def split: option.splits)
  show "next_index (nodes k c) p \<noteq> Some 0" "node_id (nodes k c) = c"
    using inv(1) assms(2) node_invD(4) by (auto simp: cluster_inv_def members_ok_def)
  show "commit_index (nodes k c) \<le> length (log (nodes k c))" using members_holdD(4) [OF inv(7) assms(2)] by (simp add: justified_def)
qed

text \<open>How the leader handles the reply of a follower in its term.\<close>

lemma leader_learns:
  fixes V :: "('b, 'w, 'c) node_env" and now :: nat and p :: string and args :: append_entries_args
  assumes "plain (log l)" and "state l = Leader" and "ar_success reply \<or> ar_term reply \<le> current_term l"
  defines "m \<equiv> append_reply_handler V now p args reply l"
  shows "log m = log l" and "current_term m = current_term l" and "state m = Leader" and "current_config m = current_config l"
    and "q \<noteq> p \<Longrightarrow> match_index m q = match_index l q \<and> next_index m q = next_index l q"
    and "ar_success reply \<Longrightarrow> match_index m p = Some (prev_log_index args + length (ae_entries args))"
    and "\<not> ar_success reply \<Longrightarrow> 1 < next_of l p \<Longrightarrow> next_of m p = next_of l p - 1"
proof -
  let ?n = "l\<lparr>match_index := (match_index l)(p \<mapsto> prev_log_index args + length (ae_entries args)),
    next_index := (next_index l)(p \<mapsto> prev_log_index args + length (ae_entries args) + 1), last_quorum_heartbeat_at := Some now\<rparr>"
  have c: "log (maybe_commit V ?n) = log l" "current_config (maybe_commit V ?n) = current_config l"
    using maybe_commit_plain [of ?n V] assms(1) by simp_all
  show "log m = log l" "current_config m = current_config l" using c assms(3) by (auto simp: m_def append_reply_handler_def Let_def)
  show "current_term m = current_term l" "state m = Leader"
    using assms(2,3) by (auto simp: m_def append_reply_handler_def Let_def frame_simps)
  show "q \<noteq> p \<Longrightarrow> match_index m q = match_index l q \<and> next_index m q = next_index l q"
    using assms(3) by (auto simp: m_def append_reply_handler_def Let_def frame_simps)
  show "ar_success reply \<Longrightarrow> match_index m p = Some (prev_log_index args + length (ae_entries args))"
    by (simp add: m_def append_reply_handler_def Let_def frame_simps)
  show "\<not> ar_success reply \<Longrightarrow> 1 < next_of l p \<Longrightarrow> next_of m p = next_of l p - 1"
    using assms(3) by (auto simp: m_def append_reply_handler_def Let_def next_of_def split: option.splits)
qed

text \<open>The follower of an exchange, and the three steps of the run.\<close>

lemma exchange_follower:
  assumes "replication_inv V M (k, ms, R, E) L T" and "c \<in> set M" and "state (nodes k c) = Leader" and "plain (log (nodes k c))"
    and "p \<in> set M" and "p \<noteq> c" and "current_term (nodes k p) \<le> current_term (nodes k c)"
    and "handle_append_entries V now (append_args_for (nodes k c) p) (nodes k p) = (reply, f)"
  shows "current_term f = current_term (nodes k c)" and "ar_term reply = current_term (nodes k c)"
    and "ar_success reply \<Longrightarrow> prefix (log (nodes k c)) (log f)" and "current_config f = current_config (nodes k p)"
    and "\<not> ar_success reply \<Longrightarrow> 1 < next_of (nodes k c) p"
proof -
  let ?l = "nodes k c" and ?f = "nodes k p" and ?args = "append_args_for (nodes k c) p"
  note inv = replication_invD [OF assms(1)]
  note nx = leader_next(1,2) [OF assms(1-3), of p] leader_next(3,4) [OF assms(1-3)]
  note a = exchanged_args [OF nx(1,2)]
  have "\<not> (ae_term ?args = current_term ?f \<and> state ?f = Leader)"
    using one_leader_per_term [OF inv(1) assms(5) _ assms(2,3)] assms(6) a(1) by auto
  then have fa: "current_term f = ae_term ?args" "ar_term reply = ae_term ?args" "ar_success reply = prev_matches ?args (log ?f)"
    "\<not> ar_success reply \<Longrightarrow> log f = log ?f \<and> current_config f = current_config ?f"
    using follower_answer [OF _ _ assms(8)] assms(7) a(1) by simp_all
  then show "current_term f = current_term ?l" "ar_term reply = current_term ?l" using a(1) by simp_all
  show "1 < next_of ?l p" if "\<not> ar_success reply" using that fa(3) a(2,7) by (auto simp: prev_matches_def)
  show px: "prefix (log ?l) (log f)" if "ar_success reply"
    by (rule deliver_accepted(1) [OF assms(8) that inv(3) one_log_per_termD(1) [OF inv(2) assms(5)] _ a(5,4,6)])
      (simp add: leader_log(3) [OF assms(1-3)] a(1))
  show "current_config f = current_config ?f"
  proof (cases "ar_success reply")
    case True
    show ?thesis by (rule follower_config [OF assms(8) True px [OF True] assms(4)]) (simp add: a(3) nx(3))
  qed (use fa(4) in blast)
qed

lemma exchange_run:
  assumes "replication_inv V M (k, ms, R, E) L T" and "c \<in> set M" and "state (nodes k c) = Leader" and "plain (log (nodes k c))"
    and "p \<in> set M" and "p \<noteq> c" and "current_term (nodes k p) \<le> current_term (nodes k c)"
  shows "replication_run V M True (k, ms, R, E) (exchange V now c p (k, ms, R, E))"
proof -
  let ?l = "nodes k c" and ?args = "append_args_for (nodes k c) p"
  obtain reply f where h: "handle_append_entries V now ?args (nodes k p) = (reply, f)" by fastforce
  note fo = exchange_follower [OF assms h]
  note nx = leader_next(1,2) [OF assms(1-3), of p] leader_next(3,4) [OF assms(1-3)]
  let ?R = "if ar_success reply then insert (p, ?args) R else R" and ?m = "append_reply_handler V now p ?args reply ?l"
  have 1: "replication_step V M True (k, ms, R, E) (k, insert ?args ms, R, E)"
    by (rule replication_step.send [OF assms(2) still_leading_now [OF assms(3) nx(3)] append_args_undisturbed])
  have 2: "replication_step V M True (k, insert ?args ms, R, E) (with_node k p f, insert ?args ms, ?R, E)"
    by (rule replication_step.deliver [OF assms(5) insertI1 h fo(4)])
  have l: "nodes (with_node k p f) c = ?l" using assms(6) by simp
  have "current_config ?m = current_config ?l" using leader_learns(4) [OF assms(4,3)] fo(2) by simp
  then have 3: "replication_step V M True (with_node k p f, insert ?args ms, ?R, E)
      (with_node (with_node k p f) c ?m, insert ?args ms, ?R, E)"
    using exchanged_args(1) [OF nx(1,2)] assms(2,3) l
    by (intro replication_step.acknowledge [where reply = reply and p = p and args = ?args and now = now]) (auto simp del: fun_upd_apply)
  have "replication_run V M (((True \<and> True) \<and> True) \<and> True) (k, ms, R, E)
      (with_node (with_node k p f) c ?m, insert ?args ms, ?R, E)"
    by (rule replication_run.one_more [OF replication_run.one_more [OF replication_run.one_more [OF replication_run.at_start 1] 2] 3])
  then show ?thesis by (simp add: exchange_def h Let_def)
qed

section \<open>Catching up\<close>

text \<open>Where an exchange ends: with the follower up to date and what the leader knows of a quorum committed, or
  one entry further back.\<close>

definition matched :: "string \<Rightarrow> string \<Rightarrow> ('b, 'w, 'c) replication_state \<Rightarrow> bool" where
  "matched c p s \<longleftrightarrow> (let n = nodes (fst s) c in match_index n p = Some (length (log n)) \<and> prefix (log n) (log (nodes (fst s) p)))"

definition settled :: "string \<Rightarrow> ('b, 'w, 'c) replication_state \<Rightarrow> bool" where
  "settled c s \<longleftrightarrow> (let n = nodes (fst s) c in
     log n \<noteq> [] \<and> le_term (last (log n)) = current_term n \<and>
     config_quorum_reached (current_config n) (match_index n) c (length (log n)) (length (log n)) \<longrightarrow> commit_index n = length (log n))"

lemma exchange_effect:
  fixes now :: nat
  assumes "leads V M c s" and "p \<in> set M" and "p \<noteq> c" and "current_term (nodes (fst s) p) \<le> current_term (nodes (fst s) c)"
  defines "s' \<equiv> exchange V now c p s"
  shows "replication_run V M True s s'" and "leads V M c s'" and "kept c p s s'"
    and "current_term (nodes (fst s') p) \<le> current_term (nodes (fst s') c)"
    and "matched c p s' \<and> settled c s' \<or> 1 < next_of (nodes (fst s) c) p \<and> next_of (nodes (fst s') c) p = next_of (nodes (fst s) c) p - 1"
proof -
  obtain k ms R E where s: "s = (k, ms, R, E)" by (cases s)
  let ?l = "nodes k c" and ?args = "append_args_for (nodes k c) p"
  obtain L T where inv: "replication_inv V M (k, ms, R, E) L T" and c: "c \<in> set M" "state ?l = Leader" "plain (log ?l)"
    using assms(1) by (auto simp: leads_def s)
  have le: "current_term (nodes k p) \<le> current_term ?l" using assms(4) by (simp add: s)
  obtain reply f where h: "handle_append_entries V now ?args (nodes k p) = (reply, f)" by fastforce
  let ?m = "append_reply_handler V now p ?args reply ?l"
  note fo = exchange_follower [OF inv c assms(2,3) le h]
  note nx = leader_next(1,2) [OF inv c(1,2), of p] leader_next(3,4) [OF inv c(1,2)]
  have ok: "ar_success reply \<or> ar_term reply \<le> current_term ?l" using fo(2) by simp
  note ln = leader_learns [OF c(3,2) ok]
  have n: "nodes (fst s') c = ?m" "nodes (fst s') p = f" "\<And>q. q \<noteq> c \<Longrightarrow> q \<noteq> p \<Longrightarrow> nodes (fst s') q = nodes k q"
    using assms(3) by (simp_all add: s'_def s exchange_def h Let_def)
  show run: "replication_run V M True s s'" unfolding s s'_def by (rule exchange_run [OF inv c assms(2,3) le])
  obtain L' T' where inv': "replication_inv V M s' L' T'"
    using replication_run_onward [OF run _ inv [folded s]] by blast
  then show "leads V M c s'" using c ln by (auto simp: leads_def n)
  show "kept c p s s'" using ln n by (simp add: kept_def Let_def s)
  show "current_term (nodes (fst s') p) \<le> current_term (nodes (fst s') c)" using fo(1) ln(2) n by simp
  show "matched c p s' \<and> settled c s' \<or> 1 < next_of (nodes (fst s) c) p \<and> next_of (nodes (fst s') c) p = next_of (nodes (fst s) c) p - 1"
  proof (cases "ar_success reply")
    case True
    have "prev_log_index ?args + length (ae_entries ?args) = length (log ?l)"
      using exchanged_args(4,5) [OF nx(1,2)] by simp
    then have "matched c p s'" using ln(1,6) fo(3) True by (simp add: matched_def Let_def n)
    moreover have "settled c s'"
    proof -
      define w where "w = ?l\<lparr>match_index := (match_index ?l)(p \<mapsto> prev_log_index ?args + length (ae_entries ?args)),
        next_index := (next_index ?l)(p \<mapsto> prev_log_index ?args + length (ae_entries ?args) + 1), last_quorum_heartbeat_at := Some now\<rparr>"
      have m: "?m = maybe_commit V w" using True by (simp add: append_reply_handler_def Let_def w_def)
      have w: "log w = log ?l" "state w = Leader" "commit_index w \<le> length (log ?l)" "node_id w = c" "current_config w = current_config ?l"
        using c(2) nx(3,4) by (simp_all add: w_def)
      moreover have "log (maybe_commit V w) = log ?l" "current_config (maybe_commit V w) = current_config ?l"
        using maybe_commit_plain [of w V] c(3) w by simp_all
      ultimately show ?thesis using maybe_commit_all [of w V] by (simp add: settled_def Let_def n m frame_simps)
    qed
    ultimately show ?thesis by blast
  next
    case False
    then show ?thesis using fo(5) ln(7) by (simp add: n s)
  qed
qed

lemma catch_up:
  assumes "leads V M c s" and "p \<in> set M" and "p \<noteq> c" and "current_term (nodes (fst s) p) \<le> current_term (nodes (fst s) c)"
  shows "\<exists>j s'. j \<le> next_of (nodes (fst s) c) p \<and> s' = (exchange V now c p ^^ j) s \<and>
    replication_run V M True s s' \<and> leads V M c s' \<and> kept c p s s' \<and> matched c p s' \<and> settled c s'"
  using assms
proof (induction "next_of (nodes (fst s) c) p" arbitrary: s rule: less_induct)
  case less
  define s1 where "s1 = exchange V now c p s"
  note ex = exchange_effect [OF less.prems, where now = now, folded s1_def]
  from ex(5) show ?case
  proof
    assume "matched c p s1 \<and> settled c s1"
    moreover obtain L T where "replication_inv V M s L T" using less.prems(1) by (auto simp: leads_def)
    then have "1 \<le> next_of (nodes (fst s) c) p"
      using exchanged_args(7) [OF leader_next(1,2)] less.prems(1) by (cases s) (fastforce simp: leads_def)
    moreover have "s1 = (exchange V now c p ^^ 1) s" by (simp add: s1_def)
    ultimately show ?thesis using ex(1-3) by blast
  next
    assume b: "1 < next_of (nodes (fst s) c) p \<and> next_of (nodes (fst s1) c) p = next_of (nodes (fst s) c) p - 1"
    then have "next_of (nodes (fst s1) c) p < next_of (nodes (fst s) c) p" by simp
    from less.hyps [OF this ex(2) less.prems(2,3) ex(4)] obtain j s2 where
      j: "j \<le> next_of (nodes (fst s1) c) p" "s2 = (exchange V now c p ^^ j) s1"
        "replication_run V M True s1 s2" "leads V M c s2" "kept c p s1 s2" "matched c p s2" "settled c s2"
      by blast
    have "s2 = (exchange V now c p ^^ Suc j) s" by (simp add: funpow_swap1 s1_def j(2))
    moreover have "Suc j \<le> next_of (nodes (fst s) c) p" using j(1) b by linarith
    moreover have "replication_run V M True s s2" using replication_run_trans [OF j(3) ex(1)] by simp
    moreover have "kept c p s s2" by (rule kept_trans [OF ex(3) j(5)])
    ultimately show ?thesis using j(4,6,7) by blast
  qed
qed

section \<open>A majority\<close>

abbreviation exchanges :: "('b, 'w, 'c) node_env \<Rightarrow> nat \<Rightarrow> string \<Rightarrow> string list \<Rightarrow> ('b, 'w, 'c) replication_state
    \<Rightarrow> ('b, 'w, 'c) replication_state" where
  "exchanges V now c ps \<equiv> fold (exchange V now c) ps"

lemma exchanges_replicate: "exchanges V now c (replicate j p) s = (exchange V now c p ^^ j) s"
  by (induction j arbitrary: s) (simp_all add: funpow_swap1)

lemma kept_next: "kept c p s s' \<Longrightarrow> q \<noteq> p \<Longrightarrow> next_of (nodes (fst s') c) q = next_of (nodes (fst s) c) q"
  by (simp add: kept_def Let_def next_of_def)

lemma kept_matched: "kept c p s s' \<Longrightarrow> q \<noteq> p \<Longrightarrow> q \<noteq> c \<Longrightarrow> matched c q s \<Longrightarrow> matched c q s'"
  by (simp add: kept_def matched_def Let_def)

text \<open>One follower after the other.\<close>

lemma catch_up_all:
  assumes "leads V M c s" and "Q \<noteq> []" and "distinct Q" and "set Q \<subseteq> set M - {c}"
    and "\<forall>p \<in> set Q. current_term (nodes (fst s) p) \<le> current_term (nodes (fst s) c)"
  shows "\<exists>ps s'. set ps \<subseteq> set Q \<and> length ps \<le> (\<Sum>p \<leftarrow> Q. next_of (nodes (fst s) c) p) \<and> s' = exchanges V now c ps s \<and>
    replication_run V M True s s' \<and> leads V M c s' \<and> (\<forall>q. q \<notin> set Q \<longrightarrow> q \<noteq> c \<longrightarrow> matched c q s \<longrightarrow> matched c q s') \<and>
    log (nodes (fst s') c) = log (nodes (fst s) c) \<and> current_term (nodes (fst s') c) = current_term (nodes (fst s) c) \<and>
    (\<forall>p \<in> set Q. matched c p s') \<and> settled c s'"
  using assms
proof (induction Q arbitrary: s)
  case (Cons p Q)
  have p: "p \<in> set M" "p \<noteq> c" "p \<notin> set Q" "current_term (nodes (fst s) p) \<le> current_term (nodes (fst s) c)"
    using Cons.prems by auto
  obtain j s1 where j: "j \<le> next_of (nodes (fst s) c) p" "s1 = exchanges V now c (replicate j p) s"
    "replication_run V M True s s1" "leads V M c s1" "kept c p s s1" "matched c p s1" "settled c s1"
    using catch_up [OF Cons.prems(1) p(1,2,4), of now] unfolding exchanges_replicate by blast
  have l: "log (nodes (fst s1) c) = log (nodes (fst s) c)" "current_term (nodes (fst s1) c) = current_term (nodes (fst s) c)"
    using j(5) by (simp_all add: kept_def Let_def)
  show ?case
  proof (cases "Q = []")
    case True
    have "set (replicate j p) \<subseteq> set (p # Q)" "length (replicate j p) \<le> (\<Sum>p \<leftarrow> p # Q. next_of (nodes (fst s) c) p)"
      using j(1) True by auto
    moreover have "\<forall>q. q \<notin> set (p # Q) \<longrightarrow> q \<noteq> c \<longrightarrow> matched c q s \<longrightarrow> matched c q s1" using kept_matched [OF j(5)] by simp
    moreover have "\<forall>p \<in> set (p # Q). matched c p s1" using j(6) True by simp
    ultimately show ?thesis using j(2-4,7) l by blast
  next
    case False
    have nodes: "nodes (fst s1) q = nodes (fst s) q" if "q \<in> set Q" for q
      using j(5) that p(3) Cons.prems(4) by (auto simp: kept_def Let_def)
    have "distinct Q" "set Q \<subseteq> set M - {c}" "\<forall>q \<in> set Q. current_term (nodes (fst s1) q) \<le> current_term (nodes (fst s1) c)"
      using Cons.prems(3-5) nodes l(2) by simp_all
    from Cons.IH [OF j(4) False this] obtain ps s2 where ps: "set ps \<subseteq> set Q" "length ps \<le> (\<Sum>p \<leftarrow> Q. next_of (nodes (fst s1) c) p)" "s2 = exchanges V now c ps s1"
      "replication_run V M True s1 s2" "leads V M c s2" "\<forall>q. q \<notin> set Q \<longrightarrow> q \<noteq> c \<longrightarrow> matched c q s1 \<longrightarrow> matched c q s2"
      "log (nodes (fst s2) c) = log (nodes (fst s1) c)" "current_term (nodes (fst s2) c) = current_term (nodes (fst s1) c)"
      "\<forall>p \<in> set Q. matched c p s2" "settled c s2"
      by blast
    have "(\<Sum>q \<leftarrow> Q. next_of (nodes (fst s1) c) q) = (\<Sum>q \<leftarrow> Q. next_of (nodes (fst s) c) q)"
      using kept_next [OF j(5)] p(3) by (metis (mono_tags, lifting) map_eq_conv)
    then have "length (replicate j p @ ps) \<le> (\<Sum>p \<leftarrow> p # Q. next_of (nodes (fst s) c) p)" using j(1) ps(2) by simp
    moreover have "set (replicate j p @ ps) \<subseteq> set (p # Q)" using ps(1) by auto
    moreover have "s2 = exchanges V now c (replicate j p @ ps) s" using ps(3) j(2) by simp
    moreover have "replication_run V M True s s2" using replication_run_trans [OF ps(4) j(3)] by simp
    moreover have "\<forall>q. q \<notin> set (p # Q) \<longrightarrow> q \<noteq> c \<longrightarrow> matched c q s \<longrightarrow> matched c q s2" using kept_matched [OF j(5)] ps(6) by simp
    moreover have "\<forall>p \<in> set (p # Q). matched c p s2" using ps(6,9) j(6) p(2,3) by simp
    moreover have "log (nodes (fst s2) c) = log (nodes (fst s) c)" "current_term (nodes (fst s2) c) = current_term (nodes (fst s) c)"
      using ps(7,8) l by simp_all
    ultimately show ?thesis using ps(5,10) by blast
  qed
qed simp

text \<open>C4: Progress: whatever happened in a run as in commit safety, a leader whose log ends with an entry
  of its own term and holds no change of the configuration commits its whole log when it reaches a majority whose terms are not
  higher than its own: at most as many exchanges with these followers as the sum of their \<open>next_index\<close>, which are
  themselves steps of the run, bring them up to date and the commit index to the end of the log.\<close>

theorem leader_commits_with_majority:
  assumes "replication_init V M s" and "replication_run V M b s s1" and "b" and "c \<in> set M"
    and "set Q \<subseteq> set M - {c}" and "distinct Q" and "is_majority M (insert c (set Q))"
  defines "n \<equiv> nodes (fst s1) c"
  assumes "state n = Leader" and "\<forall>p \<in> set Q. current_term (nodes (fst s1) p) \<le> current_term n"
    and "log n \<noteq> []" and "le_term (last (log n)) = current_term n" and "plain (log n)"
  shows "\<exists>ps. length ps \<le> (\<Sum>p \<leftarrow> Q. next_of n p) \<and> (let s2 = exchanges V now c ps s1 in replication_run V M True s1 s2 \<and>
    log (nodes (fst s2) c) = log n \<and> commit_index (nodes (fst s2) c) = length (log n) \<and> (\<forall>p \<in> set Q. prefix (log n) (log (nodes (fst s2) p))))"
proof -
  obtain L T where inv: "replication_inv V M s1 L T"
    using replication_run_onward [OF assms(2,3) replication_init_inv [OF assms(1)]] by blast
  then have ld: "leads V M c s1" using assms(4,9,13) by (auto simp: leads_def n_def)
  have M: "distinct M" "2 \<le> length M"
    using assms(1) by (simp_all add: replication_init_def cluster_init_def)
  have "Q \<noteq> []"
  proof
    assume "Q = []"
    then have "is_majority M {c}" using assms(7) by simp
    moreover have "card ({c} \<inter> set M) \<le> 1" using card_mono [of "{c}" "{c} \<inter> set M"] by simp
    moreover have "2 \<le> card (set M)" using M by (simp add: distinct_card)
    ultimately show False by (simp add: is_majority_def)
  qed
  from catch_up_all [OF ld this assms(6,5), of now] assms(10) obtain ps s2 where
    ps: "length ps \<le> (\<Sum>p \<leftarrow> Q. next_of n p)" "s2 = exchanges V now c ps s1" "replication_run V M True s1 s2"
      "leads V M c s2" "log (nodes (fst s2) c) = log n" "current_term (nodes (fst s2) c) = current_term n"
      "\<forall>p \<in> set Q. matched c p s2" "settled c s2"
    unfolding n_def by blast
  let ?m = "nodes (fst s2) c"
  obtain L' T' where "replication_inv V M s2 L' T'" using ps(4) by (auto simp: leads_def)
  then have cfg: "current_config ?m = Simple (server c # map server (filter (\<lambda>a. a \<noteq> c) M))"
    using members_holdD(5) [OF replication_invD(7)] assms(4) by (cases s2) auto
  have "length (log n) \<le> id_idx (match_index ?m) c (length (log n)) p" if "p \<in> insert c (set Q)" for p
    using that ps(5,7) by (auto simp: id_idx_def matched_def Let_def)
  then have "config_quorum_reached (current_config ?m) (match_index ?m) c (length (log n)) (length (log n))"
    unfolding cfg by (rule majority_quorum [OF M(1) assms(4,7)])
  then have "commit_index ?m = length (log n)" using ps(5,6,8) assms(11,12) by (simp add: settled_def Let_def)
  moreover have "\<forall>p \<in> set Q. prefix (log n) (log (nodes (fst s2) p))" using ps(5,7) by (simp add: matched_def Let_def)
  ultimately show ?thesis using ps(1-3,5) by (auto simp: Let_def)
qed

lemma written_a_facts:
  "log (nodes written_a ''a'') = [\<lparr>le_term = 1, le_index = 1, le_command = CmdSet ''k'' ''v''\<rparr>]"
  "next_of (nodes written_a ''a'') ''b'' = 1" "current_term (nodes written_a ''b'') = 1" "current_term (nodes written_a ''a'') = 1"
  by code_simp+

theorem leader_commits_with_majority_witness:
  "\<exists>ps. length ps \<le> 1 \<and> commit_index (nodes (fst (exchanges V0 0 ''a'' ps (written_a, {}, {}, {}))) ''a'') = 1"
proof -
  have i: "replication_init V0 M3 (init3, {}, {}, {})" using init3_ok quiet_election(1) by (simp add: replication_init_def)
  have r: "replication_run V0 M3 ((((True \<and> True) \<and> True) \<and> True) \<and> True) (init3, {}, {}, {}) (written_a, {}, {}, {})"
    by (rule replication_run.at_start replication_run.one_more committed_steps)+
  have m: "is_majority M3 (insert ''a'' (set [''b'']))"
  proof -
    have "insert ''a'' (set [''b'']) \<inter> set M3 = {''a'', ''b''}" by auto
    then show ?thesis by (simp add: is_majority_def)
  qed
  show ?thesis
    using leader_commits_with_majority [OF i r _ _ _ _ m, of 0] written_a_facts unchanged_peers(2)
    by (auto simp: plain_def Let_def)
qed

end
