(* ===== verification/Startup.thy ===== *)
theory Startup
  imports Client_Props
begin

text \<open>
  Configuration and start of a process (\<open>src/config.rs\<close>, \<open>src/main.rs\<close>): the files of a node, the
  settings taken from the environment, and what \<open>main\<close> does before it listens: open the state
  machine, build the node, restore the snapshot and replay the log. The file system is
  represented by the directories that exist and those that may be created.
\<close>

section \<open>Configuration\<close>

record app_config =
  cfg_node_id :: string
  listen_addr :: string
  client_addr :: string
  cfg_peers :: "string list"
  data_dir_opt :: "string option"

record file_world =
  current_dir :: "string option"
  dirs :: "string list"
  may_create :: "string \<Rightarrow> bool"

text \<open>\<open>PathBuf::join\<close> with a relative path.\<close>

definition path_join :: "string \<Rightarrow> string \<Rightarrow> string" where
  "path_join d f = (if d = [] \<or> last d = CHR ''/'' then d @ f else d @ ''/'' @ f)"

definition base_path_of :: "file_world \<Rightarrow> app_config \<Rightarrow> string" where
  "base_path_of w cfg = (case data_dir_opt cfg of
      Some d \<Rightarrow> d
    | None \<Rightarrow> path_join (case current_dir w of Some d \<Rightarrow> d | None \<Rightarrow> ''.'') ''data'')"

text \<open>\<open>None\<close> is the panic of \<open>create_dir_all(..).expect(..)\<close>.\<close>

definition get_base_path :: "app_config \<Rightarrow> file_world \<Rightarrow> (string \<times> file_world) option" where
  "get_base_path cfg w = (let p = base_path_of w cfg in
     if p \<in> set (dirs w) then Some (p, w)
     else if may_create w p then Some (p, w\<lparr>dirs := p # dirs w\<rparr>) else None)"

definition in_base_path :: "string \<Rightarrow> app_config \<Rightarrow> file_world \<Rightarrow> (string \<times> file_world) option" where
  "in_base_path f cfg w = map_option (\<lambda>(p, w). (path_join p f, w)) (get_base_path cfg w)"

definition cfg_meta_path :: "app_config \<Rightarrow> file_world \<Rightarrow> (string \<times> file_world) option" where
  "cfg_meta_path cfg = in_base_path (''node_'' @ cfg_node_id cfg @ ''_meta.json'') cfg"

definition cfg_wal_path :: "app_config \<Rightarrow> file_world \<Rightarrow> (string \<times> file_world) option" where
  "cfg_wal_path cfg = in_base_path (''node_'' @ cfg_node_id cfg @ ''.wal'') cfg"

definition cfg_snapshot_path :: "app_config \<Rightarrow> file_world \<Rightarrow> (string \<times> file_world) option" where
  "cfg_snapshot_path cfg = in_base_path (''node_'' @ cfg_node_id cfg @ ''_snapshot.json'') cfg"

text \<open>The paths that \<open>RaftStorage::new\<close> asks for, in its order.\<close>

definition storage_paths :: "app_config \<Rightarrow> file_world \<Rightarrow> ((string \<times> string \<times> string) \<times> file_world) option" where
  "storage_paths cfg w =
     (case cfg_wal_path cfg w of None \<Rightarrow> None | Some (wp, w) \<Rightarrow>
      case cfg_meta_path cfg w of None \<Rightarrow> None | Some (mp, w) \<Rightarrow>
      case cfg_snapshot_path cfg w of None \<Rightarrow> None | Some (sp, w) \<Rightarrow> Some ((wp, mp, sp), w))"

text \<open>\<open>std::env::var(name).ok().and_then(|v| v.parse().ok()).unwrap_or(default)\<close>.\<close>

definition env_u64 :: "(string \<rightharpoonup> string) \<Rightarrow> string \<Rightarrow> nat \<Rightarrow> nat" where
  "env_u64 vars name dflt = (case Option.bind (vars name) parse_u64 of Some v \<Rightarrow> v | None \<Rightarrow> dflt)"

definition snapshot_threshold_bytes :: "(string \<rightharpoonup> string) \<Rightarrow> nat" where
  "snapshot_threshold_bytes vars = env_u64 vars ''OXIDE_SNAPSHOT_THRESHOLD_BYTES'' (64 * 1024 * 1024)"

definition tx_timeout_ms :: "(string \<rightharpoonup> string) \<Rightarrow> nat" where
  "tx_timeout_ms vars = env_u64 vars ''OXIDE_TX_TIMEOUT_MS'' 30000"

definition tx_timeout_sweep_interval_ms :: "(string \<rightharpoonup> string) \<Rightarrow> nat" where
  "tx_timeout_sweep_interval_ms vars = env_u64 vars ''OXIDE_TX_TIMEOUT_SWEEP_INTERVAL_MS'' 1000"

section \<open>The start of a process\<close>

record proc_args =
  arg_addr :: string
  arg_client_addr :: string
  arg_peers :: "string list"
  arg_data_dir :: "string option"
  metrics_addr :: string

definition config_of_args :: "proc_args \<Rightarrow> app_config" where
  "config_of_args a = \<lparr>cfg_node_id = arg_addr a, listen_addr = arg_addr a, client_addr = arg_client_addr a,
     cfg_peers = arg_peers a, data_dir_opt = arg_data_dir a\<rparr>"

text \<open>
  Steps 2 to 5 of \<open>main\<close>, on what a former process left on the disk of the state machine and in
  the files of the node. \<open>None\<close> is a panic.
\<close>

definition startup :: "('b, 'w, 'c) node_env \<Rightarrow> nat \<Rightarrow> sm_config \<Rightarrow> app_config \<Rightarrow> 'b lsm_disk \<Rightarrow> ('w, 'c) raft_storage
    \<Rightarrow> ('b, 'w, 'c) raft_node option" where
  "startup V now sm_cfg cfg d st =
     (case fst (sm_open (sm_env_of V) sm_cfg d) of
        Inl _ \<Rightarrow> None
      | Inr sm \<Rightarrow>
          let n = new_node V now (listen_addr cfg) (cfg_peers cfg) sm st;
              n = (if cfg_peers cfg = [] then n\<lparr>state := Leader\<rparr> else n)
          in map_option (\<lambda>(_, m). replay_logs V m) (restore_from_snapshot V n))"

text \<open>The state machine lies in the data directory, with a memtable of up to 4 MiB.\<close>

definition start_process :: "('b, 'w, 'c) node_env \<Rightarrow> nat \<Rightarrow> proc_args \<Rightarrow> file_world \<Rightarrow> 'b lsm_disk \<Rightarrow> ('w, 'c) raft_storage
    \<Rightarrow> ('b, 'w, 'c) raft_node option" where
  "start_process V now a w d st =
     (case get_base_path (config_of_args a) w of
        None \<Rightarrow> None
      | Some (p, w) \<Rightarrow>
          startup V now \<lparr>data_dir = p, memtable_size_threshold = 4194304\<rparr> (config_of_args a) d st)"

text \<open>A crash of a node, and the start of a new process on its files.\<close>

definition reboot :: "('b, 'w, 'c) node_env \<Rightarrow> nat \<Rightarrow> proc_args \<Rightarrow> file_world \<Rightarrow> ('b, 'w, 'c) raft_node
    \<Rightarrow> ('b, 'w, 'c) raft_node option" where
  "reboot V now a w n = start_process V now a w (disk (state_machine_of n)) (storage n)"

section \<open>The files of a node\<close>

lemma path_join_inj [simp]: "path_join d f = path_join d g \<longleftrightarrow> f = g"
  by (simp add: path_join_def)

lemma base_path_dirs [simp]: "base_path_of (w\<lparr>dirs := ds\<rparr>) c = base_path_of w c"
  by (simp add: base_path_of_def split: option.splits)

lemma in_base_path_cases:
  assumes "in_base_path f cfg w = Some (p, w')"
  shows "p = path_join (base_path_of w cfg) f" "base_path_of w' c = base_path_of w c"
    "base_path_of w cfg \<in> set (dirs w')" "set (dirs w) \<subseteq> set (dirs w')"
  using assms by (auto simp: in_base_path_def get_base_path_def Let_def split: if_splits)

lemma storage_paths_cases:
  assumes "storage_paths cfg w = Some ((wp, mp, sp), w')"
  shows "wp = path_join (base_path_of w cfg) (''node_'' @ cfg_node_id cfg @ ''.wal'')"
    "mp = path_join (base_path_of w cfg) (''node_'' @ cfg_node_id cfg @ ''_meta.json'')"
    "sp = path_join (base_path_of w cfg) (''node_'' @ cfg_node_id cfg @ ''_snapshot.json'')"
    "base_path_of w cfg \<in> set (dirs w')" "set (dirs w) \<subseteq> set (dirs w')"
proof -
  from assms obtain w1 w2 where s:
    "in_base_path (''node_'' @ cfg_node_id cfg @ ''.wal'') cfg w = Some (wp, w1)"
    "in_base_path (''node_'' @ cfg_node_id cfg @ ''_meta.json'') cfg w1 = Some (mp, w2)"
    "in_base_path (''node_'' @ cfg_node_id cfg @ ''_snapshot.json'') cfg w2 = Some (sp, w')"
    by (simp only: storage_paths_def cfg_wal_path_def cfg_meta_path_def cfg_snapshot_path_def split: option.splits prod.splits)
      (auto simp only: option.inject prod.inject option.distinct)
  note 1 = in_base_path_cases [OF s(1)] and 2 = in_base_path_cases [OF s(2)] and 3 = in_base_path_cases [OF s(3)]
  show "wp = path_join (base_path_of w cfg) (''node_'' @ cfg_node_id cfg @ ''.wal'')" by (rule 1(1))
  show "mp = path_join (base_path_of w cfg) (''node_'' @ cfg_node_id cfg @ ''_meta.json'')" using 2(1) unfolding 1(2) .
  show "sp = path_join (base_path_of w cfg) (''node_'' @ cfg_node_id cfg @ ''_snapshot.json'')" using 3(1) unfolding 2(2) 1(2) .
  show "base_path_of w cfg \<in> set (dirs w')" using 3(3) unfolding 2(2) 1(2) .
  show "set (dirs w) \<subseteq> set (dirs w')" using 1(4) 2(4) 3(4) by blast
qed

text \<open>Compared from the end, names of different kinds differ.\<close>

lemma suffixes_differ [simp]:
  "''node_'' @ a @ ''.wal'' \<noteq> ''node_'' @ b @ ''_meta.json''" "''node_'' @ a @ ''.wal'' \<noteq> ''node_'' @ b @ ''_snapshot.json''"
  "''node_'' @ a @ ''_meta.json'' \<noteq> ''node_'' @ b @ ''_snapshot.json''"
proof -
  have r: "x = y \<longleftrightarrow> rev x = rev y" for x y :: string by simp
  show "''node_'' @ a @ ''.wal'' \<noteq> ''node_'' @ b @ ''_meta.json''" "''node_'' @ a @ ''.wal'' \<noteq> ''node_'' @ b @ ''_snapshot.json''"
    "''node_'' @ a @ ''_meta.json'' \<noteq> ''node_'' @ b @ ''_snapshot.json''" by (subst r, simp)+
qed

text \<open>Nodes that share a data directory do not share a file: the three files of a node are different from
  each other, and from those of every node with another address. The data directory exists
  afterwards, and no directory disappears.\<close>

theorem storage_files_disjoint:
  assumes "storage_paths cfg w = Some ((wp, mp, sp), w')" and "storage_paths cfg' w = Some ((wp', mp', sp'), w'')"
    and "base_path_of w cfg = base_path_of w cfg'"
  shows "distinct [wp, mp, sp] \<and>
    (cfg_node_id cfg \<noteq> cfg_node_id cfg' \<longrightarrow> {wp, mp, sp} \<inter> {wp', mp', sp'} = {}) \<and>
    base_path_of w cfg \<in> set (dirs w') \<and> set (dirs w) \<subseteq> set (dirs w')"
proof -
  note a = storage_paths_cases [OF assms(1)] and b = storage_paths_cases [OF assms(2), folded assms(3)]
  have "distinct [wp, mp, sp]" unfolding a(1-3) by (simp del: append.simps) 
  moreover have "{wp, mp, sp} \<inter> {wp', mp', sp'} = {}" if "cfg_node_id cfg \<noteq> cfg_node_id cfg'"
    using that unfolding a(1-3) b(1-3) by (simp del: append.simps)
  ultimately show ?thesis using a(4,5) by simp
qed

section \<open>Replay of a log\<close>

text \<open>From two maps and the same staged transactions, a command stages the same transactions, and
  each key ends up either equal in both maps or untouched in both.\<close>

definition same_writes :: "kv_abs \<Rightarrow> kv_abs \<Rightarrow> kv_abs \<Rightarrow> kv_abs \<Rightarrow> bool" where
  "same_writes a a' b b' \<longleftrightarrow> snd b = snd b' \<and> (\<forall>k. fst b k = fst b' k \<or> fst b k = fst a k \<and> fst b' k = fst a' k)"

lemma same_writes_ops: "same_writes (m, st) (m', st) (fold apply_op ops m, st') (fold apply_op ops m', st')"
proof (induction ops arbitrary: m m')
  case (Cons op ops)
  then have "\<forall>k. fold apply_op ops (apply_op op m) k = fold apply_op ops (apply_op op m') k \<or>
      fold apply_op ops (apply_op op m) k = apply_op op m k \<and> fold apply_op ops (apply_op op m') k = apply_op op m' k"
    by (simp add: same_writes_def)
  then show ?case by (cases op) (auto simp: same_writes_def; metis)+
qed (simp add: same_writes_def)

lemma same_writes_step: "snd a = snd a' \<Longrightarrow> same_writes a a' (kv_spec c a) (kv_spec c a')"
  using same_writes_ops by (cases a; cases a'; cases c) (auto simp: same_writes_def split: option.splits)

lemma same_writes_run: "snd a = snd a' \<Longrightarrow> same_writes a a' (fold kv_spec cs a) (fold kv_spec cs a')"
proof (induction cs arbitrary: a a')
  case (Cons c cs)
  from same_writes_step [OF Cons.prems] have s: "same_writes a a' (kv_spec c a) (kv_spec c a')" .
  from Cons.IH [of "kv_spec c a" "kv_spec c a'"] s
  have "same_writes (kv_spec c a) (kv_spec c a') (fold kv_spec (c # cs) a) (fold kv_spec (c # cs) a')"
    by (simp add: same_writes_def)
  with s show ?case unfolding same_writes_def by metis
qed (simp add: same_writes_def)

lemma replay_idempotent:
  "fold kv_spec cs (fst (fold kv_spec cs (m, st)), st) = fold kv_spec cs (m, st)"
  using same_writes_run [of "(m, st)" "(fst (fold kv_spec cs (m, st)), st)" cs]
  by (auto simp: same_writes_def fun_eq_iff prod_eq_iff) metis

lemma replay_logs_spec:
  assumes "sm_ok (sm_env_of V) (state_machine_of n)"
  shows "kv_of V (replay_logs V n) = fold kv_spec (commands (log n)) (kv_of V n)"
    "log (replay_logs V n) = log n" "current_term (replay_logs V n) = current_term n" "vote_for (replay_logs V n) = vote_for n"
    "commit_index (replay_logs V n) = commit_index n" "last_applied (replay_logs V n) = length (log n)"
    "state (replay_logs V n) = state n"
  using lsm.run_kv [OF assms, of "commands (log n)"] by (simp_all add: replay_logs_def Let_def replay_fold)

section \<open>Restart\<close>

text \<open>What a process must have left behind: the log file holds the log, there is no snapshot file, and
  the files of the state machine are complete.\<close>

definition on_files :: "('b, 'w, 'c) node_env \<Rightarrow> ('b, 'w, 'c) raft_node \<Rightarrow> bool" where
  "on_files V n \<longleftrightarrow> restore_wal_log (codec_of V) (storage n) = log n \<and> load_snapshot (codec_of V) (storage n) = None \<and>
     durable (sm_env_of V) (state_machine_of n)"

lemma reboot_spec:
  assumes "node_inv V n" and "on_files V n" and "next_sst_id (state_machine_of n) \<le> 2 ^ 64"
    and "get_base_path (config_of_args a) w = Some (p, w')"
  obtains sm where "reboot V now a w n = Some (replay_logs V
      (let m = new_node V now (arg_addr a) (arg_peers a) sm (storage n) in if arg_peers a = [] then m\<lparr>state := Leader\<rparr> else m))"
    and "sm_ok (sm_env_of V) sm" and "sm_view (sm_env_of V) sm = sm_view (sm_env_of V) (state_machine_of n)"
    and "sm_staged sm = Map.empty" and "durable (sm_env_of V) sm"
proof -
  let ?s = "state_machine_of n" and ?E = "sm_env_of V"
  have ok: "sm_env_ok ?E" "no_faults ?s" "sm_inv ?E ?s" using node_invD(3) [OF assms(1)] by (simp_all add: sm_ok_def)
  let ?cfg = "\<lparr>data_dir = p, memtable_size_threshold = 4194304\<rparr>"
  from open_recovers [OF ok(3,2) _ assms(3), of ?cfg] assms(2) obtain sm where
    s: "fst (sm_open ?E ?cfg (disk ?s)) = Inr sm" "sm_inv ?E sm" "no_faults sm" "sm_view ?E sm = sm_view ?E ?s"
      "pending_txs sm = []" "durable ?E sm" by (auto simp: on_files_def)
  show ?thesis
  proof (rule that [of sm])
    show "reboot V now a w n = Some (replay_logs V
      (let m = new_node V now (arg_addr a) (arg_peers a) sm (storage n) in if arg_peers a = [] then m\<lparr>state := Leader\<rparr> else m))"
      using s(1) assms(2,4)
      by (simp add: reboot_def start_process_def startup_def restore_from_snapshot_def config_of_args_def on_files_def
          new_node_def load_initial_state_def Let_def)
  qed (use s ok in \<open>simp_all add: sm_ok_def sm_staged_def fun_eq_iff\<close>)
qed

lemma reboot_result:
  assumes "node_inv V n" and "on_files V n" and "next_sst_id (state_machine_of n) \<le> 2 ^ 64"
    and "get_base_path (config_of_args a) w = Some (p, w')"
    and "kv_of V n = fold kv_spec (commands (take i (log n))) (m0, Map.empty)"
  obtains r where "reboot V now a w n = Some (replay_logs V r)" and "log r = log n" and "current_term r = current_term n"
    and "vote_for r = vote_for n" and "commit_index r = 0" and "storage r = storage n"
    and "state r = (if arg_peers a = [] then Leader else Follower)" and "node_id r = arg_addr a"
    and "current_config r = Simple (server (arg_addr a) # map server (arg_peers a))"
    and "arg_addr a \<notin> set (arg_peers a) \<longrightarrow> node_inv V r"
    and "sm_ok (sm_env_of V) (state_machine_of r)" and "durable (sm_env_of V) (state_machine_of r)"
    and "kv_of V (replay_logs V r) = fold kv_spec (commands (drop i (log n))) (kv_of V n)"
proof -
  let ?pre = "commands (take i (log n))" and ?suf = "commands (drop i (log n))"
  have cs: "commands (log n) = ?pre @ ?suf" by (metis append_take_drop_id map_append)
  from reboot_spec [OF assms(1-4), of now] obtain sm where
    r: "reboot V now a w n = Some (replay_logs V
      (let m = new_node V now (arg_addr a) (arg_peers a) sm (storage n) in if arg_peers a = [] then m\<lparr>state := Leader\<rparr> else m))"
      (is "_ = Some (replay_logs V ?n)")
    and sm: "sm_ok (sm_env_of V) sm" "sm_view (sm_env_of V) sm = sm_view (sm_env_of V) (state_machine_of n)" "sm_staged sm = Map.empty"
      "durable (sm_env_of V) sm" by blast
  have n: "state_machine_of ?n = sm" "log ?n = log n" "current_term ?n = current_term n" "vote_for ?n = vote_for n" "commit_index ?n = 0"
      "storage ?n = storage n" "state ?n = (if arg_peers a = [] then Leader else Follower)" "node_id ?n = arg_addr a"
      "current_config ?n = Simple (server (arg_addr a) # map server (arg_peers a))"
    using node_invD(2) [OF assms(1)] assms(2)
    by (simp_all add: Let_def new_node_def load_initial_state_def meta_synced_def on_files_def)
  have "kv_of V (replay_logs V ?n) = fold kv_spec (commands (log n)) (fst (kv_of V n), Map.empty)"
    using replay_logs_spec(1) [of V ?n] by (simp add: n sm)
  also have "\<dots> = fold kv_spec ?suf (fold kv_spec ?pre (fst (fold kv_spec ?pre (m0, Map.empty)), Map.empty))"
    unfolding cs assms(5) by simp
  also have "\<dots> = fold kv_spec ?suf (kv_of V n)" unfolding replay_idempotent assms(5) ..
  finally have "kv_of V (replay_logs V ?n) = fold kv_spec ?suf (kv_of V n)" .
  moreover have "arg_addr a \<notin> set (arg_peers a) \<longrightarrow> node_inv V ?n"
    using node_inv_new [OF node_invD(1) [OF assms(1)] sm(1)] by (auto simp: Let_def intro: node_inv_update(2))
  ultimately show ?thesis using sm(1,4) n by (intro that [OF r]) simp_all
qed

text \<open>A restart applies the whole log. A process that starts on the files of a node finds its term, its
  vote and its log; its map and its staged transactions are those of the node with all entries
  applied that were not applied before the crash. In particular a node that had applied its
  whole log comes back with the same map and the same transactions.\<close>

theorem restart_applies_log:
  assumes "node_inv V n" and "on_files V n" and "next_sst_id (state_machine_of n) \<le> 2 ^ 64"
    and "get_base_path (config_of_args a) w = Some (p, w')"
    and "kv_of V n = fold kv_spec (commands (take i (log n))) (m0, Map.empty)"
  shows "\<exists>m. reboot V now a w n = Some m \<and> log m = log n \<and> current_term m = current_term n \<and> vote_for m = vote_for n \<and>
    commit_index m = 0 \<and> last_applied m = length (log n) \<and>
    kv_of V m = fold kv_spec (commands (drop i (log n))) (kv_of V n)"
proof -
  from reboot_result [OF assms, of now] obtain r where r: "reboot V now a w n = Some (replay_logs V r)" "log r = log n"
    "current_term r = current_term n" "vote_for r = vote_for n" "commit_index r = 0" "sm_ok (sm_env_of V) (state_machine_of r)"
    "kv_of V (replay_logs V r) = fold kv_spec (commands (drop i (log n))) (kv_of V n)" .
  then show ?thesis using replay_logs_spec [OF r(6)] by (intro exI [of _ "replay_logs V r"]) simp
qed

section \<open>A single-node cluster survives restarts\<close>

text \<open>What the log file and the snapshot file say together: the snapshot holds the map of the first \<open>c\<close> entries, after
  which no transaction was staged, and the log file holds the other entries. Without a snapshot file it holds all.\<close>

definition files_hold :: "('b, 'w, 'c) node_env \<Rightarrow> (string \<rightharpoonup> string) \<Rightarrow> nat \<Rightarrow> ('b, 'w, 'c) raft_node \<Rightarrow> bool" where
  "files_hold V m0 c n \<longleftrightarrow> restore_wal_log (codec_of V) (storage n) = drop c (log n) \<and>
     (case load_snapshot (codec_of V) (storage n) of
        None \<Rightarrow> c = 0
      | Some sn \<Rightarrow> distinct (map fst (snap_data sn)) \<and>
          fold kv_spec (commands (take c (log n))) (m0, Map.empty) = (map_of (snap_data sn), Map.empty))"

text \<open>A node whose files are complete and whose map and staged transactions are what its log says. The log may hold every
  command but a change of the configuration.\<close>

definition solo_sound :: "('b, 'w, 'c) node_env \<Rightarrow> (string \<rightharpoonup> string) \<Rightarrow> ('b, 'w, 'c) raft_node \<Rightarrow> bool" where
  "solo_sound V m0 n \<longleftrightarrow> solo_ready V n \<and> durable (sm_env_of V) (state_machine_of n) \<and> log_wf (log n) \<and>
     commit_index n \<in> {0, length (log n)} \<and> (\<forall>cfg. CmdInstallConfiguration cfg \<notin> set (commands (log n))) \<and>
     kv_of V n = fold kv_spec (commands (log n)) (m0, Map.empty) \<and> (\<exists>c. files_hold V m0 c n)"

lemma solo_soundD:
  assumes "solo_sound V m0 n"
  shows "solo_ready V n" and "durable (sm_env_of V) (state_machine_of n)" and "log_wf (log n)"
    and "commit_index n \<in> {0, length (log n)}" and "\<And>cfg. CmdInstallConfiguration cfg \<notin> set (commands (log n))"
    and "kv_of V n = fold kv_spec (commands (log n)) (m0, Map.empty)" and "\<exists>c. files_hold V m0 c n"
  using assms unfolding solo_sound_def by blast+

lemma load_snapshot_append: "load_snapshot C (snd (append_wal_log C e s)) = load_snapshot C s"
  by (auto simp: append_wal_log_def sys_call_def write_wal_def create_wal_def load_snapshot_def Let_def
      split: list.splits option.splits)

lemma files_hold_same:
  assumes "log m = log n" and "storage m = storage n"
  shows "files_hold V m0 c m \<longleftrightarrow> files_hold V m0 c n"
  unfolding files_hold_def assms ..

lemma files_hold_append:
  assumes "files_hold V m0 c n" and "log m = log n @ [e]" and "load_snapshot (codec_of V) (storage m) = load_snapshot (codec_of V) (storage n)"
    and "restore_wal_log (codec_of V) (storage m) = restore_wal_log (codec_of V) (storage n) @ [e]"
  shows "\<exists>c. files_hold V m0 c m"
proof (cases "c \<le> length (log n)")
  case True
  then have "files_hold V m0 c m" using assms by (auto simp: files_hold_def split: option.splits)
  then show ?thesis ..
next
  case False
  then have "files_hold V m0 (length (log n)) m" using assms by (auto simp: files_hold_def split: option.splits)
  then show ?thesis ..
qed

lemma solo_write_sound:
  assumes "solo_sound V m0 n" and "mutation c"
  obtains m where "dispatch_command V env fuel now c n = Some (ok_index (length (log n) + 1), m)"
    and "solo_sound V m0 m" and "length (log m) = length (log n) + 1" and "kv_of V m = kv_spec c (kv_of V n)"
proof -
  note s = solo_soundD [OF assms(1)]
  have i: "node_inv V n" "state n = Leader" using s(1) by (simp_all add: solo_ready_def)
  from solo_write [OF s(1) assms(2), of env fuel now] obtain m where
    m: "dispatch_command V env fuel now c n = Some (ok_index (length (log n) + 1), m)" "solo_ready V m"
      "length (log m) = length (log n) + 1" "kv_of V m = kv_spec c (kv_of V n)" "log m = log n @ [next_entry n c]"
      "storage m = storage (snd (propose V c n))" "state_machine_of m = sm_apply (sm_env_of V) c (state_machine_of n)"
      "commit_index m = length (log m)" .
  from propose_good [OF i, of c] obtain st where
    p: "propose V c n = (True, n\<lparr>storage := st, log := log n @ [next_entry n c]\<rparr>)"
      "restore_wal_log (codec_of V) st = restore_wal_log (codec_of V) (storage n) @ [next_entry n c]" by blast
  have "st = storage (snd (propose V c n))" by (simp add: p(1))
  also have "\<dots> = snd (append_wal_log (codec_of V) (next_entry n c) (storage n))"
    using i(2) by (simp add: propose_def append_entry_def split: prod.splits sum.splits)
  finally have "load_snapshot (codec_of V) st = load_snapshot (codec_of V) (storage n)" by (simp add: load_snapshot_append)
  moreover have "storage m = st" by (simp add: m(6) p(1))
  ultimately have f: "\<exists>c. files_hold V m0 c m" using s(7) files_hold_append [OF _ m(5)] p(2) by metis
  have d: "durable (sm_env_of V) (state_machine_of m)" using s(2) sm_apply_durable [OF node_invD(3) [OF i(1)]] by (simp add: m(7))
  have w: "log_wf (log m)" "\<forall>cfg. CmdInstallConfiguration cfg \<notin> set (commands (log m))"
    using s(3,5) assms(2) by (auto simp: m(5) next_entry_def indexed_from_append)
  have "kv_of V m = fold kv_spec (commands (log m)) (m0, Map.empty)" using m(4) s(6) by (simp add: m(5) next_entry_def)
  then have "solo_sound V m0 m" unfolding solo_sound_def using m(2,8) f d w by blast
  then show ?thesis using m(1,3,4) that by blast
qed

text \<open>A tick of the heartbeat loop commits what is not committed yet, and takes a snapshot when the log file is too large.\<close>

lemma solo_sync:
  assumes "solo_ready V n"
  shows "snd (sync_logs V n) \<in> {n, n\<lparr>commit_index := length (log n)\<rparr>}"
proof -
  from assms obtain s where r: "node_inv V n" "state n = Leader" "current_config n = Simple [s]" "node_id_of s = node_id n"
      "commit_index n \<le> length (log n)" "last_applied n = length (log n)" by (auto simp: solo_ready_def)
  have "peers n = []" using node_invD(5) [OF r(1)] r(3,4) by (simp add: peer_addrs_of_def)
  then show ?thesis using r(2,6) single_quorum [OF r(3,4)] by (simp add: sync_logs_def maybe_commit_def Let_def apply_logs_done)
qed

lemma solo_snapshot:
  assumes "solo_sound V m0 n" and "wal_size_bytes (storage n) \<le> th \<or> sm_staged (state_machine_of n) = Map.empty"
  obtains b m where "maybe_snapshot V th n = Some (b, m)" and "solo_sound V m0 m" and "log m = log n" and "kv_of V m = kv_of V n"
proof -
  note s = solo_soundD [OF assms(1)]
  have i: "node_inv V n" "state n = Leader" using s(1) by (simp_all add: solo_ready_def)
  show ?thesis
  proof (cases "wal_size_bytes (storage n) \<le> th \<or> commit_index n = 0")
    case True
    then have "maybe_snapshot V th n = Some (False, n)" using i(2) by (auto simp: maybe_snapshot_def)
    then show ?thesis using that assms(1) by blast
  next
    case False
    then have c: "commit_index n = length (log n)" and st: "sm_staged (state_machine_of n) = Map.empty" using s(4) assms(2) by auto
    let ?C = "codec_of V"
    from node_invD(3) [OF i(1)] have "sm_inv (sm_env_of V) (state_machine_of n)" by (simp add: sm_ok_def)
    from snapshot_data_spec [OF this] obtain data where
      d: "snapshot_data (sm_env_of V) (state_machine_of n) = Inr data" "distinct (map fst data)"
        "map_of data = sm_view (sm_env_of V) (state_machine_of n)" .
    define sn where "sn = \<lparr>last_included_index = length (log n),
      last_included_term = (if length (log n) - 1 < length (log n) then le_term (log n ! (length (log n) - 1)) else 0), snap_data = data\<rparr>"
    define saved where "saved = snd (save_snapshot ?C sn (storage n))"
    define m where "m = n\<lparr>storage := snd (rewrite_wal_after_snapshot ?C (length (log n)) saved)\<rparr>"
    note sv = save_snapshot_good [OF node_invD(1) [OF i(1)], of sn, folded saved_def]
    have rw: "restore_wal_log ?C (storage m) = filter (\<lambda>e. length (log n) < le_index e) (restore_wal_log ?C (storage n))"
      "load_snapshot ?C (storage m) = Some sn"
      using rewrite_wal_good [of ?C saved "length (log n)"] sv by (simp_all add: m_def)
    obtain x where "restore_wal_log ?C (storage n) = drop x (log n)" using s(7) by (auto simp: files_hold_def)
    moreover have "\<forall>e \<in> set (log n). le_index e \<le> length (log n)" using s(3) by (force simp: indexed_from_def in_set_conv_nth)
    ultimately have "restore_wal_log ?C (storage m) = []" using rw(1) by (simp add: filter_empty_conv) (meson in_set_dropD leD)
    then have f: "files_hold V m0 (length (log n)) m"
      using rw(2) d(2,3) s(6) st by (simp add: files_hold_def m_def sn_def)
    have "save_snapshot ?C sn (storage n) = (Inr (), saved)" using sv by (simp add: saved_def prod_eq_iff)
    then have ms: "maybe_snapshot V th n = Some (True, m)"
      using False i(2) c d(1) unfolding maybe_snapshot_def Let_def m_def sn_def by simp
    have "node_inv V m" by (rule node_inv_maybe_snapshot [OF i(1) ms])
    then have "solo_sound V m0 m" using s(1-6) f unfolding solo_sound_def solo_ready_def by (auto simp: m_def)
    then show ?thesis using that [OF ms] by (simp add: m_def)
  qed
qed

lemma solo_tick:
  assumes "solo_sound V m0 n" and "wal_size_bytes (storage n) \<le> th \<or> sm_staged (state_machine_of n) = Map.empty"
  obtains msgs m where "heartbeat_tick V th n = Some (msgs, m)" and "solo_sound V m0 m" and "log m = log n" and "kv_of V m = kv_of V n"
proof -
  let ?n = "snd (sync_logs V n)"
  have l: "state n = Leader" using assms(1) by (simp add: solo_sound_def solo_ready_def)
  have f: "?n = n \<or> ?n = n\<lparr>commit_index := length (log n)\<rparr>" using solo_sync solo_soundD(1) [OF assms(1)] by blast
  let ?c = "n\<lparr>commit_index := length (log n)\<rparr>"
  note s = solo_soundD [OF assms(1)]
  have "solo_ready V ?c" using s(1) node_inv_update(3) by (auto simp: solo_ready_def)
  moreover have "\<exists>c. files_hold V m0 c ?c" using s(7) files_hold_same [of ?c n] by simp
  ultimately have "solo_sound V m0 ?c" using s(2,3,5,6) unfolding solo_sound_def by simp
  then have "solo_sound V m0 ?n" using f assms(1) by auto
  moreover have "wal_size_bytes (storage ?n) \<le> th \<or> sm_staged (state_machine_of ?n) = Map.empty" using f assms(2) by auto
  ultimately obtain b m where "maybe_snapshot V th ?n = Some (b, m)" "solo_sound V m0 m" "log m = log ?n" "kv_of V m = kv_of V ?n"
    by (rule solo_snapshot)
  then show ?thesis using l f by (intro that [of "fst (sync_logs V n)" m]) (auto simp: heartbeat_tick_def split: prod.splits)
qed

text \<open>A run of a single-node cluster: requests that go to the log, with the replies to them, and ticks of the heartbeat loop.
  A snapshot does not hold the staged transactions, so no tick takes one while there are any.\<close>

inductive solo_run :: "('b, 'w, 'c) node_env \<Rightarrow> ('b, 'w, 'c) raft_node \<Rightarrow> (command \<times> json) list \<Rightarrow> ('b, 'w, 'c) raft_node \<Rightarrow> bool"
  for V :: "('b, 'w, 'c) node_env" and n :: "('b, 'w, 'c) raft_node" where
  ready: "solo_run V n [] n"
| request: "solo_run V n rs m \<Longrightarrow> mutation c \<Longrightarrow> dispatch_command V env fuel now c m = Some (reply, k) \<Longrightarrow> solo_run V n (rs @ [(c, reply)]) k"
| tick: "solo_run V n rs m \<Longrightarrow> wal_size_bytes (storage m) \<le> th \<or> sm_staged (state_machine_of m) = Map.empty \<Longrightarrow>
    heartbeat_tick V th m = Some (msgs, k) \<Longrightarrow> solo_run V n rs k"

lemma solo_run_sound:
  assumes "solo_run V n rs m" and "solo_sound V m0 n"
  shows "solo_sound V m0 m \<and> length (log m) = length (log n) + length rs \<and>
    map snd rs = map ok_index [length (log n) + 1 ..< length (log n) + length rs + 1] \<and>
    kv_of V m = fold kv_spec (map fst rs) (kv_of V n)"
  using assms
proof (induction rule: solo_run.induct)
  case (request rs m c env fuel now reply k)
  note m = request.IH [OF request.prems]
  from m have "solo_sound V m0 m" by blast
  from solo_write_sound [OF this request.hyps(2), of env fuel now] obtain k' where
    k: "dispatch_command V env fuel now c m = Some (ok_index (length (log m) + 1), k')" "solo_sound V m0 k'"
      "length (log k') = length (log m) + 1" "kv_of V k' = kv_spec c (kv_of V m)" .
  moreover from this(1) have "k = k'" "reply = ok_index (length (log m) + 1)" using request.hyps(3) by simp_all
  ultimately show ?case using m by simp
next
  case (tick rs m th msgs k)
  note m = tick.IH [OF tick.prems]
  from m have "solo_sound V m0 m" by blast
  from solo_tick [OF this tick.hyps(2)] tick.hyps(3)
  have "solo_sound V m0 k" "log k = log m" "kv_of V k = kv_of V m" by auto
  then show ?case using m by simp
qed simp

lemma replay_keeps_config:
  "\<forall>cfg. CmdInstallConfiguration cfg \<notin> set (commands es) \<Longrightarrow>
   current_config (fold (\<lambda>e. replay_command V (le_command e)) es n) = current_config n"
proof (induction es arbitrary: n)
  case (Cons e es)
  then show ?case by (cases "le_command e") auto
qed simp

text \<open>Without a snapshot file, the new process is sound again.\<close>

lemma reboot_log:
  assumes "solo_sound V m0 n" and "load_snapshot (codec_of V) (storage n) = None" and "next_sst_id (state_machine_of n) \<le> 2 ^ 64"
    and "get_base_path (config_of_args a) w = Some (p, w')" and "arg_peers a = []"
  obtains k where "reboot V now a w n = Some k" and "solo_sound V m0 k" and "kv_of V k = kv_of V n"
proof -
  note s = solo_soundD [OF assms(1)]
  have i: "node_inv V n" using s(1) by (simp add: solo_ready_def)
  have o: "on_files V n" using s(2,7) assms(2) by (auto simp: on_files_def files_hold_def)
  have kv: "kv_of V n = fold kv_spec (commands (take (length (log n)) (log n))) (m0, Map.empty)" using s(6) by simp
  from reboot_result [OF i o assms(3,4) kv, of now] obtain r where r: "reboot V now a w n = Some (replay_logs V r)" "log r = log n"
    "storage r = storage n" "commit_index r = 0" "state r = Leader" "node_id r = arg_addr a" "current_config r = Simple [server (arg_addr a)]"
    "node_inv V r" "sm_ok (sm_env_of V) (state_machine_of r)" "durable (sm_env_of V) (state_machine_of r)"
    "kv_of V (replay_logs V r) = kv_of V n" using assms(5) by auto
  let ?k = "replay_logs V r"
  have f: "storage ?k = storage n" "log ?k = log n" "state ?k = Leader" "commit_index ?k = 0" "last_applied ?k = length (log n)"
    "current_config ?k = Simple [server (arg_addr a)]" "node_id ?k = arg_addr a"
    "state_machine_of ?k = fold (sm_apply (sm_env_of V)) (commands (log n)) (state_machine_of r)"
    using r s(5) by (simp_all add: replay_logs_eq replay_fold replay_keeps_config)
  have "solo_ready V ?k" using f(2-7) node_inv_replay [OF r(8)] by (simp add: solo_ready_def server_def)
  moreover have "durable (sm_env_of V) (state_machine_of ?k)" using run_durable [OF r(9,10)] by (simp add: f)
  moreover have "\<exists>c. files_hold V m0 c ?k" using s(7) files_hold_same [OF f(2,1)] by blast
  ultimately have "solo_sound V m0 ?k" using s(3,5,6) r(11) unfolding solo_sound_def f(2,4) by simp
  then show ?thesis using r(1,11) that by blast
qed

text \<open>With a snapshot file, the new process installs it in place of what it found on the disk of the state machine, and
  replays the rest of the log.\<close>

lemma reboot_snapshot:
  assumes "solo_sound V m0 n" and "load_snapshot (codec_of V) (storage n) = Some sn" and "next_sst_id (state_machine_of n) \<le> 2 ^ 64"
    and "get_base_path (config_of_args a) w = Some (p, w')"
  obtains k where "reboot V now a w n = Some k" and "kv_of V k = kv_of V n"
proof -
  note s = solo_soundD [OF assms(1)]
  let ?s = "state_machine_of n" and ?E = "sm_env_of V" and ?C = "codec_of V"
  have i: "node_inv V n" using s(1) by (simp add: solo_ready_def)
  have ok: "sm_env_ok ?E" "no_faults ?s" "sm_inv ?E ?s" using node_invD(3) [OF i] by (simp_all add: sm_ok_def)
  from s(7) assms(2) obtain c where c: "restore_wal_log ?C (storage n) = drop c (log n)" "distinct (map fst (snap_data sn))"
    "fold kv_spec (commands (take c (log n))) (m0, Map.empty) = (map_of (snap_data sn), Map.empty)" by (auto simp: files_hold_def)
  let ?cfg = "\<lparr>data_dir = p, memtable_size_threshold = 4194304\<rparr>"
  from open_recovers [OF ok(3,2) s(2) assms(3), of ?cfg] obtain sm where
    sm: "fst (sm_open ?E ?cfg (disk ?s)) = Inr sm" "no_faults sm" by auto
  from install_snapshot_spec [OF sm(2) c(2), of ?E] obtain t where
    t: "install_snapshot (snap_data sn) sm = (Inr (), t)" "no_faults t" "sm_inv ?E t" "sm_view ?E t = map_of (snap_data sn)"
      "pending_txs t = []" by metis
  define r where "r = (let m = new_node V now (arg_addr a) (arg_peers a) sm (storage n) in if arg_peers a = [] then m\<lparr>state := Leader\<rparr> else m)"
  define k where "k = r\<lparr>state_machine_of := t, commit_index := max (commit_index r) (last_included_index sn),
    last_applied := max (last_applied r) (last_included_index sn)\<rparr>"
  have rf: "storage r = storage n" "state_machine_of r = sm" "log r = drop c (log n)"
    by (simp_all add: r_def new_node_def load_initial_state_def Let_def c(1) split: prod.splits)
  have "restore_from_snapshot V r = Some (Some (last_included_index sn, last_included_term sn), k)"
    using assms(2) t(1) by (simp add: restore_from_snapshot_def rf k_def)
  then have b: "reboot V now a w n = Some (replay_logs V k)"
    using sm(1) assms(4) by (simp add: reboot_def start_process_def startup_def config_of_args_def r_def Let_def)
  have "sm_ok ?E (state_machine_of k)" using ok(1) t(2,3) by (simp add: k_def sm_ok_def)
  then have "kv_of V (replay_logs V k) = fold kv_spec (commands (drop c (log n))) (kv_of V k)"
    using replay_logs_spec(1) [of V k] by (simp add: k_def rf)
  also have "kv_of V k = fold kv_spec (commands (take c (log n))) (m0, Map.empty)"
    unfolding c(3) using t(4,5) by (simp add: k_def sm_staged_def fun_eq_iff)
  also have "fold kv_spec (commands (drop c (log n))) (fold kv_spec (commands (take c (log n))) (m0, Map.empty)) = kv_of V n"
    unfolding s(6) by (metis append_take_drop_id fold_append comp_apply map_append)
  finally show ?thesis using that [OF b] by blast
qed

text \<open>C16: A single-node cluster survives crashes. It runs on a log without changes of the configuration, which may hold
  staged transactions, and on files that may hold a snapshot: it serves sets, deletes and decisions of transactions, and
  its heartbeat loop commits and takes snapshots, though none while a transaction is staged. Then all requests have been
  acknowledged, with consecutive indices, the next one will be, and the process that starts on the files of the crashed
  one has the map and the staged transactions that the requests gave, as long as the ids of the tables fit in a \<open>u64\<close>.
  If no snapshot was taken, the new process satisfies the assumption about the old one, so that serving and crashing may
  alternate any number of times. After a snapshot it need not: \<open>snapshot_restart_loses_writes\<close> shows what goes wrong.\<close>

theorem solo_survives_restart:
  assumes "solo_sound V m0 n" and "solo_run V n rs m" and "next_sst_id (state_machine_of m) \<le> 2 ^ 64"
    and "get_base_path (config_of_args a) w = Some (p, w')" and "arg_peers a = []"
  shows "map snd rs = map ok_index [length (log n) + 1 ..< length (log n) + length rs + 1] \<and>
    (mutation c \<longrightarrow> (\<exists>m'. dispatch_command V env fuel later c m = Some (ok_index (length (log n) + length rs + 1), m'))) \<and>
    (\<exists>k. reboot V now a w m = Some k \<and> kv_of V k = fold kv_spec (map fst rs) (kv_of V n) \<and>
      (load_snapshot (codec_of V) (storage m) = None \<longrightarrow> solo_sound V m0 k))"
proof -
  from solo_run_sound [OF assms(2,1)] have m: "solo_sound V m0 m" "length (log m) = length (log n) + length rs"
    "map snd rs = map ok_index [length (log n) + 1 ..< length (log n) + length rs + 1]"
    "kv_of V m = fold kv_spec (map fst rs) (kv_of V n)" by blast+
  have "\<exists>k. reboot V now a w m = Some k \<and> kv_of V k = kv_of V m \<and> (load_snapshot (codec_of V) (storage m) = None \<longrightarrow> solo_sound V m0 k)"
  proof (cases "load_snapshot (codec_of V) (storage m)")
    case None
    then show ?thesis using reboot_log [OF m(1) None assms(3-5), of now] by blast
  next
    case (Some sn)
    then show ?thesis using reboot_snapshot [OF m(1) Some assms(3,4), of now] by (metis option.distinct(1))
  qed
  then show ?thesis using m(2-4) solo_write_sound [OF m(1), of c env fuel later] by metis
qed

section \<open>Examples\<close>

definition any_dir :: file_world where
  "any_dir = \<lparr>current_dir = Some ''/srv'', dirs = [], may_create = (\<lambda>_. True)\<rparr>"

definition args_of :: "string \<Rightarrow> string list \<Rightarrow> proc_args" where
  "args_of a ps = \<lparr>arg_addr = a, arg_client_addr = ''client'', arg_peers = ps, arg_data_dir = None, metrics_addr = ''disabled''\<rparr>"

lemma any_dir_base: "get_base_path (config_of_args (args_of a ps)) any_dir = Some (''/srv/data'', any_dir\<lparr>dirs := [''/srv/data'']\<rparr>)"
  by (simp add: get_base_path_def base_path_of_def any_dir_def config_of_args_def args_of_def path_join_def Let_def)

theorem storage_files_disjoint_witness:
  "\<exists>ps qs w1 w2. storage_paths (config_of_args (args_of ''a'' [])) any_dir = Some (ps, w1) \<and>
     storage_paths (config_of_args (args_of ''b'' [])) any_dir = Some (qs, w2) \<and> fst ps \<noteq> fst qs"
proof -
  let ?c = "\<lambda>x. config_of_args (args_of x [])"
  have 1: "storage_paths (?c ''a'') any_dir = Some ((''/srv/data/node_a.wal'', ''/srv/data/node_a_meta.json'', ''/srv/data/node_a_snapshot.json''),
      any_dir\<lparr>dirs := [''/srv/data'']\<rparr>)"
    "storage_paths (?c ''b'') any_dir = Some ((''/srv/data/node_b.wal'', ''/srv/data/node_b_meta.json'', ''/srv/data/node_b_snapshot.json''),
      any_dir\<lparr>dirs := [''/srv/data'']\<rparr>)"
    by (simp_all add: storage_paths_def cfg_wal_path_def cfg_meta_path_def cfg_snapshot_path_def in_base_path_def
        get_base_path_def base_path_of_def any_dir_def config_of_args_def args_of_def path_join_def Let_def)
  have "base_path_of any_dir (?c ''a'') = base_path_of any_dir (?c ''b'')" "cfg_node_id (?c ''a'') \<noteq> cfg_node_id (?c ''b'')"
    by (simp_all add: base_path_of_def config_of_args_def args_of_def)
  from storage_files_disjoint [OF 1 this(1)] this(2) show ?thesis unfolding 1 by (intro exI conjI refl) auto
qed

text \<open>A single node with a staged transaction, and a life of it: a write, a tick that finds the log file small, the commit of
  the transaction, a tick that takes a snapshot, and another write.\<close>

definition staged_solo :: ex_node where
  "staged_solo = snd (sync_logs V0 (snd (propose V0 (CmdBeginTx ''t'' [TxPut ''k'' ''v'']) solo)))"

definition served :: "command \<Rightarrow> ex_node \<Rightarrow> ex_node" where
  "served c n = (case dispatch_command V0 (calm solo) 0 1 c n of Some (_, m) \<Rightarrow> m | None \<Rightarrow> n)"

definition ticked :: "nat \<Rightarrow> ex_node \<Rightarrow> ex_node" where
  "ticked th n = (case heartbeat_tick V0 th n of Some (_, m) \<Rightarrow> m | None \<Rightarrow> n)"

definition decided_solo :: ex_node where
  "decided_solo = served (CmdDecideTx ''t'' Commit) (ticked 1000 (served (CmdSet ''j'' ''w'') staged_solo))"

definition last_solo :: ex_node where
  "last_solo = served (CmdDelete ''j'') (ticked 0 decided_solo)"

lemma staged_solo_sound: "solo_sound V0 Map.empty staged_solo"
proof -
  let ?c = "CmdBeginTx ''t'' [TxPut ''k'' ''v'']"
  have sm: "state_machine_of staged_solo = sm_apply (sm_env_of V0) ?c (state_machine_of solo)" "state_machine_of solo = fresh_sm 1000" by code_simp+
  have l: "log staged_solo = [\<lparr>le_term = current_term solo, le_index = 1, le_command = ?c\<rparr>]"
    "current_config staged_solo = Simple [server ''a'']" "node_id_of (server ''a'') = node_id staged_solo" "state staged_solo = Leader"
    "commit_index staged_solo = 1" "last_applied staged_solo = 1" by code_simp+
  have i: "node_inv V0 solo" using solo_solo by (simp add: solo_ready_def)
  have "node_inv V0 staged_solo"
    unfolding staged_solo_def using node_inv_sync [OF node_inv_proposals(1) [OF i, of ?c]] .
  then have "solo_ready V0 staged_solo" using l by (auto simp: solo_ready_def)
  moreover have "durable (sm_env_of V0) (state_machine_of staged_solo)" by code_simp
  moreover have "kv_of V0 staged_solo = fold kv_spec (commands (log staged_solo)) (Map.empty, Map.empty)"
    using lsm.run_kv [OF node_invD(3) [OF i], of "[?c]"] by (simp add: sm l fresh_sm_empty)
  moreover have "files_hold V0 Map.empty 0 staged_solo"
  proof -
    have "restore_wal_log (codec_of V0) (storage staged_solo) = log staged_solo" "load_snapshot (codec_of V0) (storage staged_solo) = None"
      by code_simp+
    then show ?thesis by (simp add: files_hold_def)
  qed
  ultimately show ?thesis using l unfolding solo_sound_def by auto
qed

lemma run_served:
  assumes "solo_sound V0 m0 n" and "solo_run V0 n rs m" and "mutation c"
  shows "\<exists>reply. solo_run V0 n (rs @ [(c, reply)]) (served c m)"
proof -
  have "solo_sound V0 m0 m" using solo_run_sound [OF assms(2,1)] by blast
  from solo_write_sound [OF this assms(3), of "calm solo" 0 1] obtain k where
    k: "dispatch_command V0 (calm solo) 0 1 c m = Some (ok_index (length (log m) + 1), k)" .
  then have "served c m = k" by (simp add: served_def)
  then show ?thesis using solo_run.request [OF assms(2,3) k] by blast
qed

lemma run_ticked:
  assumes "solo_sound V0 m0 n" and "solo_run V0 n rs m" and "wal_size_bytes (storage m) \<le> th \<or> sm_staged (state_machine_of m) = Map.empty"
  shows "solo_run V0 n rs (ticked th m)"
proof -
  have "solo_sound V0 m0 m" using solo_run_sound [OF assms(2,1)] by blast
  from solo_tick [OF this assms(3)] obtain msgs k where k: "heartbeat_tick V0 th m = Some (msgs, k)" .
  then have "ticked th m = k" by (simp add: ticked_def)
  then show ?thesis using solo_run.tick [OF assms(2,3) k] by blast
qed

lemma last_solo_run:
  "\<exists>i j k. solo_run V0 staged_solo [(CmdSet ''j'' ''w'', i), (CmdDecideTx ''t'' Commit, j), (CmdDelete ''j'', k)] last_solo"
proof -
  note run = run_served [OF staged_solo_sound] and tick = run_ticked [OF staged_solo_sound]
  from run [OF solo_run.ready, of "CmdSet ''j'' ''w''"] obtain i where
    1: "solo_run V0 staged_solo [(CmdSet ''j'' ''w'', i)] (served (CmdSet ''j'' ''w'') staged_solo)" by auto
  have "wal_size_bytes (storage (served (CmdSet ''j'' ''w'') staged_solo)) \<le> 1000" by code_simp
  from run [OF tick [OF 1 disjI1 [OF this]], of "CmdDecideTx ''t'' Commit"] obtain j where
    2: "solo_run V0 staged_solo [(CmdSet ''j'' ''w'', i), (CmdDecideTx ''t'' Commit, j)] decided_solo" by (auto simp: decided_solo_def)
  have "pending_txs (state_machine_of decided_solo) = []" by code_simp
  then have "sm_staged (state_machine_of decided_solo) = Map.empty" by (simp add: sm_staged_def fun_eq_iff)
  from run [OF tick [OF 2 disjI2 [OF this], of 0], of "CmdDelete ''j''"] show ?thesis by (auto simp: last_solo_def)
qed

theorem solo_survives_restart_witness:
  "load_snapshot (codec_of V0) (storage last_solo) \<noteq> None \<and> sm_staged (state_machine_of staged_solo) ''t'' \<noteq> None \<and>
   (\<exists>k. reboot V0 9 (args_of ''a'' []) any_dir last_solo = Some k \<and> sm_staged (state_machine_of k) = Map.empty \<and>
     sm_view (sm_env_of V0) (state_machine_of k) = [''k'' \<mapsto> ''v''])"
proof -
  have f: "load_snapshot (codec_of V0) (storage last_solo) \<noteq> None"
    "commands (log staged_solo) = [CmdBeginTx ''t'' [TxPut ''k'' ''v'']]" by code_simp+
  have n: "next_sst_id (state_machine_of last_solo) = 0" by code_simp
  from last_solo_run obtain i j k where
    r: "solo_run V0 staged_solo [(CmdSet ''j'' ''w'', i), (CmdDecideTx ''t'' Commit, j), (CmdDelete ''j'', k)] last_solo" by blast
  have kv: "kv_of V0 staged_solo = (Map.empty, [''t'' \<mapsto> [TxPut ''k'' ''v'']])"
    using solo_soundD(6) [OF staged_solo_sound] by (simp add: f(2))
  have ps: "arg_peers (args_of ''a'' []) = []" and "next_sst_id (state_machine_of last_solo) \<le> 2 ^ 64" by (simp_all add: args_of_def n)
  from solo_survives_restart [OF staged_solo_sound r this(2) any_dir_base ps,
      where now = 9 and c = CmdCompact and env = "calm solo" and fuel = 0 and later = 0] obtain k' where
    k': "reboot V0 9 (args_of ''a'' []) any_dir last_solo = Some k'"
      "kv_of V0 k' = fold kv_spec [CmdSet ''j'' ''w'', CmdDecideTx ''t'' Commit, CmdDelete ''j''] (kv_of V0 staged_solo)"
    by (simp only: list.map fst_conv) blast
  then have "sm_staged (state_machine_of k') = Map.empty" "sm_view (sm_env_of V0) (state_machine_of k') = [''k'' \<mapsto> ''v'']"
    unfolding kv by (auto simp: fun_eq_iff)
  moreover have "sm_staged (state_machine_of staged_solo) ''t'' \<noteq> None" using arg_cong [OF kv, of snd] by simp
  ultimately show ?thesis using k'(1) f(1) by blast
qed

theorem restart_applies_log_witness:
  "\<exists>m. reboot V0 9 (args_of ''a'' [''b'', ''c'']) any_dir leader_a1 = Some m \<and> last_applied leader_a1 = 0 \<and> last_applied m = 1 \<and>
     sm_view (sm_env_of V0) (state_machine_of m) ''k'' = Some ''v''"
proof -
  have f: "restore_wal_log (codec_of V0) (storage leader_a1) = log leader_a1" "load_snapshot (codec_of V0) (storage leader_a1) = None"
    "durable (sm_env_of V0) (state_machine_of leader_a1)" "next_sst_id (state_machine_of leader_a1) = 0" by code_simp+
  have "kv_of V0 leader_a1 = fold kv_spec (commands (take 0 (log leader_a1))) (Map.empty, Map.empty)"
    using committed_views(1) by (simp add: committed_a_def)
  from restart_applies_log [OF ex_inv(4) _ _ any_dir_base this, of 9 "''a''" "[''b'', ''c'']"] f
  show ?thesis using committed_views(1) by (auto simp: on_files_def leader_facts entry_def committed_a_def)
qed

end
