(* ===== verification/Recovery.thy ===== *)
theory Recovery
  imports Startup StaleRead "HOL-Library.Code_Target_Nat"
begin

text \<open>
  Runs in which a restart (\<open>src/main.rs\<close>, step 5) breaks the replicated state. Every node
  of a run is the result of the handlers of \<open>Node\<close>, applied to messages that other nodes built,
  or of the start of a process on the files that a node left behind. The disks do not fail.
\<close>

section \<open>Three nodes\<close>

definition node3 :: "string \<Rightarrow> ex_node" where
  "node3 x = ex_start x (filter (\<lambda>p. p \<noteq> x) [''a'', ''b'', ''c''])"

text \<open>The candidate gets the vote of one other node, and with it a majority.\<close>

definition elect3 :: "ex_node \<Rightarrow> ex_node \<Rightarrow> ex_node" where
  "elect3 n v = (case become_candidate V0 1 n of (r, _, c) \<Rightarrow> snd (vote_reply_handler V0 2 (vote_of5 c v) (r, c)))"

abbreviation writes_k :: "string \<Rightarrow> ex_node \<Rightarrow> ex_node" where
  "writes_k v n \<equiv> snd (propose V0 (CmdSet ''k'' v) n)"

definition delivered :: "ex_node \<Rightarrow> string \<Rightarrow> ex_node \<Rightarrow> ex_node" where
  "delivered l p f = snd (handle_append_entries V0 1 (append_args_for l p) f)"

definition rebooted :: "ex_node \<Rightarrow> ex_node" where
  "rebooted n = (case reboot V0 3 (args_of (node_id n) (peers n)) any_dir n of Some m \<Rightarrow> m | None \<Rightarrow> n)"

definition compacted_node :: "ex_node \<Rightarrow> ex_node" where
  "compacted_node n = (case maybe_snapshot V0 0 n of Some (True, m) \<Rightarrow> m | _ \<Rightarrow> n)"

text \<open>What a run shows of a node.\<close>

definition seen :: "ex_node \<Rightarrow> (node_state \<times> nat) \<times> (nat \<times> nat) \<times> log_entry list \<times> string option" where
  "seen n = ((state n, current_term n), (commit_index n, last_applied n), log n, sm_get (sm_env_of V0) (state_machine_of n) ''k'')"

abbreviation entry_k :: "nat \<Rightarrow> string \<Rightarrow> log_entry" where
  "entry_k t v \<equiv> \<lparr>le_term = t, le_index = 1, le_command = CmdSet ''k'' v\<rparr>"

section \<open>A restart applies entries that are not committed\<close>

text \<open>Term 1: \<open>a\<close> wins with the vote of \<open>b\<close>, appends an entry, and crashes before it sends it.\<close>

definition crashed_a :: ex_node where
  "crashed_a = writes_k ''1'' (elect3 (node3 ''a'') (node3 ''b''))"

definition voter_b :: ex_node where
  "voter_b = voted (campaigning (node3 ''a'')) (node3 ''b'')"

text \<open>Term 2: \<open>c\<close> wins with the vote of \<open>b\<close> and commits another entry with it.\<close>

definition candidate_c :: ex_node where
  "candidate_c = campaigning (node3 ''c'')"

definition leader_c :: ex_node where
  "leader_c = acked 4 (writes_k ''2'' (elect3 candidate_c voter_b)) ''b'' (voted (campaigning candidate_c) voter_b)"

text \<open>The new process of \<open>a\<close> takes the entry of \<open>c\<close> and hears that it is committed.\<close>

definition follower_a :: ex_node where
  "follower_a = delivered leader_c ''a'' (rebooted crashed_a)"

lemma leader_c_seen: "seen leader_c = ((Leader, 2), (1, 1), [entry_k 2 ''2''], Some ''2'')"
  by code_simp

lemma follower_a_seen: "seen follower_a = ((Follower, 2), (1, 1), [entry_k 2 ''2''], Some ''1'')"
  by code_simp

text \<open>A restart applies entries that are not committed. In a three-node cluster a leader crashes after it
  appended an entry that nobody else stores; its new process applies the entry at once. When another
  entry is committed at the same index, the node stores it and counts it as applied without
  applying it: two nodes with the same log, the same commit index and the same applied index
  hold different maps.\<close>

theorem restart_applies_uncommitted:
  "log follower_a = log leader_c \<and> commit_index follower_a = 1 \<and> commit_index leader_c = 1 \<and>
   last_applied follower_a = 1 \<and> last_applied leader_c = 1 \<and>
   sm_get (sm_env_of V0) (state_machine_of follower_a) ''k'' = Some ''1'' \<and>
   sm_get (sm_env_of V0) (state_machine_of leader_c) ''k'' = Some ''2''"
  using leader_c_seen follower_a_seen by (simp add: seen_def)

section \<open>Entries that were removed come back\<close>

text \<open>The same follower crashes once more: the log file still holds the entry that was replaced.\<close>

lemma rebooted_follower_seen:
  "seen (rebooted follower_a) = ((Follower, 2), (0, 2), [entry_k 1 ''1'', entry_k 2 ''2''], Some ''2'')"
  by code_simp

text \<open>Entries that a follower removed from its log come back after a restart: \<open>handle_append_entries\<close> truncates
  the log in memory and appends to the log file only. The new log is not numbered any more.\<close>

theorem removed_entries_return:
  "log follower_a = [entry_k 2 ''2''] \<and> log (rebooted follower_a) = [entry_k 1 ''1'', entry_k 2 ''2''] \<and>
   log_wf (log follower_a) \<and> \<not> log_wf (log (rebooted follower_a))"
  using rebooted_follower_seen follower_a_seen by (simp add: seen_def)

section \<open>A snapshot and a restart lose committed entries\<close>

text \<open>Term 1: \<open>a\<close> wins with the vote of \<open>b\<close>, commits an entry with it, and takes a snapshot.\<close>

definition leader_snap :: ex_node where
  "leader_snap = compacted_node (acked 4 crashed_a ''b'' voter_b)"

text \<open>Term 2: \<open>c\<close>, which has no entries, wins with the vote of the new process of \<open>a\<close> and commits another entry with it.\<close>

definition snap_voter :: ex_node where
  "snap_voter = rebooted leader_snap"

definition leader_c2 :: ex_node where
  "leader_c2 = acked 6 (writes_k ''2'' (elect3 candidate_c snap_voter)) ''a'' (voted (campaigning candidate_c) snap_voter)"

lemma leader_snap_seen: "seen leader_snap = ((Leader, 1), (1, 1), [entry_k 1 ''1''], Some ''1'')"
  by code_simp

lemma snap_voter_seen: "seen snap_voter = ((Follower, 1), (1, 0), [], Some ''1'')"
  by code_simp

lemma leader_c2_seen: "seen leader_c2 = ((Leader, 2), (1, 1), [entry_k 2 ''2''], Some ''2'')"
  by code_simp

text \<open>C37: A snapshot and a restart lose committed entries. After a snapshot the log file of the leader is empty,
  and its new process has an empty log, which the election restriction counts as the oldest one, and
  an applied index below the commit index. It votes for a node that never stored the committed
  entry; that node wins and commits another command at the same index.\<close>

theorem snapshot_restart_loses_commits:
  "commit_index leader_snap = 1 \<and> log leader_snap ! 0 = entry_k 1 ''1'' \<and>
   log snap_voter = [] \<and> last_applied snap_voter < commit_index snap_voter \<and>
   state leader_c2 = Leader \<and> commit_index leader_c2 = 1 \<and> log leader_c2 ! 0 = entry_k 2 ''2'' \<and>
   sm_get (sm_env_of V0) (state_machine_of leader_c2) ''k'' = Some ''2''"
  using leader_snap_seen snap_voter_seen leader_c2_seen by (simp add: seen_def)

section \<open>A single node loses acknowledged writes\<close>

text \<open>A single node stores a write, takes a snapshot and is restarted; the new process acknowledges another write.\<close>

definition solo_snap :: ex_node where
  "solo_snap = ticked 0 (served (CmdSet ''k'' ''1'') solo)"

definition solo_next :: ex_node where
  "solo_next = served (CmdSet ''k'' ''2'') (rebooted solo_snap)"

text \<open>The new process numbers its entries from 1 again, below its commit index: the second write is acknowledged, but it is
  neither committed nor applied. The next snapshot removes it from the log file without holding its value, so that it is
  gone after another restart.\<close>

theorem snapshot_restart_loses_writes:
  "map_option fst (dispatch_command V0 (calm solo) 0 1 (CmdSet ''k'' ''2'') (rebooted solo_snap)) = Some (ok_index 1) \<and>
   seen (rebooted solo_snap) = ((Leader, 1), (1, 0), [], Some ''1'') \<and>
   seen solo_next = ((Leader, 1), (1, 0), [entry_k 1 ''2''], Some ''1'') \<and>
   seen (rebooted (ticked 0 solo_next)) = ((Leader, 1), (1, 0), [], Some ''1'')"
proof (intro conjI)
  show "map_option fst (dispatch_command V0 (calm solo) 0 1 (CmdSet ''k'' ''2'') (rebooted solo_snap)) = Some (ok_index 1)" by code_simp
  show "seen (rebooted solo_snap) = ((Leader, 1), (1, 0), [], Some ''1'')" by code_simp
  show "seen solo_next = ((Leader, 1), (1, 0), [entry_k 1 ''2''], Some ''1'')" by code_simp
  show "seen (rebooted (ticked 0 solo_next)) = ((Leader, 1), (1, 0), [], Some ''1'')" by code_simp
qed

text \<open>A snapshot does not hold staged transactions, and removes their entries from the log file: after a restart the
  transaction is unknown, and a decision about it does nothing.\<close>

theorem snapshot_loses_staged_tx:
  "map_of (pending_txs (state_machine_of staged_solo)) ''t'' \<noteq> None \<and>
   pending_txs (state_machine_of (rebooted (ticked 0 staged_solo))) = [] \<and>
   sm_get (sm_env_of V0) (state_machine_of (served (CmdDecideTx ''t'' Commit) staged_solo)) ''k'' = Some ''v'' \<and>
   sm_get (sm_env_of V0) (state_machine_of (served (CmdDecideTx ''t'' Commit) (rebooted (ticked 0 staged_solo)))) ''k'' = None"
proof (intro conjI)
  show "map_of (pending_txs (state_machine_of staged_solo)) ''t'' \<noteq> None" by code_simp
  show "pending_txs (state_machine_of (rebooted (ticked 0 staged_solo))) = []" by code_simp
  show "sm_get (sm_env_of V0) (state_machine_of (served (CmdDecideTx ''t'' Commit) staged_solo)) ''k'' = Some ''v''" by code_simp
  show "sm_get (sm_env_of V0) (state_machine_of (served (CmdDecideTx ''t'' Commit) (rebooted (ticked 0 staged_solo)))) ''k'' = None"
    by code_simp
qed

end
