(* ===== verification/Observability.thy ===== *)
theory Observability
  imports Startup "HOL-Library.Word"
begin

text \<open>
  Metrics and their endpoint (\<open>src/observability/registry.rs\<close>, \<open>src/observability/server.rs\<close>, and the
  metric calls of \<open>src/raft/node.rs\<close>, \<open>src/client.rs\<close> and \<open>src/raft/coordinator.rs\<close>). A gauge is an integer, the text
  encoder of the prometheus crate is a parameter. Bytes are characters; the request is read in
  pieces of any size.
\<close>

section \<open>The registry\<close>

record metrics =
  raft_term :: int
  raft_commit_index :: int
  raft_last_applied :: int
  raft_log_length :: int
  raft_role :: int
  raft_snapshot_age_seconds :: int
  raft_snapshot_bytes :: int
  tx_pending_gauge :: int
  tx_timeout_aborted_total :: nat
  tx_admin_aborted_total :: nat
  peer_match_gauge :: "string \<rightharpoonup> int"
  peer_next_gauge :: "string \<rightharpoonup> int"

text \<open>\<open>as i64\<close> of an unsigned 64-bit number.\<close>

definition as_i64 :: "nat \<Rightarrow> int" where
  "as_i64 n = sint (word_of_nat n :: 64 word)"

definition set_peer_match_index :: "string \<Rightarrow> int \<Rightarrow> metrics \<Rightarrow> metrics" where
  "set_peer_match_index peer v m = m\<lparr>peer_match_gauge := (peer_match_gauge m)(peer \<mapsto> v)\<rparr>"

definition set_peer_next_index :: "string \<Rightarrow> int \<Rightarrow> metrics \<Rightarrow> metrics" where
  "set_peer_next_index peer v m = m\<lparr>peer_next_gauge := (peer_next_gauge m)(peer \<mapsto> v)\<rparr>"

definition with_peers :: "string list \<Rightarrow> metrics" where
  "with_peers initial_peers =
     fold (\<lambda>p m. set_peer_next_index p 0 (set_peer_match_index p 0 m)) initial_peers
       \<lparr>raft_term = 0, raft_commit_index = 0, raft_last_applied = 0, raft_log_length = 0, raft_role = 0,
        raft_snapshot_age_seconds = -1, raft_snapshot_bytes = -1, tx_pending_gauge = 0,
        tx_timeout_aborted_total = 0, tx_admin_aborted_total = 0, peer_match_gauge = Map.empty, peer_next_gauge = Map.empty\<rparr>"

fun role_code :: "node_state \<Rightarrow> int" where
  "role_code Follower = 0"
| "role_code Candidate = 1"
| "role_code Leader = 2"
| "role_code PreCandidate = 3"

section \<open>Updates\<close>

definition refresh_metrics :: "('b, 'w, 'c) raft_node \<Rightarrow> metrics \<Rightarrow> metrics" where
  "refresh_metrics n m = m\<lparr>raft_term := as_i64 (current_term n), raft_commit_index := as_i64 (commit_index n),
     raft_last_applied := as_i64 (last_applied n), raft_log_length := as_i64 (length (log n)), raft_role := role_code (state n)\<rparr>"

text \<open>The snapshot file as \<open>set_metrics\<close> finds it: its age, if the clock gives one, and its size.\<close>

definition set_metrics :: "(nat option \<times> nat) option \<Rightarrow> metrics \<Rightarrow> metrics" where
  "set_metrics snap_file m = (case snap_file of
      None \<Rightarrow> m
    | Some (age, len) \<Rightarrow>
        (case age of None \<Rightarrow> m | Some s \<Rightarrow> m\<lparr>raft_snapshot_age_seconds := as_i64 s\<rparr>)\<lparr>raft_snapshot_bytes := as_i64 len\<rparr>)"

text \<open>After a snapshot was written: the age is 0, the size that of the file.\<close>

definition snapshot_written :: "nat option \<Rightarrow> metrics \<Rightarrow> metrics" where
  "snapshot_written len m = (case len of
      None \<Rightarrow> m\<lparr>raft_snapshot_age_seconds := 0\<rparr>
    | Some l \<Rightarrow> m\<lparr>raft_snapshot_age_seconds := 0, raft_snapshot_bytes := as_i64 l\<rparr>)"

definition refresh_tx_pending :: "('b, 'w, 'c) raft_node \<Rightarrow> metrics \<Rightarrow> metrics" where
  "refresh_tx_pending n m = m\<lparr>tx_pending_gauge := as_i64 (pending_tx_count (state_machine_of n))\<rparr>"

text \<open>The operations of a node together with the metrics they update. Where an operation ends early, the
  call of \<open>refresh_metrics\<close> is not reached.\<close>

definition metered_propose :: "('b, 'w, 'c) node_env \<Rightarrow> command \<Rightarrow> ('b, 'w, 'c) raft_node \<times> metrics
    \<Rightarrow> bool \<times> ('b, 'w, 'c) raft_node \<times> metrics" where
  "metered_propose V c s = (case propose V c (fst s) of (ok, n) \<Rightarrow> (ok, n, if ok then refresh_metrics n (snd s) else snd s))"

definition metered_propose_batch :: "('b, 'w, 'c) node_env \<Rightarrow> command list \<Rightarrow> ('b, 'w, 'c) raft_node \<times> metrics
    \<Rightarrow> bool \<times> ('b, 'w, 'c) raft_node \<times> metrics" where
  "metered_propose_batch V cs s = (case propose_batch V cs (fst s) of (ok, n) \<Rightarrow> (ok, n, if ok then refresh_metrics n (snd s) else snd s))"

definition metered_abort_tx :: "('b, 'w, 'c) node_env \<Rightarrow> string \<Rightarrow> ('b, 'w, 'c) raft_node \<times> metrics
    \<Rightarrow> (abort_tx_error + nat) \<times> ('b, 'w, 'c) raft_node \<times> metrics" where
  "metered_abort_tx V tx s = (case propose_abort_tx V tx (fst s) of
      (Inl e, n) \<Rightarrow> (Inl e, n, snd s)
    | (Inr i, n) \<Rightarrow> (Inr i, n, refresh_metrics n (snd s)))"

text \<open>The proposals of a membership change append to the log and do not refresh.\<close>

definition metered_add_node :: "('b, 'w, 'c) node_env \<Rightarrow> server_id \<Rightarrow> ('b, 'w, 'c) raft_node \<times> metrics
    \<Rightarrow> (membership_error + nat) \<times> ('b, 'w, 'c) raft_node \<times> metrics" where
  "metered_add_node V srv s = (case propose_add_node V srv (fst s) of (r, n) \<Rightarrow> (r, n, snd s))"

definition metered_remove_node :: "('b, 'w, 'c) node_env \<Rightarrow> string \<Rightarrow> ('b, 'w, 'c) raft_node \<times> metrics
    \<Rightarrow> (membership_error + nat) \<times> ('b, 'w, 'c) raft_node \<times> metrics" where
  "metered_remove_node V nid s = (case propose_remove_node V nid (fst s) of (r, n) \<Rightarrow> (r, n, snd s))"

definition metered_apply_logs :: "('b, 'w, 'c) node_env \<Rightarrow> ('b, 'w, 'c) raft_node \<times> metrics \<Rightarrow> ('b, 'w, 'c) raft_node \<times> metrics" where
  "metered_apply_logs V s = (apply_logs V (fst s), refresh_metrics (apply_logs V (fst s)) (snd s))"

definition metered_promote :: "('b, 'w, 'c) node_env \<Rightarrow> nat \<Rightarrow> ('b, 'w, 'c) raft_node \<times> metrics \<Rightarrow> ('b, 'w, 'c) raft_node \<times> metrics" where
  "metered_promote V now s = (let n = promote_to_candidate_locked V now (fst s) in (n, refresh_metrics n (snd s)))"

definition metered_become_leader :: "nat \<Rightarrow> ('b, 'w, 'c) raft_node \<times> metrics \<Rightarrow> ('b, 'w, 'c) raft_node \<times> metrics" where
  "metered_become_leader now s =
     (if state (fst s) = Leader then s else let n = become_leader now (fst s) in (n, refresh_metrics n (snd s)))"

text \<open>The rounds of an election: entering the probe, promotion and victory refresh; giving up the probe and the step-down after a
  refused vote do not.\<close>

definition metered_pre_candidate :: "('b, 'w, 'c) node_env \<Rightarrow> nat \<Rightarrow> ('b, 'w, 'c) raft_node \<times> metrics
    \<Rightarrow> (vote_round \<times> (string \<times> request_vote_args) list) option \<times> ('b, 'w, 'c) raft_node \<times> metrics" where
  "metered_pre_candidate V now s =
     (case become_pre_candidate V now (fst s) of (r, n) \<Rightarrow> (r, n, if state (fst s) = Follower then refresh_metrics n (snd s) else snd s))"

definition metered_pre_vote_reply :: "('b, 'w, 'c) node_env \<Rightarrow> nat \<Rightarrow> vote_response_args \<Rightarrow> vote_round \<Rightarrow> ('b, 'w, 'c) raft_node \<times> metrics
    \<Rightarrow> (vote_round \<times> (vote_round \<times> (string \<times> request_vote_args) list) option) \<times> ('b, 'w, 'c) raft_node \<times> metrics" where
  "metered_pre_vote_reply V now reply r s =
     (case process_pre_vote_reply V now reply r (fst s) of (r', started, n) \<Rightarrow>
        ((r', started), n, if started = None then snd s else refresh_metrics n (snd s)))"

definition metered_vote_reply :: "('b, 'w, 'c) node_env \<Rightarrow> nat \<Rightarrow> vote_response_args \<Rightarrow> vote_round \<Rightarrow> ('b, 'w, 'c) raft_node \<times> metrics
    \<Rightarrow> vote_round \<times> ('b, 'w, 'c) raft_node \<times> metrics" where
  "metered_vote_reply V now reply r s =
     (case vote_reply_handler V now reply (r, fst s) of (r', n) \<Rightarrow>
        (r', n, if vote_granted reply \<and> round_total r' div 2 < round_count r' \<and> state (fst s) = Candidate \<and>
                   current_term (fst s) = round_term r'
                then refresh_metrics n (snd s) else snd s))"

text \<open>\<open>maybe_commit\<close> reaches the refresh at the end of \<open>apply_logs\<close> only when it advances the commit index.\<close>

definition metered_maybe_commit :: "('b, 'w, 'c) node_env \<Rightarrow> ('b, 'w, 'c) raft_node \<times> metrics \<Rightarrow> ('b, 'w, 'c) raft_node \<times> metrics" where
  "metered_maybe_commit V s =
     (let n = fst s; highest = config_quorum_reached_index (current_config n) (match_index n) (node_id n) (length (log n)) in
      if state n = Leader \<and> commit_index n < highest \<and>
         (if highest - 1 < length (log n) then le_term (log n ! (highest - 1)) else 0) = current_term n
      then metered_apply_logs V (n\<lparr>commit_index := highest\<rparr>, snd s) else s)"

definition metered_append_reply :: "('b, 'w, 'c) node_env \<Rightarrow> nat \<Rightarrow> string \<Rightarrow> append_entries_args \<Rightarrow> append_reply_args
    \<Rightarrow> ('b, 'w, 'c) raft_node \<times> metrics \<Rightarrow> ('b, 'w, 'c) raft_node \<times> metrics" where
  "metered_append_reply V now peer args reply s =
     (let n = fst s; m = snd s; last_idx = prev_log_index args + length (ae_entries args) in
      if ar_success reply then
        metered_maybe_commit V
          (n\<lparr>match_index := (match_index n)(peer \<mapsto> last_idx), next_index := (next_index n)(peer \<mapsto> last_idx + 1),
             last_quorum_heartbeat_at := Some now\<rparr>,
           set_peer_next_index peer (as_i64 (last_idx + 1)) (set_peer_match_index peer (as_i64 last_idx) m))
      else if current_term n < ar_term reply then
        let n = append_reply_handler V now peer args reply n in (n, refresh_metrics n m)
      else
        let next = (case next_index n peer of None \<Rightarrow> 1 | Some i \<Rightarrow> i) in
        (append_reply_handler V now peer args reply n,
         if 1 < next then set_peer_next_index peer (as_i64 (next - 1)) m else m))"

text \<open>An append refreshes the gauges only through \<open>apply_logs\<close>, when it advances the commit index.\<close>

definition metered_append_entries :: "('b, 'w, 'c) node_env \<Rightarrow> nat \<Rightarrow> append_entries_args \<Rightarrow> ('b, 'w, 'c) raft_node \<times> metrics
    \<Rightarrow> append_reply_args \<times> ('b, 'w, 'c) raft_node \<times> metrics" where
  "metered_append_entries V now args s =
     (case handle_append_entries V now args (fst s) of (reply, n) \<Rightarrow>
        (reply, n, if ar_success reply \<and> commit_index (fst s) < leader_commit args then refresh_metrics n (snd s) else snd s))"

text \<open>A vote request never refreshes them.\<close>

definition metered_request_vote :: "('b, 'w, 'c) node_env \<Rightarrow> nat \<Rightarrow> request_vote_args \<Rightarrow> ('b, 'w, 'c) raft_node \<times> metrics
    \<Rightarrow> vote_response_args \<times> ('b, 'w, 'c) raft_node \<times> metrics" where
  "metered_request_vote V now args s = (case handle_request_vote V now args (fst s) of (reply, n) \<Rightarrow> (reply, n, snd s))"

text \<open>A vote on a transaction refreshes them through \<open>apply_logs\<close>, unless it is refused before that. The coordinator does not when
  it steps down.\<close>

definition metered_tx_vote_request :: "('b, 'w, 'c) node_env \<Rightarrow> tx_vote_request \<Rightarrow> ('b, 'w, 'c) raft_node \<times> metrics
    \<Rightarrow> tx_vote_response \<times> ('b, 'w, 'c) raft_node \<times> metrics" where
  "metered_tx_vote_request V req s =
     (case handle_tx_vote_request V req (fst s) of (reply, n) \<Rightarrow>
        (reply, n, if tv_term req = current_term (fst s) \<and> log_up_to_date (tv_last_log_index req) (tv_last_log_term req) (fst s)
                   then refresh_metrics n (snd s) else snd s))"

definition metered_step_down :: "('b, 'w, 'c) node_env \<Rightarrow> nat \<Rightarrow> ('b, 'w, 'c) raft_node \<times> metrics \<Rightarrow> ('b, 'w, 'c) raft_node \<times> metrics" where
  "metered_step_down V t s = (step_down_on V t (fst s), snd s)"

text \<open>A snapshot that is installed refreshes all gauges; one that the leader takes, those of the snapshot.\<close>

definition metered_install_snapshot :: "('b, 'w, 'c) node_env \<Rightarrow> nat \<Rightarrow> nat option \<Rightarrow> install_snapshot_args \<Rightarrow> ('b, 'w, 'c) raft_node \<times> metrics
    \<Rightarrow> (install_snapshot_reply_args \<times> ('b, 'w, 'c) raft_node \<times> metrics) option" where
  "metered_install_snapshot V now len args s =
     map_option (\<lambda>(reply, n). (reply, n,
       if is_term args < current_term (fst s) \<or> is_term args = current_term (fst s) \<and> state (fst s) = Leader then snd s
       else refresh_metrics n (snapshot_written len (snd s)))) (handle_install_snapshot V now args (fst s))"

definition metered_maybe_snapshot :: "('b, 'w, 'c) node_env \<Rightarrow> nat option \<Rightarrow> nat \<Rightarrow> ('b, 'w, 'c) raft_node \<times> metrics
    \<Rightarrow> (bool \<times> ('b, 'w, 'c) raft_node \<times> metrics) option" where
  "metered_maybe_snapshot V len threshold s =
     map_option (\<lambda>(took, n). (took, n, if took then snapshot_written len (snd s) else snd s)) (maybe_snapshot V threshold (fst s))"

text \<open>The counters of \<open>AbortTx\<close> requests and of the sweep.\<close>

definition count_admin_abort :: "('b, 'w, 'c) raft_node \<Rightarrow> metrics \<Rightarrow> metrics" where
  "count_admin_abort n m = refresh_tx_pending n (m\<lparr>tx_admin_aborted_total := tx_admin_aborted_total m + 1\<rparr>)"

definition count_timeout_abort :: "metrics \<Rightarrow> metrics" where
  "count_timeout_abort m = m\<lparr>tx_timeout_aborted_total := tx_timeout_aborted_total m + 1\<rparr>"

text \<open>Step 5b of \<open>main\<close>.\<close>

definition wire_metrics :: "(nat option \<times> nat) option \<Rightarrow> proc_args \<Rightarrow> ('b, 'w, 'c) raft_node \<Rightarrow> metrics" where
  "wire_metrics snap_file a n = refresh_metrics n (set_metrics snap_file (with_peers (arg_peers a)))"

section \<open>The gauges mirror the node\<close>

definition mirrors :: "('b, 'w, 'c) raft_node \<Rightarrow> metrics \<Rightarrow> bool" where
  "mirrors n m \<longleftrightarrow> raft_term m = as_i64 (current_term n) \<and> raft_commit_index m = as_i64 (commit_index n) \<and>
     raft_last_applied m = as_i64 (last_applied n) \<and> raft_log_length m = as_i64 (length (log n)) \<and> raft_role m = role_code (state n)"

lemma as_i64_small: "n < 2 ^ 63 \<Longrightarrow> as_i64 n = int n"
  by (simp add: as_i64_def signed_word_eqI sint_uint unat_of_nat uint_nat unsigned_of_nat take_bit_nat_eq_self signed_take_bit_int_eq_self)

lemma role_code_inj: "role_code a = role_code b \<longleftrightarrow> a = b"
  by (cases a; cases b) simp_all

lemma mirrors_refresh [simp]: "mirrors n (refresh_metrics n m)"
  by (simp add: mirrors_def refresh_metrics_def)

lemma mirrors_cong:
  "current_term n' = current_term n \<Longrightarrow> commit_index n' = commit_index n \<Longrightarrow> last_applied n' = last_applied n \<Longrightarrow>
   length (log n') = length (log n) \<Longrightarrow> state n' = state n \<Longrightarrow> mirrors n' m = mirrors n m"
  by (simp add: mirrors_def)

lemma mirrors_peer [simp]:
  "mirrors n (set_peer_match_index p v m) = mirrors n m" "mirrors n (set_peer_next_index p v m) = mirrors n m"
  by (simp_all add: mirrors_def set_peer_match_index_def set_peer_next_index_def)

lemma metered_maybe_commit_node: "fst (metered_maybe_commit V s) = maybe_commit V (fst s)"
  by (simp add: metered_maybe_commit_def maybe_commit_def metered_apply_logs_def Let_def)

lemma metered_append_reply_node: "fst (metered_append_reply V now peer args reply s) = append_reply_handler V now peer args reply (fst s)"
  by (simp add: metered_append_reply_def append_reply_handler_def metered_maybe_commit_node Let_def)

lemma mirrors_maybe_commit: "mirrors (fst s) (snd s) \<Longrightarrow> mirrors (fst (metered_maybe_commit V s)) (snd (metered_maybe_commit V s))"
  by (simp add: metered_maybe_commit_def metered_apply_logs_def Let_def)

lemma mirrors_node [simp]:
  "mirrors (n\<lparr>match_index := mi\<rparr>) m = mirrors n m" "mirrors (n\<lparr>next_index := ni\<rparr>) m = mirrors n m"
  "mirrors (n\<lparr>last_quorum_heartbeat_at := t\<rparr>) m = mirrors n m"
  by (simp_all add: mirrors_def)

lemma mirrors_append_reply:
  assumes "mirrors (fst s) (snd s)"
  shows "mirrors (fst (metered_append_reply V now peer args reply s)) (snd (metered_append_reply V now peer args reply s))"
proof (cases "ar_success reply")
  case True
  then show ?thesis using assms by (simp add: metered_append_reply_def Let_def mirrors_maybe_commit)
next
  case False
  then show ?thesis using assms by (simp add: metered_append_reply_def append_reply_handler_def Let_def)
qed

lemma mirrors_storage [simp]:
  "mirrors (n\<lparr>storage := st\<rparr>) m = mirrors n m" "mirrors (n\<lparr>vote_for := v\<rparr>) m = mirrors n m" "mirrors (n\<lparr>last_heartbeat := t\<rparr>) m = mirrors n m"
  "mirrors (n\<lparr>state_machine_of := sm\<rparr>) m = mirrors n m" "mirrors (persist_meta V n) m = mirrors n m"
  by (simp_all add: mirrors_def persist_meta_def)

lemma refresh_state_machine [simp]: "refresh_metrics (n\<lparr>state_machine_of := sm\<rparr>) m = refresh_metrics n m"
  by (simp add: refresh_metrics_def)

lemma append_entry_refused: "append_entry V e n = (Inl err, n') \<Longrightarrow> mirrors n' m = mirrors n m"
  by (auto simp: append_entry_def split: prod.splits sum.splits)

lemma mirrors_propose:
  assumes "mirrors n m"
  shows "case metered_propose V c (n, m) of (ok, n', m') \<Rightarrow> propose V c n = (ok, n') \<and> mirrors n' m'"
    and "case metered_abort_tx V tx (n, m) of (r, n', m') \<Rightarrow> propose_abort_tx V tx n = (r, n') \<and> mirrors n' m'"
  using assms append_entry_refused
  by (force simp: metered_propose_def propose_def metered_abort_tx_def propose_abort_tx_def split: prod.splits sum.splits)+

text \<open>A membership change that is proposed leaves the gauge of the log length one behind.\<close>

lemma unmetered_joint:
  assumes "mirrors n m" and "propose_joint V old new n = (r, n')"
  shows "case r of Inl e \<Rightarrow> mirrors n' m | Inr i \<Rightarrow> length (log n') = length (log n) + 1"
  using assms append_entry_refused [of V _ n]
  by (fastforce simp: propose_joint_def append_entry_def split: prod.splits sum.splits)

lemma unmetered_membership:
  assumes "mirrors n m"
  shows "case metered_add_node V srv (n, m) of (r, n', m') \<Rightarrow> propose_add_node V srv n = (r, n') \<and> m' = m \<and>
      (case r of Inl e \<Rightarrow> mirrors n' m' | Inr i \<Rightarrow> length (log n') = length (log n) + 1)"
    and "case metered_remove_node V nid (n, m) of (r, n', m') \<Rightarrow> propose_remove_node V nid n = (r, n') \<and> m' = m \<and>
      (case r of Inl e \<Rightarrow> mirrors n' m' | Inr i \<Rightarrow> length (log n') = length (log n) + 1)"
  using assms unmetered_joint [OF assms]
  by (auto simp: metered_add_node_def propose_add_node_def metered_remove_node_def propose_remove_node_def Let_def split: prod.splits)

text \<open>What a step-down leaves behind: a follower of the new term, with the gauges as they were.\<close>

definition stepped_down :: "nat \<Rightarrow> ('b, 'w, 'c) raft_node \<Rightarrow> metrics \<Rightarrow> metrics \<Rightarrow> bool" where
  "stepped_down t n' m m' \<longleftrightarrow> m' = m \<and> current_term n' = t \<and> state n' = Follower"

lemma mirrors_election:
  assumes "mirrors n m"
  shows "case metered_pre_candidate V now (n, m) of (r, n', m') \<Rightarrow> become_pre_candidate V now n = (r, n') \<and> mirrors n' m'"
    and "case metered_pre_vote_reply V now reply r (n, m) of ((r', started), n', m') \<Rightarrow>
      process_pre_vote_reply V now reply r n = (r', started, n') \<and>
      (if round_term r < vr_term reply \<and> state n = PreCandidate then stepped_down (current_term n) n' m m' else mirrors n' m')"
    and "case metered_vote_reply V now reply r (n, m) of (r', n', m') \<Rightarrow> vote_reply_handler V now reply (r, n) = (r', n') \<and>
      (if \<not> vote_granted reply \<and> round_term r < vr_term reply then stepped_down (vr_term reply) n' m m' else mirrors n' m')"
  using assms
  by (auto simp: metered_pre_candidate_def become_pre_candidate_def metered_pre_vote_reply_def process_pre_vote_reply_def
      metered_vote_reply_def vote_reply_handler_def stepped_down_def persist_meta_def Let_def split: prod.splits)

lemma mirrors_updates:
  assumes "mirrors n m"
  shows "case metered_apply_logs V (n, m) of (n', m') \<Rightarrow> n' = apply_logs V n \<and> mirrors n' m'"
    and "case metered_promote V now (n, m) of (n', m') \<Rightarrow> n' = promote_to_candidate_locked V now n \<and> mirrors n' m'"
    and "case metered_become_leader now (n, m) of (n', m') \<Rightarrow> n' = become_leader now n \<and> mirrors n' m'"
proof -
  have "state n = Leader \<Longrightarrow> become_leader now n = n" by (simp add: become_leader_def)
  then show "case metered_become_leader now (n, m) of (n', m') \<Rightarrow> n' = become_leader now n \<and> mirrors n' m'"
    using assms by (simp add: metered_become_leader_def Let_def)
qed (simp_all add: metered_apply_logs_def metered_promote_def Let_def)

lemma mirrors_requests:
  assumes "mirrors n m"
  shows "case metered_request_vote V now vargs (n, m) of (reply, n', m') \<Rightarrow> handle_request_vote V now vargs n = (reply, n') \<and>
      (if current_term n < rv_term vargs then stepped_down (rv_term vargs) n' m m' else mirrors n' m')"
    and "case metered_tx_vote_request V req (n, m) of (reply, n', m') \<Rightarrow> handle_tx_vote_request V req n = (reply, n') \<and>
      (if current_term n < tv_term req then stepped_down (tv_term req) n' m m' else mirrors n' m')"
    and "case metered_append_entries V now args (n, m) of (reply, n', m') \<Rightarrow> handle_append_entries V now args n = (reply, n') \<and>
      (if ar_success reply \<and> commit_index n < leader_commit args then mirrors n' m' else m' = m)"
    and "case metered_step_down V t (n, m) of (n', m') \<Rightarrow> n' = step_down_on V t n \<and>
      (if state n = Leader then stepped_down t n' m m' else mirrors n' m')"
  using assms
  by (auto simp: metered_request_vote_def handle_request_vote_def metered_tx_vote_request_def handle_tx_vote_request_def
      metered_append_entries_def metered_step_down_def step_down_on_def stepped_down_def persist_meta_def Let_def split: prod.splits)

lemma mirrors_snapshots:
  assumes "mirrors n m"
  shows "case metered_install_snapshot V now len args (n, m) of None \<Rightarrow> handle_install_snapshot V now args n = None
      | Some (reply, n', m') \<Rightarrow> handle_install_snapshot V now args n = Some (reply, n') \<and> mirrors n' m'"
    and "case metered_maybe_snapshot V len th (n, m) of None \<Rightarrow> maybe_snapshot V th n = None
      | Some (took, n', m') \<Rightarrow> maybe_snapshot V th n = Some (took, n') \<and> mirrors n' m'"
proof -
  have "mirrors n (snapshot_written len m)" using assms by (simp add: mirrors_def snapshot_written_def split: option.splits)
  then show "case metered_maybe_snapshot V len th (n, m) of None \<Rightarrow> maybe_snapshot V th n = None
      | Some (took, n', m') \<Rightarrow> maybe_snapshot V th n = Some (took, n') \<and> mirrors n' m'"
    using assms by (auto simp: metered_maybe_snapshot_def maybe_snapshot_def Let_def split: option.splits sum.splits prod.splits if_splits)
  show "case metered_install_snapshot V now len args (n, m) of None \<Rightarrow> handle_install_snapshot V now args n = None
      | Some (reply, n', m') \<Rightarrow> handle_install_snapshot V now args n = Some (reply, n') \<and> mirrors n' m'"
    using assms by (auto simp: metered_install_snapshot_def handle_install_snapshot_def split: option.splits if_splits)
qed

text \<open>C25: Which operations keep the metrics in step with the node, and which do not. A process starts with gauges of term,
  indices, log length and role that mirror its node. From a mirrored node, the gauges mirror the node again after a
  proposal and an admin abort (whether or not they succeed), a batch that succeeds, the application of entries, a commit, a reply to an
  append, a promotion, a won election, the start of a probe, an installed or a taken snapshot, and after an append that advances the commit
  index. They are left as they were by the two proposals of a membership change, which add an entry to the log, by other
  appends, by a batch that fails, and by every step-down to a newer term or out of a probe: after a refused vote, a vote
  request, a transaction vote and by the coordinator. All metered operations change the node as the plain ones do.\<close>

theorem metrics_follow_node:
  assumes "mirrors n m"
  shows "mirrors k (wire_metrics snap_file a k) \<and>
    (case metered_propose V c (n, m) of (ok, n', m') \<Rightarrow> propose V c n = (ok, n') \<and> mirrors n' m') \<and>
    (case metered_propose_batch V cs (n, m) of (ok, n', m') \<Rightarrow> propose_batch V cs n = (ok, n') \<and> (if ok then mirrors n' m' else m' = m)) \<and>
    (case metered_abort_tx V tx (n, m) of (r, n', m') \<Rightarrow> propose_abort_tx V tx n = (r, n') \<and> mirrors n' m') \<and>
    (case metered_add_node V srv (n, m) of (r, n', m') \<Rightarrow> propose_add_node V srv n = (r, n') \<and> m' = m \<and>
      (case r of Inl e \<Rightarrow> mirrors n' m' | Inr i \<Rightarrow> length (log n') = length (log n) + 1)) \<and>
    (case metered_remove_node V nid (n, m) of (r, n', m') \<Rightarrow> propose_remove_node V nid n = (r, n') \<and> m' = m \<and>
      (case r of Inl e \<Rightarrow> mirrors n' m' | Inr i \<Rightarrow> length (log n') = length (log n) + 1)) \<and>
    (case metered_apply_logs V (n, m) of (n', m') \<Rightarrow> n' = apply_logs V n \<and> mirrors n' m') \<and>
    (case metered_maybe_commit V (n, m) of (n', m') \<Rightarrow> n' = maybe_commit V n \<and> mirrors n' m') \<and>
    (case metered_append_reply V now peer args reply (n, m) of (n', m') \<Rightarrow> n' = append_reply_handler V now peer args reply n \<and> mirrors n' m') \<and>
    (case metered_promote V now (n, m) of (n', m') \<Rightarrow> n' = promote_to_candidate_locked V now n \<and> mirrors n' m') \<and>
    (case metered_become_leader now (n, m) of (n', m') \<Rightarrow> n' = become_leader now n \<and> mirrors n' m') \<and>
    (case metered_pre_candidate V now (n, m) of (r, n', m') \<Rightarrow> become_pre_candidate V now n = (r, n') \<and> mirrors n' m') \<and>
    (case metered_pre_vote_reply V now vote r (n, m) of ((r', started), n', m') \<Rightarrow>
      process_pre_vote_reply V now vote r n = (r', started, n') \<and>
      (if round_term r < vr_term vote \<and> state n = PreCandidate then stepped_down (current_term n) n' m m' else mirrors n' m')) \<and>
    (case metered_vote_reply V now vote r (n, m) of (r', n', m') \<Rightarrow> vote_reply_handler V now vote (r, n) = (r', n') \<and>
      (if \<not> vote_granted vote \<and> round_term r < vr_term vote then stepped_down (vr_term vote) n' m m' else mirrors n' m')) \<and>
    (case metered_request_vote V now vargs (n, m) of (reply, n', m') \<Rightarrow> handle_request_vote V now vargs n = (reply, n') \<and>
      (if current_term n < rv_term vargs then stepped_down (rv_term vargs) n' m m' else mirrors n' m')) \<and>
    (case metered_tx_vote_request V req (n, m) of (reply, n', m') \<Rightarrow> handle_tx_vote_request V req n = (reply, n') \<and>
      (if current_term n < tv_term req then stepped_down (tv_term req) n' m m' else mirrors n' m')) \<and>
    (case metered_append_entries V now args (n, m) of (reply, n', m') \<Rightarrow> handle_append_entries V now args n = (reply, n') \<and>
      (if ar_success reply \<and> commit_index n < leader_commit args then mirrors n' m' else m' = m)) \<and>
    (case metered_step_down V t (n, m) of (n', m') \<Rightarrow> n' = step_down_on V t n \<and>
      (if state n = Leader then stepped_down t n' m m' else mirrors n' m')) \<and>
    (case metered_install_snapshot V now len sargs (n, m) of None \<Rightarrow> handle_install_snapshot V now sargs n = None
      | Some (reply, n', m') \<Rightarrow> handle_install_snapshot V now sargs n = Some (reply, n') \<and> mirrors n' m') \<and>
    (case metered_maybe_snapshot V len th (n, m) of None \<Rightarrow> maybe_snapshot V th n = None
      | Some (took, n', m') \<Rightarrow> maybe_snapshot V th n = Some (took, n') \<and> mirrors n' m')"
proof (intro conjI)
  show "mirrors k (wire_metrics snap_file a k)" by (simp add: wire_metrics_def)
  show "case metered_append_reply V now peer args reply (n, m) of (n', m') \<Rightarrow> n' = append_reply_handler V now peer args reply n \<and> mirrors n' m'"
    using metered_append_reply_node [of V now peer args reply "(n, m)"] mirrors_append_reply [of "(n, m)" V now peer args reply] assms
    by (simp add: case_prod_beta)
  show "case metered_maybe_commit V (n, m) of (n', m') \<Rightarrow> n' = maybe_commit V n \<and> mirrors n' m'"
    using metered_maybe_commit_node [of V "(n, m)"] mirrors_maybe_commit [of "(n, m)" V] assms by (simp add: case_prod_beta)
  show "case metered_propose_batch V cs (n, m) of (ok, n', m') \<Rightarrow> propose_batch V cs n = (ok, n') \<and> (if ok then mirrors n' m' else m' = m)"
    by (simp add: metered_propose_batch_def split: prod.splits)
qed (rule mirrors_propose [OF assms] mirrors_election [OF assms] mirrors_requests [OF assms] mirrors_snapshots [OF assms]
    unmetered_membership [OF assms] mirrors_updates [OF assms])+

text \<open>Some steps leave the gauges behind: a leader that accepts a heartbeat of a higher term, or answers a
  vote request of a higher term, is a follower of the new term afterwards, while the metrics still
  report a leader of the old one.\<close>

theorem step_down_not_metered:
  assumes "mirrors n m" and "state n = Leader" and "current_term n < ae_term args" and "leader_commit args \<le> commit_index n"
    and "prev_log_index args = 0" and "ae_entries args = []" and "current_term n < rv_term vargs" and "ae_term args < 2 ^ 63"
  shows "(\<exists>reply n'. metered_append_entries V now args (n, m) = (reply, n', m) \<and> state n' = Follower \<and> raft_role m = 2 \<and>
      current_term n' = ae_term args \<and> raft_term m < int (current_term n')) \<and>
    (\<exists>reply n'. metered_request_vote V now vargs (n, m) = (reply, n', m) \<and> state n' = Follower \<and> raft_role m = 2)"
proof -
  have r: "raft_role m = 2" "raft_term m = int (current_term n)" using assms as_i64_small [of "current_term n"] by (simp_all add: mirrors_def)
  have "\<exists>reply n'. handle_append_entries V now args n = (reply, n') \<and> state n' = Follower \<and> current_term n' = ae_term args"
    using assms(2-6) by (simp add: handle_append_entries_def Let_def persist_meta_def)
  moreover have "\<exists>reply n'. handle_request_vote V now vargs n = (reply, n') \<and> state n' = Follower"
    using assms(7) by (auto simp: handle_request_vote_def Let_def persist_meta_def)
  ultimately show ?thesis using assms(3,4) r by (auto simp: metered_append_entries_def metered_request_vote_def)
qed

section \<open>Examples\<close>

definition metrics_a :: metrics where
  "metrics_a = wire_metrics None (args_of ''a'' [''b'', ''c'']) leader_a1"

theorem metrics_follow_node_witness:
  "(\<exists>n' m'. metered_propose V0 (CmdDelete ''k'') (leader_a1, metrics_a) = (True, n', m') \<and> mirrors n' m' \<and> raft_log_length m' = 2) \<and>
   (\<exists>n' m'. metered_add_node V0 (server ''d'') (leader_a1, metrics_a) = (Inr 2, n', m') \<and> length (log n') = 2 \<and> raft_log_length m' = 1)"
proof -
  have m: "mirrors leader_a1 metrics_a" by (simp add: metrics_a_def wire_metrics_def)
  note follow = metrics_follow_node [OF m, where V = V0 and c = "CmdDelete ''k''" and srv = "server ''d''"]
  have l: "length (log leader_a1) = 1" "fst (propose V0 (CmdDelete ''k'') leader_a1)" "length (log (snd (propose V0 (CmdDelete ''k'') leader_a1))) = 2"
    "fst (propose_add_node V0 (server ''d'') leader_a1) = Inr 2" by code_simp+
  obtain ok n' m' where p: "metered_propose V0 (CmdDelete ''k'') (leader_a1, metrics_a) = (ok, n', m')" by (metis prod_cases3)
  from conjunct1 [OF conjunct2 [OF follow]] p
  have f: "propose V0 (CmdDelete ''k'') leader_a1 = (ok, n')" "mirrors n' m'" by simp_all
  then have "ok" "raft_log_length m' = 2" using l(2,3) as_i64_small [of 2] by (simp_all add: mirrors_def)
  moreover obtain r k m'' where q: "metered_add_node V0 (server ''d'') (leader_a1, metrics_a) = (r, k, m'')" by (metis prod_cases3)
  from conjunct1 [OF conjunct2 [OF conjunct2 [OF conjunct2 [OF conjunct2 [OF follow]]]]] q
  have "propose_add_node V0 (server ''d'') leader_a1 = (r, k)" "m'' = metrics_a"
    "case r of Inl e \<Rightarrow> mirrors k m'' | Inr i \<Rightarrow> length (log k) = length (log leader_a1) + 1" by simp_all
  then have "r = Inr 2" "length (log k) = 2" "raft_log_length m'' = 1" using l(1,4) m as_i64_small [of 1] by (auto simp: mirrors_def)
  ultimately show ?thesis using p q f(2) by simp
qed

definition heartbeat_2 :: append_entries_args where
  "heartbeat_2 = \<lparr>ae_term = 2, ae_leader_id = ''c'', prev_log_index = 0, prev_log_term = 0, ae_entries = [], leader_commit = 0\<rparr>"

theorem step_down_not_metered_witness:
  "\<exists>reply n'. metered_append_entries V0 5 heartbeat_2 (leader_a1, metrics_a) = (reply, n', metrics_a) \<and> state n' = Follower \<and> raft_role metrics_a = 2"
proof -
  have "mirrors leader_a1 metrics_a" by (simp add: metrics_a_def wire_metrics_def)
  from step_down_not_metered [OF this leader_facts(1), of heartbeat_2 "\<lparr>rv_term = 2, candidate_id = ''c'', rv_last_log_index = 0, rv_last_log_term = 0\<rparr>" V0 5]
  show ?thesis by (auto simp: heartbeat_2_def leader_facts)
qed

end
