(* ===== verification/MetricsServer.thy ===== *)
theory MetricsServer
  imports Observability
begin

text \<open>
  The HTTP endpoint of the metrics (\<open>src/observability/server.rs\<close>). Bytes are characters. The socket
  delivers the bytes of a connection in pieces whose sizes are an argument; a request head that
  does not end within 8192 bytes is dropped. The library functions used on the head,
  \<open>from_utf8\<close> and \<open>split_whitespace\<close>, are written out on bytes.
\<close>

section \<open>Text\<close>

definition byte :: "char \<Rightarrow> nat" where
  "byte c = of_char c"

definition cont_byte :: "char \<Rightarrow> bool" where
  "cont_byte c \<longleftrightarrow> 128 \<le> byte c \<and> byte c < 192"

text \<open>\<open>std::str::from_utf8\<close> accepts the well-formed sequences of Unicode: no overlong forms, no
  surrogates, nothing above \<open>10FFFF\<close>.\<close>

fun utf8 :: "string \<Rightarrow> bool" where
  "utf8 [] = True"
| "utf8 (a # s) =
     (if byte a < 128 then utf8 s
      else if 194 \<le> byte a \<and> byte a \<le> 223 then (case s of b # t \<Rightarrow> cont_byte b \<and> utf8 t | [] \<Rightarrow> False)
      else if 224 \<le> byte a \<and> byte a \<le> 239 then (case s of b # c # t \<Rightarrow> cont_byte b \<and> cont_byte c \<and>
        (byte a = 224 \<longrightarrow> 160 \<le> byte b) \<and> (byte a = 237 \<longrightarrow> byte b < 160) \<and> utf8 t | _ \<Rightarrow> False)
      else if 240 \<le> byte a \<and> byte a \<le> 244 then (case s of b # c # d # t \<Rightarrow> cont_byte b \<and> cont_byte c \<and> cont_byte d \<and>
        (byte a = 240 \<longrightarrow> 144 \<le> byte b) \<and> (byte a = 244 \<longrightarrow> byte b < 144) \<and> utf8 t | _ \<Rightarrow> False)
      else False)"

text \<open>The number of bytes of a white-space character at the front, 0 if there is none.\<close>

definition space_at :: "string \<Rightarrow> nat" where
  "space_at s = (case map byte (take 3 s) of
      a # r \<Rightarrow>
        if a = 32 \<or> 9 \<le> a \<and> a \<le> 13 then 1
        else if a = 194 \<and> r \<noteq> [] \<and> hd r \<in> {133, 160} then 2
        else if a # r \<in> {[225, 154, 128], [226, 129, 159], [227, 128, 128]} then 3
        else if a = 226 \<and> length r = 2 \<and> hd r = 128 \<and> (128 \<le> last r \<and> last r \<le> 138 \<or> last r \<in> {168, 169, 175}) then 3
        else 0
    | [] \<Rightarrow> 0)"

text \<open>\<open>split_whitespace\<close>: the words of a string, with the word read so far in the first argument.\<close>

function words_from :: "string \<Rightarrow> string \<Rightarrow> string list" where
  "words_from w [] = (if w = [] then [] else [w])"
| "words_from w (c # s) =
     (let n = space_at (c # s) in
      if n = 0 then words_from (w @ [c]) s
      else (if w = [] then [] else [w]) @ words_from [] (drop n (c # s)))"
  by pat_completeness auto
termination
  by (relation "measure (\<lambda>(w, s). length s)") auto

definition split_whitespace :: "string \<Rightarrow> string list" where
  "split_whitespace s = words_from [] s"

abbreviation crlf :: string where
  "crlf \<equiv> [CHR 0x0D, CHR 0x0A]"

text \<open>The part before the first line break.\<close>

fun first_line :: "string \<Rightarrow> string" where
  "first_line [] = []"
| "first_line (c # s) = (if take 2 (c # s) = crlf then [] else c # first_line s)"

section \<open>The server\<close>

fun find_double_crlf :: "string \<Rightarrow> nat option" where
  "find_double_crlf [] = None"
| "find_double_crlf (c # s) = (if take 4 (c # s) = crlf @ crlf then Some 0 else map_option Suc (find_double_crlf s))"

definition reason_of :: "nat \<Rightarrow> string" where
  "reason_of status = (if status = 200 then ''OK'' else if status = 404 then ''Not Found''
     else if status = 500 then ''Internal Server Error'' else ''Status'')"

definition http_response :: "nat \<Rightarrow> string \<Rightarrow> string \<Rightarrow> string" where
  "http_response status content_type body =
     ''HTTP/1.1 '' @ show_nat status @ '' '' @ reason_of status @ crlf @
     ''Content-Type: '' @ content_type @ crlf @ ''Content-Length: '' @ show_nat (length body) @ crlf @
     ''Connection: close'' @ crlf @ crlf @ body"

definition head_limit :: nat where
  "head_limit = 8192"

datatype head_outcome = Head string | Dropped | Waiting

text \<open>The reading loop: every read returns at most the free space of the buffer and at most what the
  next piece holds; no bytes mean the end of the stream. \<open>Waiting\<close> is a connection that has sent
  nothing more yet.\<close>

fun read_head :: "nat list \<Rightarrow> string \<Rightarrow> string \<Rightarrow> head_outcome" where
  "read_head [] buf stream = Waiting"
| "read_head (n # ns) buf stream =
     (let bs = take (min n (head_limit - length buf)) stream; buf = buf @ bs in
      if bs = [] then Dropped
      else case find_double_crlf buf of
        Some pos \<Rightarrow> Head (take (pos + 4) buf)
      | None \<Rightarrow> if length buf = head_limit then Dropped else read_head ns buf (drop (length bs) stream))"

text \<open>The answer to a request head; \<open>Inl\<close> is the error for a head that is not text. The encoder of the
  registry is the argument \<open>gather\<close>.\<close>

definition text_plain :: string where
  "text_plain = ''text/plain; charset=utf-8''"

definition respond :: "(metrics \<Rightarrow> string + string) \<Rightarrow> metrics \<Rightarrow> string \<Rightarrow> unit + string" where
  "respond gather m head =
     (if \<not> utf8 head then Inl ()
      else let parts = split_whitespace (first_line head);
               meth = (case parts of x # _ \<Rightarrow> x | [] \<Rightarrow> []); path = (case parts of _ # y # _ \<Rightarrow> y | _ \<Rightarrow> []) in
        Inr (if meth = ''GET'' \<and> (path = ''/metrics'' \<or> take 9 path = ''/metrics?'') then
               (case gather m of
                  Inr body \<Rightarrow> http_response 200 ''text/plain; version=0.0.4; charset=utf-8'' body
                | Inl e \<Rightarrow> http_response 500 text_plain (''metrics encode failed: '' @ e))
             else if meth = ''GET'' \<and> (path = ''/health'' \<or> take 8 path = ''/health?'') then http_response 200 text_plain (''ok'' @ [CHR 0x0A])
             else http_response 404 text_plain (''not found'' @ [CHR 0x0A])))"

definition handle_connection :: "(metrics \<Rightarrow> string + string) \<Rightarrow> metrics \<Rightarrow> nat list \<Rightarrow> string \<Rightarrow> (unit + string option) option" where
  "handle_connection gather m ns stream = (case read_head ns [] stream of
      Waiting \<Rightarrow> None
    | Dropped \<Rightarrow> Some (Inr None)
    | Head h \<Rightarrow> Some (map_sum id Some (respond gather m h)))"

text \<open>The accept loop, until the stop signal: what each accepted connection gets.\<close>

datatype accept_event = Accepted "nat list" string | AcceptFailed | StopRequested

fun run_metrics_server :: "(metrics \<Rightarrow> string + string) \<Rightarrow> metrics \<Rightarrow> accept_event list \<Rightarrow> (unit + string option) option list" where
  "run_metrics_server gather m [] = []"
| "run_metrics_server gather m (Accepted ns stream # es) = handle_connection gather m ns stream # run_metrics_server gather m es"
| "run_metrics_server gather m (AcceptFailed # es) = run_metrics_server gather m es"
| "run_metrics_server gather m (StopRequested # es) = []"

section \<open>The end of a head\<close>

lemma find_double_crlf_Some:
  "find_double_crlf s = Some i \<longleftrightarrow> take 4 (drop i s) = crlf @ crlf \<and> (\<forall>j < i. take 4 (drop j s) \<noteq> crlf @ crlf)"
proof (induction s arbitrary: i)
  case (Cons c s)
  show ?case
  proof (cases i)
    case 0
    then show ?thesis by simp
  next
    case (Suc k)
    have "(\<forall>j < Suc k. take 4 (drop j (c # s)) \<noteq> crlf @ crlf) \<longleftrightarrow>
        take 4 (c # s) \<noteq> crlf @ crlf \<and> (\<forall>j < k. take 4 (drop j s) \<noteq> crlf @ crlf)"
      by (auto simp: less_Suc_eq_0_disj)
    then show ?thesis using Cons.IH [of k] Suc by auto
  qed
qed simp

lemma find_double_crlf_None: "find_double_crlf s = None \<longleftrightarrow> (\<forall>j. take 4 (drop j s) \<noteq> crlf @ crlf)"
proof (induction s)
  case (Cons c s)
  have "(\<forall>j. take 4 (drop j (c # s)) \<noteq> crlf @ crlf) \<longleftrightarrow> take 4 (c # s) \<noteq> crlf @ crlf \<and> (\<forall>j. take 4 (drop j s) \<noteq> crlf @ crlf)"
    by (metis drop0 drop_Suc_Cons not0_implies_Suc)
  then show ?case using Cons.IH by simp
qed simp

text \<open>What a prefix of the stream tells about the whole stream.\<close>

lemma find_in_prefix: "find_double_crlf s = Some i \<Longrightarrow> find_double_crlf (s @ t) = Some i"
proof -
  assume f: "find_double_crlf s = Some i"
  then have i: "take 4 (drop i s) = crlf @ crlf" "\<forall>j < i. take 4 (drop j s) \<noteq> crlf @ crlf" by (simp_all add: find_double_crlf_Some)
  have "length (take 4 (drop i s)) = 4" by (simp only: i(1)) simp
  then have l: "i + 4 \<le> length s" by simp
  have "take 4 (drop j (s @ t)) = take 4 (drop j s)" if "j \<le> i" for j using that l by simp
  then show ?thesis unfolding find_double_crlf_Some using i by (auto simp del: take_append drop_append)
qed

lemma find_inside: "find_double_crlf s = Some i \<Longrightarrow> i + 4 \<le> length s"
proof -
  assume "find_double_crlf s = Some i"
  then have "length (take 4 (drop i s)) = 4" by (simp only: find_double_crlf_Some) simp
  then show ?thesis by simp
qed

section \<open>Reading in pieces\<close>

lemma read_head_spec:
  assumes "\<forall>n \<in> set ns. 0 < n" and "find_double_crlf buf = None" and "length buf < head_limit"
    and "head_limit \<le> length buf + length ns"
  shows "read_head ns buf stream = (case find_double_crlf (take head_limit (buf @ stream)) of
      Some pos \<Rightarrow> Head (take (pos + 4) (buf @ stream)) | None \<Rightarrow> Dropped)"
  using assms
proof (induction ns arbitrary: buf stream)
  case (Cons n ns)
  define bs where "bs = take (min n (head_limit - length buf)) stream"
  define buf' where "buf' = buf @ bs"
  have all: "buf @ stream = buf' @ drop (length bs) stream" by (simp add: buf'_def bs_def min_def)
  show ?case
  proof (cases "bs = []")
    case True
    then have "stream = []" using Cons.prems(1,3) by (auto simp: bs_def)
    then show ?thesis using Cons.prems(2,3) by simp
  next
    case False
    have l: "length buf' \<le> head_limit" using Cons.prems(3) by (simp add: buf'_def bs_def)
    then have t: "take head_limit (buf @ stream) = buf' @ take (head_limit - length buf') (drop (length bs) stream)"
      unfolding all by simp
    have step: "read_head (n # ns) buf stream = (case find_double_crlf buf' of
        Some pos \<Rightarrow> Head (take (pos + 4) buf')
      | None \<Rightarrow> if length buf' = head_limit then Dropped else read_head ns buf' (drop (length bs) stream))"
      unfolding read_head.simps Let_def bs_def [symmetric] buf'_def [symmetric] using False by simp
    show ?thesis
    proof (cases "find_double_crlf buf'")
      case (Some pos)
      then show ?thesis
        using find_in_prefix [OF Some] find_inside [OF Some] unfolding step t by (simp add: all)
    next
      case None
      show ?thesis
      proof (cases "length buf' = head_limit")
        case True
        then show ?thesis using None unfolding step t by simp
      next
        case short: False
        have "head_limit \<le> length buf' + length ns" using Cons.prems(4) False by (cases bs) (simp_all add: buf'_def)
        with Cons.IH [of buf' "drop (length bs) stream"] Cons.prems(1) None short l
        show ?thesis unfolding step all by simp
      qed
    qed
  qed
qed simp

section \<open>Responses\<close>

lemma find_skip: "CHR 0x0D \<notin> set a \<Longrightarrow> find_double_crlf (a @ s) = map_option ((+) (length a)) (find_double_crlf s)"
  by (cases "find_double_crlf s"; induction a) auto

lemma find_line: "hd s \<noteq> CHR 0x0D \<Longrightarrow> s \<noteq> [] \<Longrightarrow> find_double_crlf (crlf @ s) = map_option ((+) 2) (find_double_crlf s)"
  by (cases s; cases "find_double_crlf s") auto

lemma digit_not_cr: "d < 10 \<Longrightarrow> digit d \<noteq> CHR 0x0D"
proof -
  assume "d < 10"
  then have "of_char (digit d) = (48 + d :: nat)" by (simp add: digit_def)
  then show ?thesis by auto
qed

lemma show_nat_not_cr: "CHR 0x0D \<notin> set (show_nat n)"
proof (induction n rule: show_nat.induct)
  case (1 n)
  then show ?case using digit_not_cr by (subst show_nat.simps) (auto simp: eq_commute)
qed

lemma reason_not_cr: "CHR 0x0D \<notin> set (reason_of status)"
  by (simp add: reason_of_def)

text \<open>The head of a response.\<close>

definition response_head :: "nat \<Rightarrow> string \<Rightarrow> nat \<Rightarrow> string" where
  "response_head status content_type len =
     ''HTTP/1.1 '' @ show_nat status @ '' '' @ reason_of status @ crlf @
     ''Content-Type: '' @ content_type @ crlf @ ''Content-Length: '' @ show_nat len @ crlf @ ''Connection: close''"

lemma http_response_head: "http_response status ct body = response_head status ct (length body) @ crlf @ crlf @ body"
  by (simp add: http_response_def response_head_def)

lemma find_response:
  assumes "CHR 0x0D \<notin> set ct"
  shows "find_double_crlf (response_head status ct len @ crlf @ crlf @ body) = Some (length (response_head status ct len))"
proof -
  let ?d = "crlf @ crlf @ body"
  have d: "find_double_crlf ?d = Some 0" by simp
  have 1: "find_double_crlf (''Connection: close'' @ ?d) = Some 17" by (subst find_skip) (simp_all add: d)
  have 2: "find_double_crlf ((''Content-Length: '' @ show_nat len) @ crlf @ ''Connection: close'' @ ?d) = Some (length (show_nat len) + 35)"
    by (subst find_skip, simp add: show_nat_not_cr) (subst find_line, simp, simp, subst 1, simp)
  have 3: "find_double_crlf ((''Content-Type: '' @ ct) @ crlf @ (''Content-Length: '' @ show_nat len) @ crlf @ ''Connection: close'' @ ?d) =
      Some (length ct + length (show_nat len) + 51)"
    by (subst find_skip, simp add: assms) (subst find_line, simp, simp, subst 2, simp)
  have "find_double_crlf ((''HTTP/1.1 '' @ show_nat status @ '' '' @ reason_of status) @ crlf @
      (''Content-Type: '' @ ct) @ crlf @ (''Content-Length: '' @ show_nat len) @ crlf @ ''Connection: close'' @ ?d) =
      Some (length (show_nat status) + length (reason_of status) + length ct + length (show_nat len) + 63)"
    by (subst find_skip, simp add: show_nat_not_cr reason_not_cr) (subst find_line, simp, simp, subst 3, simp)
  then show ?thesis by (simp add: response_head_def)
qed

text \<open>The responses of the endpoint, by the words of the request line.\<close>

lemma respond_cases:
  assumes "utf8 head" and "split_whitespace (first_line head) = meth # path # rest"
  shows "meth = ''GET'' \<Longrightarrow> path = ''/metrics'' \<Longrightarrow> gather m = Inr body \<Longrightarrow>
      respond gather m head = Inr (http_response 200 ''text/plain; version=0.0.4; charset=utf-8'' body)"
    and "meth = ''GET'' \<Longrightarrow> path = ''/health'' \<Longrightarrow> respond gather m head = Inr (http_response 200 text_plain (''ok'' @ [CHR 0x0A]))"
    and "meth \<noteq> ''GET'' \<Longrightarrow> respond gather m head = Inr (http_response 404 text_plain (''not found'' @ [CHR 0x0A]))"
  using assms by (simp_all add: respond_def Let_def)

text \<open>C26: The metrics endpoint. However the bytes of a request arrive, the head is the part up to the first empty
  line; a head that does not end within the buffer is dropped without an answer. A \<open>GET\<close> of
  \<open>/metrics\<close> gets the encoded registry, and a client that splits the response at its first empty
  line finds the body behind a head that states the length of the body.\<close>

theorem scrape_in_any_pieces:
  assumes "\<forall>n \<in> set ns. 0 < n" and "head_limit \<le> length ns"
  shows "handle_connection gather m ns stream = Some (case find_double_crlf (take head_limit stream) of
      None \<Rightarrow> Inr None | Some pos \<Rightarrow> map_sum id Some (respond gather m (take (pos + 4) stream))) \<and>
    (\<forall>pos rest body. find_double_crlf (take head_limit stream) = Some pos \<longrightarrow> utf8 (take (pos + 4) stream) \<longrightarrow>
      split_whitespace (first_line (take (pos + 4) stream)) = ''GET'' # ''/metrics'' # rest \<longrightarrow> gather m = Inr body \<longrightarrow>
      (\<exists>resp h. handle_connection gather m ns stream = Some (Inr (Some resp)) \<and>
        h = response_head 200 ''text/plain; version=0.0.4; charset=utf-8'' (length body) \<and>
        find_double_crlf resp = Some (length h) \<and> take (length h) resp = h \<and> drop (length h + 4) resp = body))"
proof -
  have "length ([] :: string) < head_limit" by (simp add: head_limit_def)
  from read_head_spec [OF assms(1) _ this, of stream] assms(2)
  have r: "read_head ns [] stream = (case find_double_crlf (take head_limit stream) of
      Some pos \<Rightarrow> Head (take (pos + 4) stream) | None \<Rightarrow> Dropped)" by (simp split: option.splits)
  then have 1: "handle_connection gather m ns stream = Some (case find_double_crlf (take head_limit stream) of
      None \<Rightarrow> Inr None | Some pos \<Rightarrow> map_sum id Some (respond gather m (take (pos + 4) stream)))"
    by (simp add: handle_connection_def split: option.splits)
  have "\<exists>resp h. handle_connection gather m ns stream = Some (Inr (Some resp)) \<and>
        h = response_head 200 ''text/plain; version=0.0.4; charset=utf-8'' (length body) \<and>
        find_double_crlf resp = Some (length h) \<and> take (length h) resp = h \<and> drop (length h + 4) resp = body"
    if p: "find_double_crlf (take head_limit stream) = Some pos" and u: "utf8 (take (pos + 4) stream)"
      and w: "split_whitespace (first_line (take (pos + 4) stream)) = ''GET'' # ''/metrics'' # rest" and g: "gather m = Inr body"
    for pos rest body
  proof -
    let ?ct = "''text/plain; version=0.0.4; charset=utf-8''" and ?h = "response_head 200 ''text/plain; version=0.0.4; charset=utf-8'' (length body)"
    have "handle_connection gather m ns stream = Some (Inr (Some (?h @ crlf @ crlf @ body)))"
      using respond_cases(1) [where gather = gather and m = m and body = body, OF u w] g
      unfolding 1 p by (simp add: http_response_head)
    moreover have "find_double_crlf (?h @ crlf @ crlf @ body) = Some (length ?h)" by (rule find_response) simp
    ultimately show ?thesis by (intro exI [of _ "?h @ crlf @ crlf @ body"] exI [of _ ?h]) simp
  qed
  with 1 show ?thesis by blast
qed

section \<open>Examples\<close>

definition scrape_request :: string where
  "scrape_request = ''GET /metrics HTTP/1.1'' @ crlf @ ''Host: x'' @ crlf @ crlf"

theorem scrape_in_any_pieces_witness:
  "\<exists>resp. handle_connection (\<lambda>_. Inr ''oxide_raft_term 1'') (with_peers []) (replicate 8192 3) scrape_request = Some (Inr (Some resp)) \<and>
     drop (length resp - 17) resp = ''oxide_raft_term 1''"
proof -
  let ?g = "\<lambda>_. Inr ''oxide_raft_term 1''"
  have 1: "find_double_crlf (take head_limit scrape_request) = Some 30" by (simp add: scrape_request_def head_limit_def)
  have "take (30 + 4) scrape_request = scrape_request" by (simp add: scrape_request_def)
  moreover have "utf8 scrape_request" "split_whitespace (first_line scrape_request) = ''GET'' # ''/metrics'' # [''HTTP/1.1'']"
    by code_simp+
  ultimately have 2: "utf8 (take (30 + 4) scrape_request)"
    "split_whitespace (first_line (take (30 + 4) scrape_request)) = ''GET'' # ''/metrics'' # [''HTTP/1.1'']" by (simp_all only:)
  have "\<forall>n \<in> set (replicate 8192 (3 :: nat)). 0 < n" "head_limit \<le> length (replicate 8192 (3 :: nat))" by (simp_all add: head_limit_def)
  from scrape_in_any_pieces [where gather = ?g and m = "with_peers []", OF this, THEN conjunct2, rule_format, OF 1 2 refl]
  obtain resp and h :: string where r: "handle_connection ?g (with_peers []) (replicate 8192 3) scrape_request = Some (Inr (Some resp))"
    "drop (length h + 4) resp = ''oxide_raft_term 1''" by blast
  have "length (drop (length h + 4) resp) = 17" unfolding r(2) by simp
  then have "length resp - 17 = length h + 4" by simp
  then show ?thesis using r by (intro exI [of _ resp]) simp
qed

end
