(* ===== verification/TcpNet.thy ===== *)
theory TcpNet
  imports Simulation
begin

text \<open>
  The TCP transport (\<open>src/raft/net.rs\<close>): outgoing calls with their timeouts and the classification of
  errors, and the accept loop that hands every connection to the dispatcher. Connecting, and the
  text of an error, are arguments; so is the sequence of connections. A connection is served
  at the moment in which its dispatcher locks the node.
\<close>

section \<open>Outgoing calls\<close>

definition rpc_request_vote_timeout_ms :: nat where
  "rpc_request_vote_timeout_ms = 1000"

definition rpc_append_entries_timeout_ms :: nat where
  "rpc_append_entries_timeout_ms = 1500"

fun str_contains :: "string \<Rightarrow> string \<Rightarrow> bool" where
  "str_contains [] t \<longleftrightarrow> t = []"
| "str_contains (c # s) t \<longleftrightarrow> take (length t) (c # s) = t \<or> str_contains s t"

text \<open>The error with its debug text, which shows the chain of causes, and its display text.\<close>

definition classify_rpc_err :: "string \<Rightarrow> string \<Rightarrow> transport_error" where
  "classify_rpc_err chain shown =
     (if str_contains chain ''Connection refused'' \<or> str_contains chain ''No route to host'' then Unreachable shown
      else if str_contains chain ''deadline'' \<or> str_contains chain ''timed out'' \<or> str_contains chain ''Timeout'' then TimedOut 0
      else ProtocolError shown)"

fun send_timeout_ms :: "raft_message \<Rightarrow> nat" where
  "send_timeout_ms (RequestVote _) = rpc_request_vote_timeout_ms"
| "send_timeout_ms (AppendEntries _) = rpc_append_entries_timeout_ms"
| "send_timeout_ms (InstallSnapshot _) = rpc_append_entries_timeout_ms"
| "send_timeout_ms _ = rpc_request_vote_timeout_ms"

record tcp_world =
  tcp_connect :: "nat \<Rightarrow> string \<Rightarrow> io_error + unit"
  err_chain :: "rpc_error \<Rightarrow> string"
  err_shown :: "rpc_error \<Rightarrow> string"

definition classified :: "tcp_world \<Rightarrow> (rpc_error + 'a) \<times> writer \<Rightarrow> (transport_error + 'a) \<times> writer" where
  "classified W r = (map_sum (\<lambda>e. classify_rpc_err (err_chain W e) (err_shown W e)) id (fst r), snd r)"

definition tcp_send_raft :: "prost \<Rightarrow> tcp_world \<Rightarrow> string \<Rightarrow> raft_message \<Rightarrow> writer \<Rightarrow> byte list
    \<Rightarrow> (transport_error + raft_message) \<times> writer" where
  "tcp_send_raft P W to msg w replies = classified W (call P (tcp_connect W (send_timeout_ms msg) to) msg w replies)"

definition tcp_send_vote :: "prost \<Rightarrow> tcp_world \<Rightarrow> string \<Rightarrow> tx_vote_request \<Rightarrow> writer \<Rightarrow> byte list
    \<Rightarrow> (transport_error + tx_vote_response) \<times> writer" where
  "tcp_send_vote P W to req w replies = classified W (send_tx_vote_rpc P (tcp_connect W 5000 to) req w replies)"

section \<open>The accept loop\<close>

datatype tcp_event =
    TcpAccepted nat "byte list" writer
  | TcpAcceptFailed
  | TcpStop
  | TcpOther nat

text \<open>
  The loop from a node on: the node at the end, and what every connection got. \<open>None\<close> is a panic in
  a handler. Between two connections other tasks may change the node; \<open>other\<close> gives the node that
  the \<open>i\<close>-th of these changes leaves.
\<close>

fun serve_loop :: "prost \<Rightarrow> ('b, 'w, 'c) node_env \<Rightarrow> (nat \<Rightarrow> ('b, 'w, 'c) raft_node \<Rightarrow> ('b, 'w, 'c) raft_node) \<Rightarrow> tcp_event list
    \<Rightarrow> ('b, 'w, 'c) raft_node \<Rightarrow> (writer list \<times> ('b, 'w, 'c) raft_node) option" where
  "serve_loop P V other [] n = Some ([], n)"
| "serve_loop P V other (TcpStop # es) n = Some ([], n)"
| "serve_loop P V other (TcpAcceptFailed # es) n = serve_loop P V other es n"
| "serve_loop P V other (TcpOther i # es) n = serve_loop P V other es (other i n)"
| "serve_loop P V other (TcpAccepted now s w # es) n =
     (case dispatch_logic P V now s w n of
        None \<Rightarrow> None
      | Some (_, w', m) \<Rightarrow> map_option (\<lambda>(ws, k). (w' # ws, k)) (serve_loop P V other es m))"

definition tcp_serve :: "bool \<Rightarrow> prost \<Rightarrow> ('b, 'w, 'c) node_env \<Rightarrow> (nat \<Rightarrow> ('b, 'w, 'c) raft_node \<Rightarrow> ('b, 'w, 'c) raft_node) \<Rightarrow> tcp_event list
    \<Rightarrow> ('b, 'w, 'c) raft_node \<Rightarrow> transport_error + (writer list \<times> ('b, 'w, 'c) raft_node) option" where
  "tcp_serve has_listener P V other es n =
     (if has_listener then Inr (serve_loop P V other es n)
      else Inl (ProtocolError ''TcpTransport::serve called without a listener''))"

section \<open>Properties\<close>

lemma str_contains_iff: "str_contains s t \<longleftrightarrow> (\<exists>a b. s = a @ t @ b)"
proof (induction s)
  case step: (Cons c s)
  show ?case
  proof
    assume "str_contains (c # s) t"
    then consider "take (length t) (c # s) = t" | "str_contains s t" by auto
    then show "\<exists>a b. c # s = a @ t @ b"
    proof cases
      case 1
      then show ?thesis by (metis append_Nil append_take_drop_id)
    next
      case 2
      then show ?thesis using step.IH by (metis append_Cons)
    qed
  next
    assume "\<exists>a b. c # s = a @ t @ b"
    then obtain a b where ab: "c # s = a @ t @ b" by blast
    show "str_contains (c # s) t"
    proof (cases a)
      case Nil
      with ab have "take (length t) (c # s) = t" by simp
      then show ?thesis by simp
    next
      case (Cons d a')
      with ab have "s = a' @ t @ b" by simp
      then show ?thesis using step.IH by auto
    qed
  qed
qed auto

lemma node_run_trans: "node_run V b' m k \<Longrightarrow> node_run V b n m \<Longrightarrow> node_run V (b \<and> b') n k"
proof (induction rule: node_run.induct)
  case (step b' m m' b'' k)
  from node_run.step [OF step.IH [OF step.prems] step.hyps(2)] show ?case by (simp add: conj_assoc)
qed simp

lemma serve_loop_run:
  assumes "serve_loop P V other es n = Some (ws, m)" and "\<And>i n. \<exists>b. node_run V b n (other i n)"
  shows "\<exists>b. node_run V b n m"
  using assms(1)
proof (induction es arbitrary: n ws)
  case Nil
  then show ?case using node_run.stay by auto
next
  case (Cons e es)
  show ?case
  proof (cases e)
    case (TcpAccepted now s w)
    with Cons.prems obtain r w' k ws' where d: "dispatch_logic P V now s w n = Some (r, w', k)" "serve_loop P V other es k = Some (ws', m)"
      by (auto split: option.splits)
    from Cons.IH [OF d(2)] obtain b where b: "node_run V b k m" by blast
    have "\<exists>b. node_run V b n k"
      using dispatch_step(1) [OF d(1)] node_run.stay node_run.step [OF node_run.stay node_step.local] by (cases "k = n") blast+
    then show ?thesis using node_run_trans [OF b] by blast
  next
    case (TcpOther i)
    with Cons.prems Cons.IH obtain b where b: "node_run V b (other i n) m" by auto
    from assms(2) obtain b' where "node_run V b' n (other i n)" by blast
    then show ?thesis using node_run_trans [OF b] by blast
  qed (use Cons node_run.stay in \<open>auto intro: node_run.stay\<close>)
qed

text \<open>C14: The process as a server: whatever bytes arrive on whatever connections, in any order and interleaved
  with any steps of other tasks of the node, the node that the accept loop leaves satisfies the
  invariant of a running node.\<close>

theorem serve_keeps_invariant:
  assumes "tcp_serve True P V other es (new_node V now a ps sm st) = Inr (Some (ws, n))"
    and "\<And>i n. \<exists>b. node_run V b n (other i n)"
    and "store_ok (codec_of V) st" and "sm_ok (sm_env_of V) sm" and "a \<notin> set ps"
  shows "node_inv V n"
proof -
  have "\<exists>b. node_run V b (new_node V now a ps sm st) n"
    using assms(1) by (intro serve_loop_run [where other = other, OF _ assms(2)]) (simp add: tcp_serve_def)
  then obtain b where "node_run V b (new_node V now a ps sm st) n" by blast
  then show ?thesis using node_inv_new [OF assms(3-5)] node_inv_step
    by (induction "new_node V now a ps sm st" n rule: node_run.induct) blast+
qed

text \<open>An outgoing call succeeds exactly when the call below it does, with the same reply; an error is
  reported as unreachable only if its text names a refused or unroutable connection, and
  as a timeout only if its text names one.\<close>

theorem tcp_errors_classified:
  "fst (tcp_send_raft P W to msg w replies) = Inr reply \<longleftrightarrow>
     fst (call P (tcp_connect W (send_timeout_ms msg) to) msg w replies) = Inr reply"
  "classify_rpc_err chain shown = Unreachable text \<longleftrightarrow> text = shown \<and>
     (\<exists>a b. chain = a @ ''Connection refused'' @ b \<or> chain = a @ ''No route to host'' @ b)"
  "classify_rpc_err chain shown = TimedOut d \<Longrightarrow> \<exists>a b. chain = a @ ''deadline'' @ b \<or> chain = a @ ''timed out'' @ b \<or> chain = a @ ''Timeout'' @ b"
proof -
  show "fst (tcp_send_raft P W to msg w replies) = Inr reply \<longleftrightarrow>
     fst (call P (tcp_connect W (send_timeout_ms msg) to) msg w replies) = Inr reply"
    by (cases "fst (call P (tcp_connect W (send_timeout_ms msg) to) msg w replies)") (simp_all add: tcp_send_raft_def classified_def)
  show "classify_rpc_err chain shown = Unreachable text \<longleftrightarrow> text = shown \<and>
     (\<exists>a b. chain = a @ ''Connection refused'' @ b \<or> chain = a @ ''No route to host'' @ b)"
    unfolding classify_rpc_err_def str_contains_iff by (simp split: if_splits) blast
  show "classify_rpc_err chain shown = TimedOut d \<Longrightarrow> \<exists>a b. chain = a @ ''deadline'' @ b \<or> chain = a @ ''timed out'' @ b \<or> chain = a @ ''Timeout'' @ b"
    unfolding classify_rpc_err_def str_contains_iff by (simp split: if_splits) blast
qed

theorem serve_keeps_invariant_witness:
  "\<exists>ws n. tcp_serve True table_codec V0 (\<lambda>_ n. n) [TcpAccepted 1 [1, 0, 0] wire0, TcpOther 7, TcpStop] node_b = Inr (Some (ws, n)) \<and> node_inv V0 n"
proof -
  have d: "dispatch_logic table_codec V0 1 [1, 0, 0] wire0 node_b = Some (Inr (), wire0, node_b)"
    by (simp add: dispatch_logic_def read_envelope_discriminator_def handle_raft_rpc_inner_def
        read_envelope_payload_def read_exact_def from_byte_def)
  then have s: "tcp_serve True table_codec V0 (\<lambda>_ n. n) [TcpAccepted 1 [1, 0, 0] wire0, TcpOther 7, TcpStop]
      (new_node V0 0 ''b'' [''a'', ''c''] (fresh_sm 1000) (empty_store [])) = Inr (Some ([wire0], node_b))"
    by (simp add: tcp_serve_def node_b_def ex_start_def)
  have "node_inv V0 node_b"
    by (rule serve_keeps_invariant [OF s]) (use node_run.stay empty_store_ok fresh_sm_ok in \<open>auto\<close>)
  then show ?thesis using s by (auto simp: node_b_def ex_start_def)
qed

end
