(* ===== verification/Spec2Isabelle.thy ===== *)
theory Spec2Isabelle
  imports ClientSdk DeposedAppend Timer HarnessWaits SingleCopy Progress Recovery MetricsServer TcpNet
begin

text \<open>
  OxideKV: a replicated key-value store. A node keeps a log-structured state machine on disk, agrees with
  its peers on a log of commands by the Raft protocol, runs transactions over several keys by two-phase
  commit on top of the log, and answers clients on the leader. This library models the Rust crate under
  \<open>src/rust/oxide-kv/src\<close> and the client library under \<open>src/rust/oxide-kv-client/src\<close>.

  \<^bold>\<open>Parts and theories.\<close> In the order in which the theories build on each other:

  \<^item> \<open>Prelude\<close>: collections of facts, lemmas on lists, maps and association lists, results of fallible operations.
  \<^item> \<open>Protocol\<close> (\<open>protocol.rs\<close>): commands, log entries, configurations, the quorum rule and its binary search. Shows that
    the search finds the greatest index with a quorum, and that quorums of adjacent configurations overlap.
  \<^item> \<open>StateMachine\<close>, \<open>StateMachine_Props\<close>, \<open>StateMachine_Disk\<close>, \<open>StateMachine_Read\<close>, \<open>KvMachine\<close> (\<open>state_machine.rs\<close>): memtable,
    write-ahead log, tables, compaction, snapshots and staged transactions on an explicit disk with injected
    failures. \<open>sm_view\<close> is the map a state machine stands for. Every operation updates it as specified and keeps the
    invariant \<open>sm_inv\<close>; a state machine that \<open>lives\<close> through commands, flushes, compactions and crashes is recovered by opening its
    directory; a read returns the value of the map unless the key is \<open>shadowed\<close> by a newer table. \<open>KvMachine\<close> states the contract of the
    state machine as a locale and interprets it for this model.
  \<^item> \<open>ReferenceModel\<close> (\<open>raft/reference_model.rs\<close>): the sequential model of the tests, and that the state machine refines it.
  \<^item> \<open>Storage\<close> (\<open>raft/storage.rs\<close>): the log file, term and vote, snapshot file, with torn writes.
  \<^item> \<open>Rpc\<close>, \<open>Node\<close>, \<open>Node_Props\<close>, \<open>Node_Inv\<close>, \<open>Node_Steps\<close>, \<open>Node_Examples\<close> (\<open>raft/rpc.rs\<close>, \<open>raft/node.rs\<close>): the messages, the state
    of a node as the record \<open>raft_node\<close>, one definition per method and per reply handler of a spawned task, what each
    handler does, the invariant \<open>node_inv\<close> of a running node, and the step relation \<open>node_step\<close> with restarts.
  \<^item> \<open>SyncLogs\<close> (\<open>sync_logs\<close> in \<open>raft/node.rs\<close>): the two kinds of locked sections in which a leader builds its appends.
  \<^item> \<open>Cluster\<close>, \<open>LogMatching\<close>: elections among several nodes, with calls in flight, and election safety; on top of them
    the appends of leaders, and that the logs of a cluster satisfy Log Matching.
  \<^item> \<open>LeaderLogs\<close>, \<open>Replication\<close>, \<open>Replication_Inv\<close>, \<open>CommitSafety\<close>: Leader Completeness on the history of a cluster (the logs of the
    leaders of all terms, votes and acknowledgements); the runs of a cluster with acknowledgements and commits, and an
    invariant that ties them to a history; and that committed entries are final.
  \<^item> \<open>SingleCopy\<close>: the same runs seen from the state machines. The committed log of a cluster only grows, and every node holds
    what the specification of \<open>KvMachine\<close> computes from a prefix of it.
  \<^item> \<open>Progress\<close>: how often a leader has to exchange appends and replies with its followers until it has committed its log.
  \<^item> \<open>Transport\<close>, \<open>Proto\<close>, \<open>RpcServer\<close> (\<open>raft/transport.rs\<close>, \<open>raft/proto.rs\<close>, \<open>coordination.rs\<close>, \<open>raft/rpc.rs\<close>): framing, conversion to
    the wire types, one call from the sender to the handler and back.
  \<^item> \<open>Coordinator\<close>, \<open>Coordinator_Props\<close> (\<open>raft/coordinator.rs\<close>): a transaction round as a state machine over the locked sections of
    \<open>coordinate_tx_inner\<close>, interleaved with arbitrary steps of the node: as the relation \<open>tx_step\<close> with histories (\<open>tx_history\<close>), and as the
    function \<open>coordinate_tx\<close>, which follows the relation and always returns; the sweep for stuck transactions. The
    locale \<open>bounded_poll\<close> gives the properties of all waiting loops.
  \<^item> \<open>Client\<close>, \<open>Client_Props\<close>, \<open>StaleRead\<close>, \<open>StaleMatch\<close>, \<open>DeposedAppend\<close> (\<open>client.rs\<close>): the request handlers, reads and writes, and
    runs that show a stale read, two commands committed at one index, and a committed entry overwritten.
  \<^item> \<open>ClientSdk\<close> (\<open>oxide-kv-client\<close>): requests, replies and buffered transactions, against the handlers of \<open>Client\<close>.
  \<^item> \<open>Startup\<close>, \<open>Recovery\<close> (\<open>main.rs\<close>, \<open>config.rs\<close>): configuration, the files of a node and the start of a process on what a former
    one left behind. A single-node cluster recovers its map and its staged transactions from the log file and, if there is one, the snapshot
    file; the runs of \<open>Recovery\<close> show what goes wrong afterwards, and how restarts break a larger cluster.
  \<^item> \<open>Observability\<close>, \<open>MetricsServer\<close> (\<open>observability/registry.rs\<close>, \<open>observability/server.rs\<close>): the metrics, which operation updates
    them and which does not, and their HTTP endpoint.
  \<^item> \<open>TcpNet\<close> (\<open>raft/net.rs\<close>): outgoing calls and the accept loop.
  \<^item> \<open>Timer\<close> (\<open>raft/timer.rs\<close>, \<open>config.rs\<close>): the election timer.
  \<^item> \<open>Invariants\<close> (\<open>raft/invariants.rs\<close>): the checkers of the simulation, and which states they accept.
  \<^item> \<open>Simulation\<close>, \<open>Harness\<close>, \<open>HarnessWaits\<close> (\<open>raft/clock.rs\<close>, \<open>raft/fault_scheduler.rs\<close>, \<open>raft/sim_transport.rs\<close>, \<open>raft/sim_harness.rs\<close>): the simulated
    network with its faults, the clusters built on it, and how tests drive them.

  The last section of this theory ties the rounds of \<open>Coordinator\<close> to the runs of \<open>Replication\<close>.

  \<^bold>\<open>How the code is represented.\<close> A struct is a record and an enum a datatype; a method is a function that returns
  its result and the changed state; an error is the left side of a sum, a panic is \<open>None\<close>. Unsigned 64-bit numbers are
  natural numbers: they count terms, indices and milliseconds, and where a value from the network is decremented the
  wrap-around is written out (\<open>wrapping_pred\<close>); a term of \<open>2 ^ 64 - 1\<close>, at which the next election overflows, is not reached. Bytes on the wire are 8-bit words. Instants are
  milliseconds. A task that is spawned is a definition of its own that takes the node at the moment it locks it. An
  asynchronous wait is a loop over looks at the node (\<open>poll_loop\<close>); what other tasks do in between is an argument, or an
  arbitrary \<open>node_step\<close>. Serialisation libraries (bincode, serde, prost) are parameters with hypotheses that say that they
  read back what they wrote (\<open>codec_ok\<close>, \<open>sm_env_ok\<close>, \<open>reads_back\<close>, \<open>externally_tagged\<close>); the examples instantiate them.

  \<^bold>\<open>Bounds and fuel.\<close> \<open>restore_loop\<close> has the length of the file as its fuel, since every entry takes at least one
  byte. The exchanges of \<open>Progress\<close> are bounded by \<open>next_index\<close>. \<open>poll_loop\<close> has the number of looks; \<open>waits_terminate\<close> and \<open>requests_answered\<close> show how many are enough:
  201 for a read, which pauses for 10 milliseconds, and 500 for each of the two waits of a membership change, which pause for 20.
  \<open>coordinate_tx\<close> has the number of locked sections; \<open>coordinate_tx_returns\<close> shows that there is always a bound, which depends on
  the number of peers in its snapshot. All other
  loops are total functions; \<open>apply_logs\<close> and the binary search carry their termination proofs.

  \<^bold>\<open>Assumptions of the main theorems.\<close> Election safety is for a fixed membership and for runs without late replies: no refusal of a
  vote, and no answer to a vote on a transaction on which the coordinator steps down, is handled when the node is already in the term
  of the reply or beyond; \<open>late_refusal_splits_cluster\<close> and \<open>step_down_lowers_term\<close> show what such replies do. Log Matching has
  the same restrictions and is for runs in which logs change by proposals and appends only, and in which appends are built by a
  node that leads in their term (\<open>still_leading\<close>), which \<open>sync_logs\<close> does not check. Commit safety is
  for runs in which, moreover, a leader starts with an empty match index and counts acknowledgements of its own term only;
  \<open>stale_match_index_diverges\<close> and \<open>deposed_leader_overwrites\<close> show what happens otherwise. Commit
  indices change by commits of leaders, by appends and by votes on transactions, which coordinators ask for when the leader has
  committed the entry and the voter has acknowledged it (\<open>poll_applied\<close>, \<open>poll_replicated\<close>); installed snapshots (which no code
  sends) and restarts that change the log (\<open>Recovery\<close>) are left out. \<open>SingleCopy\<close> is for processes that stay up:
  \<open>restart_applies_uncommitted\<close> shows that a restarted node can differ. The theorems about a single-node cluster are for a log
  without changes of the configuration; its restart is shown for runs in which no snapshot is taken while a transaction is
  staged, and repeatedly only as long as there is no snapshot (\<open>snapshot_loses_staged_tx\<close>, \<open>snapshot_restart_loses_writes\<close>). Theorems about effects on disk
  assume an intact disk (\<open>store_ok\<close>, \<open>sm_ok\<close>); the behaviour of failing disks has its own theorems.

  \<^bold>\<open>Granularity.\<close> Definitions are locked sections of the code, with these exceptions: \<open>become_candidate\<close>, \<open>become_pre_candidate\<close> and
  \<open>process_pre_vote_reply\<close> join the sections that promote the node and that read what it sends, and the request handlers of \<open>Client\<close> join a
  proposal with the \<open>sync_logs\<close> that follows it, between which the code releases the lock. \<open>SyncLogs\<close> and \<open>DeposedAppend\<close> take the
  sections of \<open>sync_logs\<close> apart.

  \<^bold>\<open>Not modelled.\<close> Sockets, signals and the command-line parser of \<open>main.rs\<close>; the tracer, which discards its calls, and log
  output; the text encoder of the metrics, a parameter. On the disk of the state machine an append to its write-ahead log that fails leaves
  no part of a line, reading a table does not fail other than by missing or unreadable content, and the temporary file of \<open>write_json\<close> is not
  kept. Cancellation
  inside a locked section does not occur in the code.
\<close>

section \<open>Transaction rounds and replication\<close>

text \<open>The two waits of a transaction round end on a leader that has committed \<open>BeginTx\<close>, and that knows it to be
  stored on every peer.\<close>

lemma begin_wait_ends:
  assumes "coordinator_section V now tx ops (WaitBegin i start) n = (StartReplicated j, m)"
  shows "j = i \<and> m = n \<and> state n = Leader \<and> i \<le> commit_index n \<and> i \<le> last_applied n"
  using assms by (auto simp: poll_applied_def split: if_splits)

lemma replication_wait_ends:
  assumes "coordinator_section V now tx ops (WaitReplicated i start) n = (TakeSnapshot j, m)"
  shows "j = i \<and> m = n \<and> state n = Leader \<and> (\<forall>p \<in> set (peers n). i \<le> match_index_for n p)"
  using assms by (auto simp: poll_replicated_def list_all_iff split: if_splits)

text \<open>So the votes that the round goes on to ask for are those that the runs of \<open>Replication\<close> allow: the commit index, which
  does not decrease while the process is up, is still at \<open>BeginTx\<close> or behind it when the second wait ends.\<close>

lemma clear_peers:
  assumes "c \<in> set M" and "state (nodes k c) = Leader" and "0 < i" and "i \<le> commit_index (nodes k c)"
    and "set ps \<subseteq> set (peers (nodes k c))" and "\<forall>p \<in> set ps. i \<le> match_index_for (nodes k c) p"
  shows "replication_run V M True (k, ms, R, E) (k, ms, R, (\<lambda>p. (p, i)) ` set ps \<union> E)"
  using assms(5,6)
proof (induction ps)
  case Nil
  then show ?case using replication_run.at_start by simp
next
  case (Cons p ps)
  have "replication_step V M True (k, ms, R, (\<lambda>p. (p, i)) ` set ps \<union> E) (k, ms, R, insert (p, i) ((\<lambda>p. (p, i)) ` set ps \<union> E))"
    by (rule replication_step.clear [OF assms(1,2)]) (use Cons.prems assms(3,4) in simp_all)
  from replication_run.one_more [OF Cons.IH this] Cons.prems show ?case by simp
qed

lemma round_asks_when_cleared:
  assumes "c \<in> set M" and "0 < i" and "i \<le> commit_index (nodes k c)"
    and "coordinator_section V now tx ops (WaitReplicated i start) (nodes k c) = (TakeSnapshot j, m)"
  shows "\<exists>E'. replication_run V M True (k, ms, R, E) (k, ms, R, E') \<and>
    (\<forall>p \<in> set (vs_peers (take_snapshot j m)). (p, tv_last_log_index (vote_request_for tx (take_snapshot j m))) \<in> E')"
proof -
  note w = replication_wait_ends [OF assms(4)]
  have "replication_run V M True (k, ms, R, E) (k, ms, R, (\<lambda>p. (p, i)) ` set (peers (nodes k c)) \<union> E)"
    by (rule clear_peers [OF assms(1) _ assms(2,3)]) (use w in simp_all)
  then show ?thesis using w by (intro exI conjI) (auto simp: take_snapshot_def vote_request_for_def)
qed

end
